(* ===== verification/LogPrelude.thy ===== *)
theory LogPrelude
  imports Main "HOL-Library.Word" "HOL-Library.Char_ord" "HOL-Library.List_Lexorder"
    "HOL-Library.AList" "HOL-Library.Multiset"
begin

text \<open>
  What every component of the development shares: the view of a Go map as an association
  list whose order is the order in which one \<open>range\<close> loop happens to visit the keys, the
  lemmas that say when a result does not depend on that order, and the lemma collections.

  A Go map is a list of key/value pairs with distinct keys (\<open>gomap_ok\<close>). Go leaves the
  iteration order of a map unspecified; the model makes it the order of the list, so that a
  function of the source that ranges over a map is a recursion over the list, and "the result
  does not depend on the iteration order" is the statement that two lists with the same lookup
  function (\<open>same_map\<close>) give the same result.
\<close>

named_theorems map_simps
  \<comment> \<open>rewriting of lookups, domains and updates of Go maps\<close>

type_synonym 'v gomap = "(string \<times> 'v) list"

abbreviation keys :: "'v gomap \<Rightarrow> string list" where
  "keys m \<equiv> map fst m"

abbreviation put :: "string \<Rightarrow> 'v \<Rightarrow> 'v gomap \<Rightarrow> 'v gomap" where
  "put k v m \<equiv> AList.update k v m"

definition gomap_ok :: "'v gomap \<Rightarrow> bool" where
  "gomap_ok m \<longleftrightarrow> distinct (keys m)"

definition same_map :: "'v gomap \<Rightarrow> 'v gomap \<Rightarrow> bool" where
  "same_map m m' \<longleftrightarrow> map_of m = map_of m'"

lemma lookup_put [simp, map_simps]:
  "map_of (put k v m) = (map_of m)(k \<mapsto> v)"
  by (rule update_conv')

lemma gomap_ok_Nil [simp, intro]: "gomap_ok []"
  by (simp add: gomap_ok_def)

lemma gomap_ok_put [simp, intro]: "gomap_ok m \<Longrightarrow> gomap_ok (put k v m)"
  by (simp add: gomap_ok_def distinct_update)

lemma gomap_ok_Cons [simp]:
  "gomap_ok ((k, v) # m) \<longleftrightarrow> k \<notin> set (keys m) \<and> gomap_ok m"
  by (simp add: gomap_ok_def)

lemma gomap_ok_unique: "gomap_ok m \<Longrightarrow> (k, v) \<in> set m \<Longrightarrow> (k, w) \<in> set m \<Longrightarrow> v = w"
  unfolding gomap_ok_def by (metis map_of_eq_Some_iff option.inject)

lemma keys_put: "set (keys (put k v m)) = insert k (set (keys m))"
  by (simp add: dom_update)

lemma same_map_refl [simp]: "same_map m m"
  by (simp add: same_map_def)

lemma same_map_sym: "same_map m m' \<Longrightarrow> same_map m' m"
  by (simp add: same_map_def)

lemma same_map_put: "same_map m m' \<Longrightarrow> same_map (put k v m) (put k v m')"
  by (simp add: same_map_def)

lemma same_map_mset:
  assumes "gomap_ok m" and "gomap_ok m'" and "same_map m m'"
  shows "mset m = mset m'"
proof -
  have "set m = set m'"
    using assms by (simp add: gomap_ok_def same_map_def map_of_inject_set)
  then show ?thesis
    using assms(1,2) by (simp add: gomap_ok_def distinct_map set_eq_iff_mset_eq_distinct)
qed

text \<open>Sorting the pairs of a map by key gives one list for all iteration orders.\<close>

lemma sort_key_same_map:
  assumes "gomap_ok m" and "gomap_ok m'" and "same_map m m'"
  shows "sort_key fst m = sort_key fst m'"
proof (rule sort_key_inj_key_eq)
  show "mset m = mset (sort_key fst m')"
    using same_map_mset [OF assms] by simp
  show "inj_on fst (set m)"
    using assms(1) by (simp add: gomap_ok_def distinct_map)
  show "sorted (map fst (sort_key fst m'))"
    by simp
qed

lemma sort_keys_same_map:
  assumes "gomap_ok m" and "gomap_ok m'" and "same_map m m'"
  shows "sort (keys m) = sort (keys m')"
proof -
  have "mset (keys m) = mset (keys m')"
    using same_map_mset [OF assms] by simp
  then have "mset (sort (keys m)) = mset (keys m')" by simp
  then show ?thesis by (metis properties_for_sort sorted_sort)
qed

lemma size_list_sort_key [simp]: "size_list f (sort_key g xs) = size_list f xs"
proof -
  have "mset (map f (sort_key g xs)) = mset (map f xs)" by simp
  then have "sum_list (map f (sort_key g xs)) = sum_list (map f xs)"
    by (metis sum_mset_sum_list)
  then show ?thesis by (simp add: size_list_conv_sum_list)
qed

lemma map_of_filter_key:
  "map_of (filter (\<lambda>(k, v). P k) m) k = (if P k then map_of m k else None)"
  by (induction m) auto

lemma fold_put_fresh:
  "k \<notin> set (keys m) \<Longrightarrow> map_of (fold (\<lambda>(k, v). put k v) m acc) k = map_of acc k"
  by (induction m arbitrary: acc) (auto simp: split_def)

lemma fold_put_lookup:
  assumes "gomap_ok m"
  shows "map_of (fold (\<lambda>(k, v). put k v) m acc) = map_of acc ++ map_of m"
  using assms
proof (induction m arbitrary: acc)
  case Nil
  then show ?case by simp
next
  case (Cons p m)
  obtain k v where p: "p = (k, v)" by force
  then have fresh: "k \<notin> dom (map_of m)" and ok: "gomap_ok m"
    using Cons.prems by (simp_all add: dom_map_of_conv_image_fst)
  have "map_of (put k v acc) ++ map_of m = map_of acc ++ map_of (p # m)"
    using fresh p by (auto simp: map_add_def fun_eq_iff split: option.splits)
  then show ?case using Cons.IH [OF ok] p by (simp only: fold_simps prod.case)
qed

lemma fold_put_ok [simp, intro]: "gomap_ok acc \<Longrightarrow> gomap_ok (fold (\<lambda>(k, v). put k v) m acc)"
  by (induction m arbitrary: acc) auto

section \<open>Traces of a step relation\<close>

inductive trace :: "('s \<Rightarrow> 'e \<Rightarrow> 's \<Rightarrow> bool) \<Rightarrow> 's \<Rightarrow> 'e list \<Rightarrow> 's \<Rightarrow> bool"
  for step :: "'s \<Rightarrow> 'e \<Rightarrow> 's \<Rightarrow> bool" and s :: 's where
  trace_nil: "trace step s [] s"
| trace_snoc: "trace step s es t \<Longrightarrow> step t e u \<Longrightarrow> trace step s (es @ [e]) u"

lemma trace_append:
  "trace step t fs u \<Longrightarrow> trace step s es t \<Longrightarrow> trace step s (es @ fs) u"
proof (induction rule: trace.induct)
  case (trace_snoc fs u e v)
  then show ?case using trace.trace_snoc [of step s "es @ fs" u e v] by simp
qed simp

lemma trace_snocE:
  assumes "trace step s (es @ [e]) u"
  obtains t where "trace step s es t" and "step t e u"
  using assms by (cases rule: trace.cases) auto

lemma trace_Nil [simp]: "trace step s [] u \<longleftrightarrow> u = s"
  by (auto elim: trace.cases intro: trace_nil)

lemma trace_split:
  "trace step s (es @ fs) u \<Longrightarrow> \<exists>t. trace step s es t \<and> trace step t fs u"
proof (induction fs arbitrary: u rule: rev_induct)
  case Nil
  then show ?case by (auto intro: trace_nil)
next
  case (snoc e fs)
  from snoc.prems obtain v where "trace step s (es @ fs) v" "step v e u"
    by (metis append_assoc trace_snocE)
  with snoc.IH obtain t where "trace step s es t" "trace step t fs v" by blast
  with \<open>step v e u\<close> show ?case by (blast intro: trace_snoc)
qed

lemma trace_Cons:
  assumes "trace step s (e # es) u"
  obtains t where "step s e t" and "trace step t es u"
proof -
  from trace_split [of step s "[e]" es u] assms
  obtain t where t: "trace step s [e] t" "trace step t es u" by auto
  from t(1) have "step s e t" using trace_snocE [of step s "[]" e t] by auto
  with t(2) show thesis by (rule that [rotated])
qed

lemma trace_single: "step s e t \<Longrightarrow> trace step s [e] t"
  using trace_snoc [of step s "[]" s e t] by simp

lemma trace_step_first: "step s e t \<Longrightarrow> trace step t es u \<Longrightarrow> trace step s (e # es) u"
  using trace_append [of step t es u s "[e]"] trace_single [of step s e t] by simp

text \<open>
  What a component and its specification must agree on: every step from a state of the invariant
  keeps the invariant, and is a step of the specification on the abstract states.
\<close>

locale simulation =
  fixes step :: "'s \<Rightarrow> 'e \<Rightarrow> 's \<Rightarrow> bool" and inv :: "'s \<Rightarrow> bool"
    and abs_of :: "'s \<Rightarrow> 'a" and spec :: "'a \<Rightarrow> 'e \<Rightarrow> 'a \<Rightarrow> bool"
  assumes inv_step: "inv s \<Longrightarrow> step s e s' \<Longrightarrow> inv s'"
    and sim_step: "inv s \<Longrightarrow> step s e s' \<Longrightarrow> spec (abs_of s) e (abs_of s')"
begin

lemma trace_inv: "trace step s es t \<Longrightarrow> inv s \<Longrightarrow> inv t"
  by (induction rule: trace.induct) (auto intro: inv_step)

lemma trace_refines: "trace step s es t \<Longrightarrow> inv s \<Longrightarrow> trace spec (abs_of s) es (abs_of t)"
proof (induction rule: trace.induct)
  case trace_nil
  show ?case by (rule trace.trace_nil)
next
  case (trace_snoc es t e u)
  then have "inv t" by (blast intro: trace_inv)
  with trace_snoc show ?case by (blast intro: trace.trace_snoc sim_step)
qed

end

end
