(* ===== verification/GoStrings.thy ===== *)
theory GoStrings
  imports LogPrelude "HOL-Library.Sublist"
begin

text \<open>
  The parts of Go's standard library on strings that the logger calls, on strings as byte
  lists (a Go string is a byte sequence, an Isabelle character is one byte): searching and
  replacing (\<open>strings\<close>, \<open>bytes\<close>), decimal and hexadecimal integers (\<open>strconv\<close>, \<open>fmt\<close>),
  UTF-8 (\<open>unicode/utf8\<close>) and case folding. They follow the documented behaviour of the
  library; the source's own code starts in the theories that import this one.
\<close>

named_theorems byte_simps
  \<comment> \<open>byte values of characters\<close>

abbreviation bval :: "char \<Rightarrow> nat" where
  "bval c \<equiv> of_char c"

abbreviation byte :: "nat \<Rightarrow> char" where
  "byte n \<equiv> char_of n"

abbreviation quote_ch :: char where "quote_ch \<equiv> CHR 0x22"
abbreviation backslash :: char where "backslash \<equiv> CHR 0x5C"
abbreviation newline :: char where "newline \<equiv> CHR 0x0A"
abbreviation carriage :: char where "carriage \<equiv> CHR 0x0D"
abbreviation tabulator :: char where "tabulator \<equiv> CHR 0x09"
abbreviation escape_ch :: char where "escape_ch \<equiv> CHR 0x1B"

lemma bval_less [simp]: "bval c < 256"
  by (rule nat_of_char_less_256)

lemma bval_byte [byte_simps]: "n < 256 \<Longrightarrow> bval (byte n) = n"
  by simp

lemma bval_inject [simp]: "bval c = bval d \<longleftrightarrow> c = d"
  by simp

lemma byte_eq_iff [simp]: "byte n = c \<longleftrightarrow> n mod 256 = bval c"
  by (simp add: char_of_eq_iff take_bit_eq_mod)

lemma eq_byte_iff [simp]: "c = byte n \<longleftrightarrow> n mod 256 = bval c"
  by (metis byte_eq_iff)

section \<open>Searching and replacing\<close>

text \<open>\<open>bytes.Index\<close> and \<open>strings.Index\<close>: the first position of a substring.\<close>

fun index_of :: "string \<Rightarrow> string \<Rightarrow> nat option" where
  "index_of p [] = (if p = [] then Some 0 else None)"
| "index_of p (c # s) = (if prefix p (c # s) then Some 0 else map_option Suc (index_of p s))"

definition contains_str :: "string \<Rightarrow> string \<Rightarrow> bool" where
  "contains_str s p \<longleftrightarrow> index_of p s \<noteq> None"

lemma index_of_Some_prefix: "index_of p s = Some i \<Longrightarrow> prefix p (drop i s)"
  by (induction s arbitrary: i) (auto split: if_splits)

lemma index_of_None_iff: "index_of p s = None \<longleftrightarrow> \<not> sublist p s"
  by (induction s) (auto simp: sublist_Cons_right)

lemma contains_str_iff: "contains_str s p \<longleftrightarrow> sublist p s"
  by (simp add: contains_str_def index_of_None_iff)

lemma index_of_first:
  assumes "prefix p (drop (length u) (u @ v))"
    and "\<And>i. i < length u \<Longrightarrow> \<not> prefix p (drop i (u @ v))"
  shows "index_of p (u @ v) = Some (length u)"
  using assms
proof (induction u)
  case Nil
  then show ?case by (cases v) auto
next
  case (Cons c u)
  have "\<not> prefix p (c # u @ v)" using Cons.prems(2) [of 0] by simp
  moreover have "index_of p (u @ v) = Some (length u)"
  proof (rule Cons.IH)
    show "prefix p (drop (length u) (u @ v))" using Cons.prems(1) by simp
    show "\<not> prefix p (drop i (u @ v))" if "i < length u" for i
      using Cons.prems(2) [of "Suc i"] that by simp
  qed
  ultimately show ?case by simp
qed

text \<open>\<open>bytes.IndexByte\<close>.\<close>

definition index_byte :: "string \<Rightarrow> char \<Rightarrow> nat option" where
  "index_byte s c = index_of [c] s"

lemma index_byte_Cons [simp]:
  "index_byte (d # s) c = (if d = c then Some 0 else map_option Suc (index_byte s c))"
  by (auto simp: index_byte_def)

lemma index_byte_Nil [simp]: "index_byte [] c = None"
  by (simp add: index_byte_def)

lemma index_byte_append:
  "c \<notin> set u \<Longrightarrow> index_byte (u @ c # v) c = Some (length u)"
  by (induction u) auto

text \<open>\<open>strings.LastIndex\<close> of one byte.\<close>

fun last_index_byte :: "string \<Rightarrow> char \<Rightarrow> nat option" where
  "last_index_byte [] c = None"
| "last_index_byte (d # s) c =
     (case last_index_byte s c of
        Some i \<Rightarrow> Some (Suc i)
      | None \<Rightarrow> if d = c then Some 0 else None)"

lemma last_index_byte_None: "last_index_byte s c = None \<longleftrightarrow> c \<notin> set s"
  by (induction s) (auto split: option.splits)

lemma last_index_byte_Some:
  "last_index_byte s c = Some i \<Longrightarrow> i < length s \<and> s ! i = c \<and> c \<notin> set (drop (Suc i) s)"
  by (induction s arbitrary: i)
    (auto simp: last_index_byte_None split: option.splits if_splits)

text \<open>\<open>strings.ReplaceAll\<close> of a one-byte string.\<close>

fun replace_all :: "char \<Rightarrow> string \<Rightarrow> string \<Rightarrow> string" where
  "replace_all c r [] = []"
| "replace_all c r (d # s) = (if d = c then r @ replace_all c r s else d # replace_all c r s)"

lemma set_replace_all:
  "set (replace_all c r s) = (set s - {c}) \<union> (if c \<in> set s then set r else {})"
  by (induction s) auto

lemma replace_all_id: "c \<notin> set s \<Longrightarrow> replace_all c r s = s"
  by (induction s) auto

lemma replace_all_append: "replace_all c r (s @ t) = replace_all c r s @ replace_all c r t"
  by (induction s) auto

section \<open>Integers in a base\<close>

definition digit_char :: "nat \<Rightarrow> char" where
  "digit_char d = (if d < 10 then byte (48 + d) else byte (87 + d))"

definition digit_val :: "char \<Rightarrow> nat" where
  "digit_val c = (if bval c < 58 then bval c - 48 else bval c - 87)"

lemma digit_val_char [simp]: "d < 16 \<Longrightarrow> digit_val (digit_char d) = d"
  by (simp add: digit_val_def digit_char_def)

function show_base :: "nat \<Rightarrow> nat \<Rightarrow> string" where
  "show_base b n =
     (if n < b \<or> b < 2 then [digit_char n] else show_base b (n div b) @ [digit_char (n mod b)])"
  by pat_completeness auto
termination
  by (relation "measure snd") auto

declare show_base.simps [simp del]

definition read_base :: "nat \<Rightarrow> string \<Rightarrow> nat" where
  "read_base b s = foldl (\<lambda>a c. a * b + digit_val c) 0 s"

lemma read_show_base: "2 \<le> b \<Longrightarrow> b \<le> 16 \<Longrightarrow> read_base b (show_base b n) = n"
proof (induction b n rule: show_base.induct)
  case (1 b n)
  show ?case
  proof (cases "n < b")
    case True
    with "1.prems" show ?thesis by (simp add: show_base.simps [of b n] read_base_def)
  next
    case False
    with "1.prems" have "read_base b (show_base b (n div b)) = n div b" by (simp add: "1.IH")
    moreover have "n mod b < 16" using "1.prems" by (meson mod_less_divisor less_le_trans zero_less_numeral less_le)
    ultimately show ?thesis
      using "1.prems" False by (simp add: show_base.simps [of b n] read_base_def)
  qed
qed

lemma show_base_inject:
  "2 \<le> b \<Longrightarrow> b \<le> 16 \<Longrightarrow> show_base b m = show_base b n \<Longrightarrow> m = n"
  by (metis read_show_base)

lemma show_base_not_Nil [simp]: "show_base b n \<noteq> []"
  by (subst show_base.simps) simp

text \<open>\<open>strconv.AppendUint\<close> and \<open>strconv.AppendInt\<close> in base ten, and \<open>%x\<close>.\<close>

abbreviation show_nat :: "nat \<Rightarrow> string" where
  "show_nat n \<equiv> show_base 10 n"

definition show_int :: "int \<Rightarrow> string" where
  "show_int i = (if i < 0 then CHR ''-'' # show_nat (nat (- i)) else show_nat (nat i))"

definition show_hex_int :: "int \<Rightarrow> string" where
  "show_hex_int i = (if i < 0 then CHR ''-'' # show_base 16 (nat (- i)) else show_base 16 (nat i))"

abbreviation decimal_digit :: "char \<Rightarrow> bool" where
  "decimal_digit c \<equiv> 48 \<le> bval c \<and> bval c \<le> 57"

lemma decimal_digit_char: "d < 10 \<Longrightarrow> decimal_digit (digit_char d)"
  by (simp add: digit_char_def)

lemma show_nat_digits: "c \<in> set (show_nat n) \<Longrightarrow> decimal_digit c"
proof (induction "10::nat" n rule: show_base.induct)
  case (1 n)
  show ?case
  proof (cases "n < 10")
    case True
    with "1.prems" show ?thesis
      by (simp add: show_base.simps [of 10 n] decimal_digit_char)
  next
    case False
    with "1.prems" have "c \<in> set (show_nat (n div 10)) \<or> c = digit_char (n mod 10)"
      by (auto simp: show_base.simps [of 10 n])
    then show ?thesis using "1.hyps" False decimal_digit_char by auto
  qed
qed

lemma hd_show_nat: "0 < n \<Longrightarrow> hd (show_nat n) \<noteq> CHR ''0''"
proof (induction "10::nat" n rule: show_base.induct)
  case (1 n)
  show ?case
  proof (cases "n < 10")
    case True
    with "1.prems" have "bval (digit_char n) \<noteq> 48" by (simp add: digit_char_def)
    then have "digit_char n \<noteq> CHR ''0''" by auto
    with True show ?thesis by (simp add: show_base.simps [of 10 n])
  next
    case False
    then show ?thesis using "1.hyps" "1.prems" by (simp add: show_base.simps [of 10 n])
  qed
qed

lemma show_nat_0 [simp]: "show_nat 0 = ''0''"
  by code_simp

section \<open>UTF-8\<close>

text \<open>
  \<open>utf8.DecodeRuneInString\<close>: the rune at the start of a string and its width in bytes. A byte
  that starts no well-formed encoding (overlong forms, surrogates and values past U+10FFFF
  included) gives the error rune U+FFFD with width 1. \<open>utf8_lead\<close> is the table of leading
  bytes: width of the encoding and range of the second byte.
\<close>

definition rune_error :: nat where
  "rune_error = 0xFFFD"

definition utf8_lead :: "nat \<Rightarrow> (nat \<times> nat \<times> nat) option" where
  "utf8_lead b =
     (if b < 0xC2 then None
      else if b \<le> 0xDF then Some (2, 0x80, 0xBF)
      else if b = 0xE0 then Some (3, 0xA0, 0xBF)
      else if b = 0xED then Some (3, 0x80, 0x9F)
      else if b \<le> 0xEF then Some (3, 0x80, 0xBF)
      else if b = 0xF0 then Some (4, 0x90, 0xBF)
      else if b \<le> 0xF3 then Some (4, 0x80, 0xBF)
      else if b = 0xF4 then Some (4, 0x80, 0x8F)
      else None)"

definition utf8_cont :: "char \<Rightarrow> bool" where
  "utf8_cont c \<longleftrightarrow> 0x80 \<le> bval c \<and> bval c \<le> 0xBF"

definition decode_rune :: "string \<Rightarrow> nat \<times> nat" where
  "decode_rune s =
     (case s of
        [] \<Rightarrow> (rune_error, 0)
      | c # r \<Rightarrow>
          if bval c < 0x80 then (bval c, 1)
          else (case utf8_lead (bval c) of
                  None \<Rightarrow> (rune_error, 1)
                | Some (n, lo, hi) \<Rightarrow>
                    if n = 2 then
                      (case r of
                         c1 # _ \<Rightarrow>
                           if lo \<le> bval c1 \<and> bval c1 \<le> hi
                           then (bval c mod 32 * 64 + bval c1 mod 64, 2) else (rune_error, 1)
                       | _ \<Rightarrow> (rune_error, 1))
                    else if n = 3 then
                      (case r of
                         c1 # c2 # _ \<Rightarrow>
                           if lo \<le> bval c1 \<and> bval c1 \<le> hi \<and> utf8_cont c2
                           then (bval c mod 16 * 4096 + bval c1 mod 64 * 64 + bval c2 mod 64, 3)
                           else (rune_error, 1)
                       | _ \<Rightarrow> (rune_error, 1))
                    else
                      (case r of
                         c1 # c2 # c3 # _ \<Rightarrow>
                           if lo \<le> bval c1 \<and> bval c1 \<le> hi \<and> utf8_cont c2 \<and> utf8_cont c3
                           then (bval c mod 8 * 262144 + bval c1 mod 64 * 4096
                                 + bval c2 mod 64 * 64 + bval c3 mod 64, 4)
                           else (rune_error, 1)
                       | _ \<Rightarrow> (rune_error, 1))))"

text \<open>\<open>utf8.EncodeRune\<close> (surrogates and values past the last code point encode U+FFFD).\<close>

definition encode_rune :: "nat \<Rightarrow> string" where
  "encode_rune r =
     (if r < 0x80 then [byte r]
      else if r < 0x800 then [byte (0xC0 + r div 64), byte (0x80 + r mod 64)]
      else if (0xD800 \<le> r \<and> r \<le> 0xDFFF) \<or> 0x10FFFF < r
      then [byte 0xEF, byte 0xBF, byte 0xBD]
      else if r < 0x10000
      then [byte (0xE0 + r div 4096), byte (0x80 + r div 64 mod 64), byte (0x80 + r mod 64)]
      else [byte (0xF0 + r div 262144), byte (0x80 + r div 4096 mod 64),
            byte (0x80 + r div 64 mod 64), byte (0x80 + r mod 64)])"

lemma utf8_lead_width:
  "utf8_lead b = Some (n, lo, hi) \<Longrightarrow> n \<in> {2, 3, 4} \<and> 0x80 \<le> lo"
  by (auto simp: utf8_lead_def split: if_splits)

lemma decode_rune_ascii [simp]: "bval c < 0x80 \<Longrightarrow> decode_rune (c # s) = (bval c, 1)"
  by (simp add: decode_rune_def)

lemma decode_rune_Nil [simp]: "decode_rune [] = (rune_error, 0)"
  by (simp add: decode_rune_def)

text \<open>
  A multi-byte result depends only on the bytes it covers, and all of them are above 0x7F: a
  multi-byte rune contains no ASCII byte. \<open>decode_rune_cases\<close> is the case analysis on the width.
\<close>

lemma decode_rune_cases:
  assumes "0x80 \<le> bval c" and "snd (decode_rune (c # s)) \<noteq> 1"
  obtains (two) c1 s' lo hi where "s = c1 # s'" "utf8_lead (bval c) = Some (2, lo, hi)"
      "lo \<le> bval c1" "bval c1 \<le> hi" "snd (decode_rune (c # s)) = 2"
  | (three) c1 c2 s' lo hi where "s = c1 # c2 # s'" "utf8_lead (bval c) = Some (3, lo, hi)"
      "lo \<le> bval c1" "bval c1 \<le> hi" "utf8_cont c2" "snd (decode_rune (c # s)) = 3"
  | (four) c1 c2 c3 s' lo hi where "s = c1 # c2 # c3 # s'" "utf8_lead (bval c) = Some (4, lo, hi)"
      "lo \<le> bval c1" "bval c1 \<le> hi" "utf8_cont c2" "utf8_cont c3"
      "snd (decode_rune (c # s)) = 4"
proof -
  obtain n lo hi where lead: "utf8_lead (bval c) = Some (n, lo, hi)"
    using assms by (auto simp: decode_rune_def split: option.splits)
  from utf8_lead_width [OF lead] consider "n = 2" | "n = 3" | "n = 4" by auto
  then show thesis
  proof cases
    case 1
    then show thesis using assms lead two
      by (auto simp: decode_rune_def split: list.splits if_splits)
  next
    case 2
    then show thesis using assms lead three
      by (auto simp: decode_rune_def split: list.splits if_splits)
  next
    case 3
    then show thesis using assms lead four
      by (auto simp: decode_rune_def split: list.splits if_splits)
  qed
qed

lemma decode_rune_multi:
  assumes "0x80 \<le> bval c" and "snd (decode_rune (c # s)) = n" and "n \<noteq> 1"
  shows "n \<in> {2, 3, 4}" and "n \<le> length (c # s)"
    and "\<forall>d \<in> set (take n (c # s)). 0x80 \<le> bval d"
    and "decode_rune (take n (c # s) @ t) = decode_rune (c # s)"
proof -
  have n: "snd (decode_rune (c # s)) \<noteq> 1" using assms by simp
  note cases = decode_rune_cases [OF assms(1) n]
  show "n \<in> {2, 3, 4}" and "n \<le> length (c # s)"
    using assms(2) by (cases rule: cases; simp)+
  show "\<forall>d \<in> set (take n (c # s)). 0x80 \<le> bval d"
    using assms(1,2) by (cases rule: cases) (auto simp: utf8_cont_def dest!: utf8_lead_width)
  show "decode_rune (take n (c # s) @ t) = decode_rune (c # s)"
    using assms(1,2) by (cases rule: cases) (simp_all add: decode_rune_def)
qed

lemma decode_rune_width:
  assumes "s \<noteq> []"
  shows "1 \<le> snd (decode_rune s)" and "snd (decode_rune s) \<le> length s"
proof -
  obtain c r where s: "s = c # r" using assms by (cases s) auto
  have "1 \<le> snd (decode_rune (c # r)) \<and> snd (decode_rune (c # r)) \<le> length (c # r)"
  proof (cases "bval c < 0x80 \<or> snd (decode_rune (c # r)) = 1")
    case True
    then show ?thesis by auto
  next
    case False
    then show ?thesis using decode_rune_multi(1,2) [of c r] by auto
  qed
  then show "1 \<le> snd (decode_rune s)" and "snd (decode_rune s) \<le> length s"
    by (simp_all add: s)
qed

lemma mod_window: "k * m \<le> n \<Longrightarrow> n < Suc k * m \<Longrightarrow> n mod m = n - k * (m::nat)"
  by (metis div_nat_eqI minus_mult_div_eq_mod mult.commute)

lemma cont_mod: "0x80 \<le> b \<Longrightarrow> b \<le> (0xBF::nat) \<Longrightarrow> b mod 64 = b - 0x80"
  using mod_window [of 2 64 b] by simp

lemma split64: "z < 64 \<Longrightarrow> (a * 64 + z) div 64 = (a::nat)" "z < 64 \<Longrightarrow> (a * 64 + z) mod 64 = (z::nat)"
  by (simp, simp only: mod_mult_self3 mod_less)

lemma two_byte:
  fixes b b1 :: nat
  assumes "0xC2 \<le> b" "b \<le> 0xDF" "0x80 \<le> b1" "b1 \<le> 0xBF"
  defines "r \<equiv> b mod 32 * 64 + b1 mod 64"
  shows "0x80 \<le> r" "r < 0x800" "0xC0 + r div 64 = b" "0x80 + r mod 64 = b1"
proof -
  define x y where "x = b - 0xC0" and "y = b1 - 0x80"
  then have xy: "2 \<le> x" "x < 32" "y < 64" and eq: "b = 0xC0 + x" "b1 = 0x80 + y"
    using assms(1-4) by auto
  have "b mod 32 = x" "b1 mod 64 = y"
    using assms(1-4) mod_window [of 6 32 b] by (simp_all add: x_def y_def cont_mod)
  then have r: "r = x * 64 + y" by (simp only: r_def)
  show "0x80 \<le> r" "r < 0x800" using r xy by auto
  show "0xC0 + r div 64 = b" "0x80 + r mod 64 = b1" using r xy eq by simp_all
qed

lemma three_byte:
  fixes b b1 b2 :: nat
  assumes "0xE0 \<le> b" "b \<le> 0xEF" "0x80 \<le> b1" "b1 \<le> 0xBF" "0x80 \<le> b2" "b2 \<le> 0xBF"
    and lo: "b = 0xE0 \<Longrightarrow> 0xA0 \<le> b1" and hi: "b = 0xED \<Longrightarrow> b1 \<le> 0x9F"
  defines "r \<equiv> b mod 16 * 4096 + b1 mod 64 * 64 + b2 mod 64"
  shows "0x800 \<le> r" "r < 0x10000" "\<not> (0xD800 \<le> r \<and> r \<le> 0xDFFF)"
    "0xE0 + r div 4096 = b" "0x80 + r div 64 mod 64 = b1" "0x80 + r mod 64 = b2"
proof -
  define x y z where "x = b - 0xE0" and "y = b1 - 0x80" and "z = b2 - 0x80"
  then have xy: "x < 16" "y < 64" "z < 64" and eq: "b = 0xE0 + x" "b1 = 0x80 + y" "b2 = 0x80 + z"
    using assms(1-6) by auto
  have "b mod 16 = x" "b1 mod 64 = y" "b2 mod 64 = z"
    using assms(1-6) mod_window [of 14 16 b] by (simp_all add: x_def y_def z_def cont_mod)
  then have "r = x * 4096 + y * 64 + z" by (simp only: r_def)
  then have r: "r = (x * 64 + y) * 64 + z" by simp
  have lo': "x = 0 \<Longrightarrow> 32 \<le> y" and hi': "x = 13 \<Longrightarrow> y < 32" using lo hi eq by auto
  show "0x800 \<le> r" using r lo' by (cases "x = 0") auto
  show "r < 0x10000" using r xy by auto
  show "\<not> (0xD800 \<le> r \<and> r \<le> 0xDFFF)"
    using r xy hi' by (cases "x = 13"; cases "x < 13") auto
  have "r div 4096 = r div 64 div 64" by (simp add: div_mult2_eq)
  then have "r div 4096 = x" "r div 64 mod 64 = y" "r mod 64 = z"
    unfolding r using xy by (simp_all only: split64)
  then show "0xE0 + r div 4096 = b" "0x80 + r div 64 mod 64 = b1" "0x80 + r mod 64 = b2"
    using eq by simp_all
qed

lemma four_byte:
  fixes b b1 b2 b3 :: nat
  assumes "0xF0 \<le> b" "b \<le> 0xF4" "0x80 \<le> b1" "b1 \<le> 0xBF" "0x80 \<le> b2" "b2 \<le> 0xBF"
    "0x80 \<le> b3" "b3 \<le> 0xBF"
    and lo: "b = 0xF0 \<Longrightarrow> 0x90 \<le> b1" and hi: "b = 0xF4 \<Longrightarrow> b1 \<le> 0x8F"
  defines "r \<equiv> b mod 8 * 262144 + b1 mod 64 * 4096 + b2 mod 64 * 64 + b3 mod 64"
  shows "0x10000 \<le> r" "r \<le> 0x10FFFF" "0xF0 + r div 262144 = b"
    "0x80 + r div 4096 mod 64 = b1" "0x80 + r div 64 mod 64 = b2" "0x80 + r mod 64 = b3"
proof -
  define x y z w where "x = b - 0xF0" and "y = b1 - 0x80" and "z = b2 - 0x80" and "w = b3 - 0x80"
  then have xy: "x < 5" "y < 64" "z < 64" "w < 64"
    and eq: "b = 0xF0 + x" "b1 = 0x80 + y" "b2 = 0x80 + z" "b3 = 0x80 + w"
    using assms(1-8) by auto
  have "b mod 8 = x" "b1 mod 64 = y" "b2 mod 64 = z" "b3 mod 64 = w"
    using assms(1-8) mod_window [of 30 8 b] by (simp_all add: x_def y_def z_def w_def cont_mod)
  then have "r = x * 262144 + y * 4096 + z * 64 + w" by (simp only: r_def)
  then have r: "r = ((x * 64 + y) * 64 + z) * 64 + w" by simp
  have lo': "x = 0 \<Longrightarrow> 16 \<le> y" and hi': "x = 4 \<Longrightarrow> y < 16" using lo hi eq by auto
  show "0x10000 \<le> r" using r lo' by (cases "x = 0") auto
  show "r \<le> 0x10FFFF" using r xy hi' by (cases "x = 4") auto
  have "r div 4096 = r div 64 div 64" "r div 262144 = r div 64 div 64 div 64"
    by (simp_all add: div_mult2_eq)
  then have "r div 262144 = x" "r div 4096 mod 64 = y" "r div 64 mod 64 = z" "r mod 64 = w"
    unfolding r using xy by (simp_all only: split64)
  then show "0xF0 + r div 262144 = b" "0x80 + r div 4096 mod 64 = b1" "0x80 + r div 64 mod 64 = b2"
    "0x80 + r mod 64 = b3"
    using eq by simp_all
qed
text \<open>Encoding a decoded multi-byte rune gives back the bytes it was decoded from.\<close>

lemma encode_decode_multi:
  assumes "0x80 \<le> bval c" and "snd (decode_rune (c # s)) \<noteq> 1"
  shows "encode_rune (fst (decode_rune (c # s))) = take (snd (decode_rune (c # s))) (c # s)"
  using assms
proof (cases rule: decode_rune_cases)
  case (two c1 s' lo hi)
  then have "0xC2 \<le> bval c" "bval c \<le> 0xDF" "0x80 \<le> bval c1" "bval c1 \<le> 0xBF"
    by (auto simp: utf8_lead_def split: if_splits)
  note b = two_byte [OF this]
  define r where "r = bval c mod 32 * 64 + bval c1 mod 64"
  note b = b [folded r_def]
  have d: "decode_rune (c # s) = (r, 2)"
    using two assms(1) by (simp add: decode_rune_def r_def)
  have "encode_rune r = [byte (0xC0 + r div 64), byte (0x80 + r mod 64)]"
    using b(1,2) by (simp add: encode_rune_def)
  then have "encode_rune r = [byte (bval c), byte (bval c1)]" by (simp only: b(3,4))
  then show ?thesis using d two(1) by simp
next
  case (three c1 c2 s' lo hi)
  then have "0xE0 \<le> bval c" "bval c \<le> 0xEF" "0x80 \<le> bval c1" "bval c1 \<le> 0xBF"
    "0x80 \<le> bval c2" "bval c2 \<le> 0xBF" "bval c = 0xE0 \<Longrightarrow> 0xA0 \<le> bval c1"
    "bval c = 0xED \<Longrightarrow> bval c1 \<le> 0x9F"
    by (auto simp: utf8_lead_def utf8_cont_def split: if_splits)
  note b = three_byte [OF this]
  define r where "r = bval c mod 16 * 4096 + bval c1 mod 64 * 64 + bval c2 mod 64"
  note b = b [folded r_def]
  have d: "decode_rune (c # s) = (r, 3)"
    using three assms(1) by (simp add: decode_rune_def r_def)
  have "encode_rune r = [byte (0xE0 + r div 4096), byte (0x80 + r div 64 mod 64), byte (0x80 + r mod 64)]"
    using b(1-3) by (auto simp: encode_rune_def)
  then have "encode_rune r = [byte (bval c), byte (bval c1), byte (bval c2)]" by (simp only: b(4-6))
  then show ?thesis using d three(1) by simp
next
  case (four c1 c2 c3 s' lo hi)
  then have "0xF0 \<le> bval c" "bval c \<le> 0xF4" "0x80 \<le> bval c1" "bval c1 \<le> 0xBF"
    "0x80 \<le> bval c2" "bval c2 \<le> 0xBF" "0x80 \<le> bval c3" "bval c3 \<le> 0xBF"
    "bval c = 0xF0 \<Longrightarrow> 0x90 \<le> bval c1" "bval c = 0xF4 \<Longrightarrow> bval c1 \<le> 0x8F"
    by (auto simp: utf8_lead_def utf8_cont_def split: if_splits)
  note b = four_byte [OF this]
  define r where
    "r = bval c mod 8 * 262144 + bval c1 mod 64 * 4096 + bval c2 mod 64 * 64 + bval c3 mod 64"
  note b = b [folded r_def]
  have d: "decode_rune (c # s) = (r, 4)"
    using four assms(1) by (simp add: decode_rune_def r_def)
  have "encode_rune r = [byte (0xF0 + r div 262144), byte (0x80 + r div 4096 mod 64),
      byte (0x80 + r div 64 mod 64), byte (0x80 + r mod 64)]"
    using b(1,2) by (simp add: encode_rune_def)
  then have "encode_rune r = [byte (bval c), byte (bval c1), byte (bval c2), byte (bval c3)]" by (simp only: b(3-6))
  then show ?thesis using d four(1) by simp
qed

lemma decode_rune_shrinks: "s \<noteq> [] \<Longrightarrow> length s - snd (decode_rune s) < length s"
  using decode_rune_width(1) [of s] by (cases s) auto

text \<open>The runes of a string, with the widths of their encodings, and \<open>utf8.RuneCountInString\<close>.\<close>

function runes :: "string \<Rightarrow> (nat \<times> nat) list" where
  "runes s = (if s = [] then [] else decode_rune s # runes (drop (snd (decode_rune s)) s))"
  by pat_completeness auto
termination
  by (relation "measure length") (auto simp: decode_rune_shrinks)

declare runes.simps [simp del]

definition rune_count :: "string \<Rightarrow> nat" where
  "rune_count s = length (runes s)"

lemma runes_Nil [simp]: "runes [] = []"
  by (simp add: runes.simps)

lemma runes_ascii [simp]: "bval c < 0x80 \<Longrightarrow> runes (c # s) = (bval c, 1) # runes s"
  by (subst runes.simps) simp

lemma rune_count_ascii: "\<forall>c \<in> set s. bval c < 0x80 \<Longrightarrow> rune_count s = length s"
  by (induction s) (simp_all add: rune_count_def)

section \<open>Case folding\<close>

text \<open>
  \<open>strings.ToLower\<close>. A string of ASCII bytes is folded byte by byte; any other string is decoded
  rune by rune, each rune folded by \<open>unicode.ToLower\<close> and encoded again. The only runes above
  U+007F whose lower case is an ASCII letter are U+0130 (\<open>i\<close>) and U+212A (\<open>k\<close>); the
  logger compares the result with ASCII words only, so the folding of the other runes above
  U+007F, which never gives an ASCII byte, is left out (they are kept as they are).
\<close>

definition lower_rune :: "nat \<Rightarrow> nat" where
  "lower_rune r =
     (if 65 \<le> r \<and> r \<le> 90 then r + 32
      else if r = 0x130 then 0x69
      else if r = 0x212A then 0x6B
      else r)"

definition to_lower :: "string \<Rightarrow> string" where
  "to_lower s =
     (if \<forall>c \<in> set s. bval c < 0x80 then map (\<lambda>c. byte (lower_rune (bval c))) s
      else concat (map (\<lambda>(r, n). encode_rune (lower_rune r)) (runes s)))"

lemma to_lower_ascii:
  "\<forall>c \<in> set s. bval c < 0x80 \<Longrightarrow> to_lower s = map (\<lambda>c. byte (lower_rune (bval c))) s"
  by (simp add: to_lower_def)

end
