(* ===== verification/GoNumbers.thy ===== *)
theory GoNumbers
  imports GoStrings
begin

text \<open>
  The parts of Go's standard library on numbers that the logger calls: \<open>time.Duration.String\<close>
  and \<open>strconv.FormatFloat\<close> with the shortest number of digits, for the formats \<open>'f'\<close> (the JSON
  encoder) and \<open>'g'\<close> (\<open>%v\<close> of \<open>fmt\<close>).

  A \<open>float64\<close> is its IEEE 754 bit pattern in a 64-bit word, a \<open>float32\<close> its pattern in a
  32-bit word. The digits are computed by exact integer arithmetic: the shortest decimal that
  lies in the rounding interval of the number, the one closest to it if there are two.
\<close>

section \<open>Durations\<close>

text \<open>
  \<open>fmtFrac\<close>: the fraction of \<open>v / 10 ^ prec\<close> without trailing zeros (nothing, not even the
  point, if it is zero), and the integer part. \<open>out\<close> holds the digits already printed.
\<close>

fun fmtFrac_loop :: "nat \<Rightarrow> nat \<Rightarrow> string \<Rightarrow> nat \<times> string" where
  "fmtFrac_loop 0 v out = (v, out)"
| "fmtFrac_loop (Suc p) v out =
     fmtFrac_loop p (v div 10)
       (if out \<noteq> [] \<or> v mod 10 \<noteq> 0 then digit_char (v mod 10) # out else [])"

definition fmtFrac :: "nat \<Rightarrow> nat \<Rightarrow> nat \<times> string" where
  "fmtFrac v prec =
     (let (w, out) = fmtFrac_loop prec v [] in (w, if out = [] then [] else CHR ''.'' # out))"

definition duration_String :: "64 word \<Rightarrow> string" where
  "duration_String d =
     (let u = (if sint d < 0 then unat (- d) else unat d);
          body =
            (if u = 0 then ''0s''
             else if u < 1000 then show_nat u @ ''ns''
             else if u < 1000000 then
               (let (i, f) = fmtFrac u 3 in show_nat i @ f @ [byte 0xC2, byte 0xB5] @ ''s'')
             else if u < 1000000000 then
               (let (i, f) = fmtFrac u 6 in show_nat i @ f @ ''ms'')
             else
               (let (i, f) = fmtFrac u 9;
                    secs = show_nat (i mod 60) @ f @ ''s'';
                    m = i div 60
                in if m = 0 then secs
                   else (let mins = show_nat (m mod 60) @ ''m'' @ secs; h = m div 60
                         in if h = 0 then mins else show_nat h @ ''h'' @ mins)))
      in (if sint d < 0 then CHR ''-'' # body else body))"

section \<open>Floating point\<close>

text \<open>
  The parts of a bit pattern with \<open>mb\<close> fraction bits and \<open>eb\<close> exponent bits: sign, biased
  exponent and fraction.
\<close>

definition float_neg :: "nat \<Rightarrow> nat \<Rightarrow> nat \<Rightarrow> bool" where
  "float_neg mb eb u \<longleftrightarrow> u div 2 ^ (mb + eb) mod 2 = 1"

definition float_exp :: "nat \<Rightarrow> nat \<Rightarrow> nat \<Rightarrow> nat" where
  "float_exp mb eb u = u div 2 ^ mb mod 2 ^ eb"

definition float_frac :: "nat \<Rightarrow> nat \<Rightarrow> nat" where
  "float_frac mb u = u mod 2 ^ mb"

definition float_special :: "nat \<Rightarrow> nat \<Rightarrow> nat \<Rightarrow> bool" where
  "float_special mb eb u \<longleftrightarrow> float_exp mb eb u = 2 ^ eb - 1"

text \<open>\<open>math.IsNaN\<close> and \<open>math.IsInf(f, 0)\<close> of a \<open>float64\<close>.\<close>

definition is_NaN :: "64 word \<Rightarrow> bool" where
  "is_NaN f \<longleftrightarrow> float_special 52 11 (unat f) \<and> float_frac 52 (unat f) \<noteq> 0"

definition is_Inf :: "64 word \<Rightarrow> bool" where
  "is_Inf f \<longleftrightarrow> float_special 52 11 (unat f) \<and> float_frac 52 (unat f) = 0"

text \<open>The conversion \<open>float64(x)\<close> of a \<open>float32\<close>, which is exact.\<close>

fun bit_width :: "nat \<Rightarrow> nat" where
  "bit_width n = (if n = 0 then 0 else Suc (bit_width (n div 2)))"

declare bit_width.simps [simp del]

definition widen_float :: "32 word \<Rightarrow> 64 word" where
  "widen_float x =
     (let u = unat x; s = (if float_neg 23 8 u then 2 ^ 63 else 0);
          e = float_exp 23 8 u; m = float_frac 23 u
      in of_nat
        (if e = 255 then s + 2047 * 2 ^ 52 + m * 2 ^ 29
         else if e \<noteq> 0 then s + (e + 896) * 2 ^ 52 + m * 2 ^ 29
         else if m = 0 then s
         else (let p = bit_width m - 1
               in s + (p + 874) * 2 ^ 52 + (m - 2 ^ p) * 2 ^ (52 - p))))"

text \<open>
  A positive finite number is \<open>m * 2 ^ (e - b)\<close> for naturals \<open>m\<close>, \<open>e\<close> and the offset \<open>b\<close>. In
  units of a quarter of the last place its value is \<open>4 m\<close>, and the reals that round to it lie
  between \<open>lo\<close> and \<open>4 m + 2\<close>, ends included when \<open>m\<close> is even.
\<close>

definition scale_frac :: "nat \<Rightarrow> int \<Rightarrow> nat \<times> nat" where
  \<comment> \<open>\<open>x * 2 ^ e\<close> as a fraction of naturals\<close>
  "scale_frac x e = (if 0 \<le> e then (x * 2 ^ nat e, 1) else (x, 2 ^ nat (- e)))"

definition decimal_point :: "nat \<Rightarrow> nat \<Rightarrow> int" where
  \<comment> \<open>the number of digits before the point of \<open>a / b\<close>, zero or negative below one tenth\<close>
  "decimal_point a b =
     (if b \<le> a then int (length (show_nat (a div b)))
      else (let c = (b + a - 1) div a
            in 1 - int (if c \<le> 1 then 0 else length (show_nat (c - 1)))))"

definition in_interval :: "nat \<times> nat \<Rightarrow> nat \<times> nat \<Rightarrow> bool \<Rightarrow> nat \<Rightarrow> int \<Rightarrow> bool" where
  \<comment> \<open>does \<open>n * 10 ^ k\<close> lie between the two fractions?\<close>
  "in_interval lo hi closed n k =
     (let (p, q) = (if 0 \<le> k then (n * 10 ^ nat k, 1) else (n, 10 ^ nat (- k)));
          (a, b) = lo; (c, d) = hi
      in if closed then a * q \<le> p * b \<and> p * d \<le> c * q
         else a * q < p * b \<and> p * d < c * q)"

text \<open>
  \<open>a / b\<close> in units of \<open>10 ^ k\<close>: the integer part and whether to round it up (ties to even).
\<close>

definition floor_units :: "nat \<times> nat \<Rightarrow> int \<Rightarrow> nat \<times> bool" where
  "floor_units ab k =
     (let (a, b) = ab;
          (p, q) = (if 0 \<le> k then (a, b * 10 ^ nat k) else (a * 10 ^ nat (- k), b));
          n = p div q; r = p mod q
      in (n, \<not> (2 * r < q \<or> 2 * r = q \<and> even n)))"

definition try_digits ::
  "nat \<times> nat \<Rightarrow> nat \<times> nat \<Rightarrow> nat \<times> nat \<Rightarrow> bool \<Rightarrow> int \<Rightarrow> nat option" where
  \<comment> \<open>the multiple of \<open>10 ^ k\<close> in the interval that is closest to the value\<close>
  "try_digits ab lo hi closed k =
     (let (n, up) = floor_units ab k;
          ok0 = (0 < n \<and> in_interval lo hi closed n k);
          ok1 = in_interval lo hi closed (n + 1) k
      in if ok0 \<and> (\<not> ok1 \<or> \<not> up) then Some n else if ok1 then Some (n + 1) else None)"

fun shortest_search ::
  "nat \<Rightarrow> nat \<times> nat \<Rightarrow> nat \<times> nat \<Rightarrow> nat \<times> nat \<Rightarrow> bool \<Rightarrow> int \<Rightarrow> nat \<times> int" where
  \<comment> \<open>\<open>fuel\<close> counts the numbers of digits still to try, \<open>k\<close> is the current exponent\<close>
  "shortest_search 0 ab lo hi closed k =
     (let (n, up) = floor_units ab k in if 0 < n \<and> \<not> up then n else n + 1, k)"
| "shortest_search (Suc fuel) ab lo hi closed k =
     (case try_digits ab lo hi closed k of
        Some n \<Rightarrow> (n, k)
      | None \<Rightarrow> shortest_search fuel ab lo hi closed (k - 1))"

fun strip_zeros :: "nat \<Rightarrow> int \<Rightarrow> nat \<times> int" where
  "strip_zeros n k =
     (if n \<noteq> 0 \<and> n mod 10 = 0 then strip_zeros (n div 10) (k + 1) else (n, k))"

declare strip_zeros.simps [simp del]

text \<open>
  The shortest digits of a positive finite number: \<open>(n, k)\<close> for \<open>n * 10 ^ k\<close>. Seventeen digits
  always suffice for a \<open>float64\<close>, nine for a \<open>float32\<close>.
\<close>

definition shortest :: "nat \<Rightarrow> nat \<Rightarrow> nat \<Rightarrow> nat \<times> int" where
  "shortest mb eb u =
     (let E = float_exp mb eb u; F = float_frac mb u;
          m = (if E = 0 then F else F + 2 ^ mb);
          e = int (if E = 0 then 1 else E) - (2 ^ (eb - 1) - 1) - int mb;
          lo = (if F = 0 \<and> 1 < E then 4 * m - 1 else 4 * m - 2);
          (a, b) = scale_frac (4 * m) (e - 2)
      in case shortest_search 17 (a, b) (scale_frac lo (e - 2)) (scale_frac (4 * m + 2) (e - 2))
           (even m) (decimal_point a b - 1)
         of (n, k) \<Rightarrow> strip_zeros n k)"

text \<open>Format \<open>'f'\<close>: the digits \<open>n\<close> with the decimal point moved by \<open>k\<close>.\<close>

definition fmt_f :: "nat \<Rightarrow> int \<Rightarrow> string" where
  "fmt_f n k =
     (if 0 \<le> k then show_nat n @ replicate (nat k) (CHR ''0'')
      else (let s = show_nat n; f = nat (- k)
            in if f < length s then take (length s - f) s @ ''.'' @ drop (length s - f) s
               else ''0.'' @ replicate (f - length s) (CHR ''0'') @ s))"

text \<open>Format \<open>'e'\<close>: one digit, the rest after the point, an exponent of at least two digits.\<close>

definition fmt_e :: "nat \<Rightarrow> int \<Rightarrow> string" where
  "fmt_e n k =
     (let s = show_nat n; x = k + int (length s) - 1; ax = nat (abs x)
      in take 1 s @ (if length s = 1 then [] else CHR ''.'' # drop 1 s) @ ''e''
         @ (if x < 0 then ''-'' else ''+'') @ (if ax < 10 then ''0'' else []) @ show_nat ax)"

definition special_text :: "nat \<Rightarrow> nat \<Rightarrow> nat \<Rightarrow> string" where
  "special_text mb eb u =
     (if float_frac mb u \<noteq> 0 then ''NaN'' else if float_neg mb eb u then ''-Inf'' else ''+Inf'')"

definition signed_text :: "nat \<Rightarrow> nat \<Rightarrow> nat \<Rightarrow> string \<Rightarrow> string" where
  "signed_text mb eb u s = (if float_neg mb eb u then CHR ''-'' # s else s)"

definition float_zero :: "nat \<Rightarrow> nat \<Rightarrow> nat \<Rightarrow> bool" where
  "float_zero mb eb u \<longleftrightarrow> float_exp mb eb u = 0 \<and> float_frac mb u = 0"

text \<open>\<open>strconv.FormatFloat(f, 'f', -1, 64)\<close>.\<close>

definition format_float_f :: "64 word \<Rightarrow> string" where
  "format_float_f f =
     (let u = unat f in
      if float_special 52 11 u then special_text 52 11 u
      else signed_text 52 11 u
        (if float_zero 52 11 u then ''0'' else case shortest 52 11 u of (n, k) \<Rightarrow> fmt_f n k))"

text \<open>\<open>FormatFloat(f, 'g', -1, size)\<close>: exponents below -4 or from 6 on take the form \<open>'e'\<close>.\<close>

definition format_float_g :: "nat \<Rightarrow> nat \<Rightarrow> nat \<Rightarrow> string" where
  "format_float_g mb eb u =
     (if float_special mb eb u then special_text mb eb u
      else signed_text mb eb u
        (if float_zero mb eb u then ''0''
         else (case shortest mb eb u of (n, k) \<Rightarrow>
                let x = k + int (length (show_nat n)) - 1
                in if x < -4 \<or> 6 \<le> x then fmt_e n k else fmt_f n k)))"

end
