(* ===== verification/GoValues.thy ===== *)
theory GoValues
  imports GoNumbers
begin

text \<open>
  The values a log field can hold: Go's \<open>any\<close>, by the cases that the logger's type switches tell
  apart (\<open>encode.go\<close>, \<open>errors.go\<close>, \<open>logger.go\<close>, \<open>redact.go\<close>), and \<open>fmt.Sprintf("%v", x)\<close> on
  them.

  Values whose type the logger does not know are opaque: what the logger can find out about
  them is the type name, the result of \<open>json.Marshal\<close> (\<open>None\<close> for an error) and the text of
  \<open>%v\<close>, so these three are what the model keeps. An error is its concrete type, its message and
  what \<open>errors.Unwrap\<close> gives; a value that implements \<open>slog.LogValuer\<close> carries the value that
  one call of \<open>LogValue().Any()\<close> gives and what it looks like unresolved.
\<close>

datatype goerr = GoErr (err_type: string) (err_Error: string) (err_Unwrap: "goerr option")

datatype opaque = Opaque (op_type: string) (op_marshal: "string option") (op_show: string)

datatype gval =
    VNil
  | VString string
  | VBool bool
  | VInt "64 word"
  | VInt8 "8 word"
  | VInt16 "16 word"
  | VInt32 "32 word"
  | VInt64 "64 word"
  | VUint "64 word"
  | VUint8 "8 word"
  | VUint16 "16 word"
  | VUint32 "32 word"
  | VUint64 "64 word"
  | VFloat32 "32 word"
  | VFloat64 "64 word"
  | VError goerr
  | VDuration "64 word"
  | VNumber string
  | VMap "(string \<times> gval) list"
  | VStrings "string list"
  | VList "gval list"
  | VLogValuer opaque gval
  | VOther opaque

type_synonym fields = "gval gomap"

text \<open>The termination of the recursions over values: a map is as large as its sorted pairs.\<close>

lemma size_list_sort_key_le [termination_simp]:
  "size_list f (sort_key g xs) = size_list f xs"
  by simp

text \<open>\<open>fmt.Sprintf("%v", x)\<close>: maps print their keys in order.\<close>

definition join :: "string \<Rightarrow> string list \<Rightarrow> string" where
  "join sep xs = concat (case xs of [] \<Rightarrow> [] | x # r \<Rightarrow> x # map (\<lambda>y. sep @ y) r)"

fun show_v :: "gval \<Rightarrow> string" where
  "show_v VNil = ''<nil>''"
| "show_v (VString s) = s"
| "show_v (VBool b) = (if b then ''true'' else ''false'')"
| "show_v (VInt w) = show_int (sint w)"
| "show_v (VInt8 w) = show_int (sint w)"
| "show_v (VInt16 w) = show_int (sint w)"
| "show_v (VInt32 w) = show_int (sint w)"
| "show_v (VInt64 w) = show_int (sint w)"
| "show_v (VUint w) = show_nat (unat w)"
| "show_v (VUint8 w) = show_nat (unat w)"
| "show_v (VUint16 w) = show_nat (unat w)"
| "show_v (VUint32 w) = show_nat (unat w)"
| "show_v (VUint64 w) = show_nat (unat w)"
| "show_v (VFloat32 w) = format_float_g 23 8 (unat w)"
| "show_v (VFloat64 w) = format_float_g 52 11 (unat w)"
| "show_v (VError e) = err_Error e"
| "show_v (VDuration d) = duration_String d"
| "show_v (VNumber n) = n"
| "show_v (VMap m) =
     ''map['' @ join '' '' (map (\<lambda>(k, v). k @ '':'' @ show_v v) (sort_key fst m)) @ '']''"
| "show_v (VStrings xs) = ''['' @ join '' '' xs @ '']''"
| "show_v (VList vs) = ''['' @ join '' '' (map show_v vs) @ '']''"
| "show_v (VLogValuer p v) = op_show p"
| "show_v (VOther p) = op_show p"

end
