(* ===== verification/LogAsync.thy ===== *)
theory LogAsync
  imports GoValues
begin

text \<open>
  \<open>writer_async.go\<close>: the asynchronous writer as a transition system. Its state is the buffered
  channel, the background goroutine (\<open>drain\<close>: idle, or holding a message that it has received and
  not yet written, or gone), the state of \<open>sync.Once\<close> behind \<open>Close\<close>, the drop counter, and what
  the destination has received. The steps are the atomic actions of the code, so every interleaving
  of concurrent callers of \<open>Write\<close> and \<open>Close\<close> with the goroutine is a sequence of steps. The
  destination is assumed to return from every \<open>Write\<close>; what it returns is ignored by the code.
\<close>

type_synonym write_result = "nat \<times> goerr option"

definition ErrWriterClosed :: goerr where
  "ErrWriterClosed = GoErr ''*errors.errorString'' ''logger: async writer is closed'' None"

datatype once_state = OnceNew | OnceRunning | OnceDone

record async_writer =
  ch :: "string list"
  capacity :: nat
  ch_closed :: bool
  holding :: "string option"
  drain_done :: bool
  once :: once_state
  dropCnt :: "64 word"
  dest :: "string list"
  dest_syncs :: nat

definition NewAsyncWriter :: "int \<Rightarrow> async_writer" where
  "NewAsyncWriter bufferSize =
     \<lparr>ch = [], capacity = nat (if bufferSize \<le> 0 then 4096 else bufferSize), ch_closed = False,
      holding = None, drain_done = False, once = OnceNew, dropCnt = 0, dest = [], dest_syncs = 0\<rparr>"

section \<open>The operations\<close>

text \<open>
  One \<open>Write\<close>. A send on a closed channel panics, also inside \<open>select\<close>; the deferred \<open>recover\<close>
  swallows the panic, so the function returns the zero values of its unnamed results.
\<close>

datatype outcome = Accepted | Dropped | Recovered

definition async_Write :: "string \<Rightarrow> async_writer \<Rightarrow> outcome \<times> write_result \<times> async_writer" where
  "async_Write p s =
     (if ch_closed s then (Recovered, (0, None), s)
      else if length (ch s) < capacity s
      then (Accepted, (length p, None), s\<lparr>ch := ch s @ [p]\<rparr>)
      else (Dropped, (0, None), s\<lparr>dropCnt := dropCnt s + 1\<rparr>))"

text \<open>The loop of \<open>drain\<close>: receive, write to the destination, leave when closed and empty.\<close>

definition drain_receive :: "async_writer \<Rightarrow> async_writer option" where
  "drain_receive s =
     (if drain_done s then None
      else case holding s of
        Some _ \<Rightarrow> None
      | None \<Rightarrow> (case ch s of [] \<Rightarrow> None | m # r \<Rightarrow> Some (s\<lparr>ch := r, holding := Some m\<rparr>)))"

definition drain_write :: "async_writer \<Rightarrow> async_writer option" where
  "drain_write s =
     (case holding s of
        None \<Rightarrow> None
      | Some m \<Rightarrow> Some (s\<lparr>holding := None, dest := dest s @ [m]\<rparr>))"

definition drain_exit :: "async_writer \<Rightarrow> async_writer option" where
  "drain_exit s =
     (if ch_closed s \<and> ch s = [] \<and> holding s = None \<and> \<not> drain_done s
      then Some (s\<lparr>drain_done := True\<rparr>) else None)"

text \<open>
  \<open>Close\<close>: the first caller closes the channel, waits for the goroutine and then syncs the
  destination if it can be synced; the other callers wait for the first (\<open>sync.Once\<close>).
\<close>

definition close_start :: "async_writer \<Rightarrow> async_writer option" where
  "close_start s =
     (if once s = OnceNew then Some (s\<lparr>once := OnceRunning, ch_closed := True\<rparr>) else None)"

definition close_finish :: "bool \<Rightarrow> async_writer \<Rightarrow> async_writer option" where
  "close_finish dest_is_syncer s =
     (if once s = OnceRunning \<and> drain_done s
      then Some (s\<lparr>once := OnceDone, dest_syncs := dest_syncs s + (if dest_is_syncer then 1 else 0)\<rparr>)
      else None)"

definition close_again :: "async_writer \<Rightarrow> async_writer option" where
  "close_again s = (if once s = OnceDone then Some s else None)"

definition DroppedCount :: "async_writer \<Rightarrow> 64 word" where
  "DroppedCount s = dropCnt s"

lemmas async_ops = async_Write_def drain_receive_def drain_write_def drain_exit_def
  close_start_def close_finish_def close_again_def

section \<open>Interleavings\<close>

datatype event =
    EWrite string outcome
  | EReceive
  | EDeliver
  | EExit
  | ECloseStart
  | ECloseFinish bool
  | ECloseAgain

inductive astep :: "async_writer \<Rightarrow> event \<Rightarrow> async_writer \<Rightarrow> bool" where
  enqueue: "async_Write p s = (oc, res, s') \<Longrightarrow> astep s (EWrite p oc) s'"
| receive: "drain_receive s = Some s' \<Longrightarrow> astep s EReceive s'"
| deliver: "drain_write s = Some s' \<Longrightarrow> astep s EDeliver s'"
| leave: "drain_exit s = Some s' \<Longrightarrow> astep s EExit s'"
| start: "close_start s = Some s' \<Longrightarrow> astep s ECloseStart s'"
| finish: "close_finish sy s = Some s' \<Longrightarrow> astep s (ECloseFinish sy) s'"
| again: "close_again s = Some s' \<Longrightarrow> astep s ECloseAgain s'"

inductive_cases astepE:
  "astep s (EWrite p oc) s'" "astep s EReceive s'" "astep s EDeliver s'" "astep s EExit s'"
  "astep s ECloseStart s'" "astep s (ECloseFinish sy) s'" "astep s ECloseAgain s'"

inductive_simps astep_simps:
  "astep s (EWrite p oc) s'" "astep s EReceive s'" "astep s EDeliver s'" "astep s EExit s'"
  "astep s ECloseStart s'" "astep s (ECloseFinish sy) s'" "astep s ECloseAgain s'"

definition accepted_msgs :: "event list \<Rightarrow> string list" where
  "accepted_msgs es = concat (map (\<lambda>e. case e of EWrite p Accepted \<Rightarrow> [p] | _ \<Rightarrow> []) es)"

definition dropped_count :: "event list \<Rightarrow> nat" where
  "dropped_count es = length (filter (\<lambda>e. case e of EWrite p Dropped \<Rightarrow> True | _ \<Rightarrow> False) es)"

lemma accepted_msgs_append [simp]: "accepted_msgs (es @ fs) = accepted_msgs es @ accepted_msgs fs"
  by (simp add: accepted_msgs_def)

lemma dropped_count_append [simp]: "dropped_count (es @ fs) = dropped_count es + dropped_count fs"
  by (simp add: dropped_count_def)

text \<open>The messages accepted and not yet written, oldest first.\<close>

definition pending :: "async_writer \<Rightarrow> string list" where
  "pending s = (case holding s of None \<Rightarrow> [] | Some m \<Rightarrow> [m]) @ ch s"

definition async_inv :: "async_writer \<Rightarrow> bool" where
  "async_inv s \<longleftrightarrow>
     0 < capacity s \<and> length (ch s) \<le> capacity s \<and>
     (ch_closed s \<longleftrightarrow> once s \<noteq> OnceNew) \<and>
     (drain_done s \<longrightarrow> ch_closed s \<and> pending s = []) \<and>
     (once s = OnceDone \<longrightarrow> drain_done s) \<and>
     (once s \<noteq> OnceDone \<longrightarrow> dest_syncs s = 0) \<and> dest_syncs s \<le> 1"

lemma async_inv_new: "async_inv (NewAsyncWriter cap)"
  by (simp add: async_inv_def NewAsyncWriter_def)

lemma async_inv_step: "astep s e s' \<Longrightarrow> async_inv s \<Longrightarrow> async_inv s'"
  by (induction rule: astep.induct)
    (auto simp: async_inv_def pending_def async_ops split: if_splits option.splits list.splits)

lemma step_accounting:
  "astep s e s' \<Longrightarrow>
     dest s' @ pending s' = dest s @ pending s @ accepted_msgs [e] \<and>
     dropCnt s' = dropCnt s + of_nat (dropped_count [e]) \<and> capacity s' = capacity s"
  by (induction rule: astep.induct)
    (auto simp: accepted_msgs_def dropped_count_def pending_def async_ops
      split: if_splits option.splits list.splits)

lemma trace_accounting:
  "trace astep s es s' \<Longrightarrow>
     dest s' @ pending s' = dest s @ pending s @ accepted_msgs es \<and>
     dropCnt s' = dropCnt s + of_nat (dropped_count es) \<and> capacity s' = capacity s"
proof (induction rule: trace.induct)
  case trace_nil
  then show ?case by (simp add: accepted_msgs_def dropped_count_def)
next
  case (trace_snoc es t e u)
  then show ?case using step_accounting [of t e u] by simp
qed

section \<open>The specification: a lossy queue\<close>

text \<open>
  What the comments promise: messages are delivered in the order of acceptance, a message is
  dropped only when as many as the buffer holds are pending, nothing is accepted after closing, and
  closing finishes only when everything accepted has been delivered.
\<close>

record lossy_queue =
  lq_room :: nat
  lq_pending :: "string list"
  lq_out :: "string list"
  lq_open :: bool

inductive lq_step :: "lossy_queue \<Rightarrow> event \<Rightarrow> lossy_queue \<Rightarrow> bool" where
  lq_accept: "lq_open q \<Longrightarrow> length (lq_pending q) \<le> lq_room q \<Longrightarrow>
    lq_step q (EWrite p Accepted) (q\<lparr>lq_pending := lq_pending q @ [p]\<rparr>)"
| lq_drop: "lq_open q \<Longrightarrow> lq_room q \<le> length (lq_pending q) \<Longrightarrow> lq_step q (EWrite p Dropped) q"
| lq_refuse: "\<not> lq_open q \<Longrightarrow> lq_step q (EWrite p Recovered) q"
| lq_deliver: "lq_pending q = m # r \<Longrightarrow>
    lq_step q EDeliver (q\<lparr>lq_pending := r, lq_out := lq_out q @ [m]\<rparr>)"
| lq_close: "lq_open q \<Longrightarrow> lq_step q ECloseStart (q\<lparr>lq_open := False\<rparr>)"
| lq_closed: "\<not> lq_open q \<Longrightarrow> lq_pending q = [] \<Longrightarrow> lq_step q (ECloseFinish sy) q"
| lq_silent: "e \<in> {EReceive, EExit, ECloseAgain} \<Longrightarrow> lq_step q e q"

definition lossy_of :: "async_writer \<Rightarrow> lossy_queue" where
  "lossy_of s = \<lparr>lq_room = capacity s, lq_pending = pending s, lq_out = dest s, lq_open = \<not> ch_closed s\<rparr>"

lemma async_simulates:
  assumes "astep s e s'" and "async_inv s"
  shows "lq_step (lossy_of s) e (lossy_of s')"
  using assms
proof (induction rule: astep.induct)
  case (enqueue p s oc res s')
  then show ?case
    by (auto simp: async_Write_def lossy_of_def pending_def async_inv_def lq_step.simps
        split: if_splits option.splits)
next
  case (deliver s s')
  then show ?case
    by (auto simp: drain_write_def lossy_of_def pending_def lq_step.simps split: option.splits)
qed (auto simp: async_ops lossy_of_def pending_def async_inv_def lq_step.simps
      split: if_splits option.splits list.splits)

interpretation async_queue: simulation astep async_inv lossy_of lq_step
  by unfold_locales (auto intro: async_inv_step async_simulates)

section \<open>Properties\<close>

lemma new_accounting:
  assumes "trace astep (NewAsyncWriter cap) es s"
  shows "dest s @ pending s = accepted_msgs es" "dropCnt s = of_nat (dropped_count es)"
    "capacity s = nat (if cap \<le> 0 then 4096 else cap)" "async_inv s"
  using trace_accounting [OF assms] async_queue.trace_inv [OF assms] async_inv_new
  by (auto simp: NewAsyncWriter_def pending_def)

text \<open>C7: In every interleaving, what the destination has received followed by what is pending is
  exactly what was accepted, in order of acceptance: no message is lost, duplicated or reordered. The
  drop counter counts the rejected messages modulo the word size, and the buffer is bounded.\<close>

theorem AsyncWriter_fifo:
  assumes "trace astep (NewAsyncWriter cap) es s"
  shows "dest s @ pending s = accepted_msgs es \<and>
    DroppedCount s = of_nat (dropped_count es) \<and>
    length (pending s) \<le> nat (if cap \<le> 0 then 4096 else cap) + 1"
  using new_accounting [OF assms]
  by (auto simp: async_inv_def pending_def DroppedCount_def split: option.split)

lemma two_writes:
  "trace astep (NewAsyncWriter 1) [EWrite ''a'' Accepted, EWrite ''b'' Dropped]
     ((NewAsyncWriter 1)\<lparr>ch := [''a''], dropCnt := 1\<rparr>)"
proof -
  have a: "astep (NewAsyncWriter 1) (EWrite ''a'' Accepted) ((NewAsyncWriter 1)\<lparr>ch := [''a'']\<rparr>)"
    by (rule astep.enqueue) (simp add: async_Write_def NewAsyncWriter_def)
  have b: "astep ((NewAsyncWriter 1)\<lparr>ch := [''a'']\<rparr>) (EWrite ''b'' Dropped)
      ((NewAsyncWriter 1)\<lparr>ch := [''a''], dropCnt := 1\<rparr>)"
    by (rule astep.enqueue) (simp add: async_Write_def NewAsyncWriter_def)
  show ?thesis
    using trace_snoc [of astep _ "[EWrite ''a'' Accepted]", OF _ b]
      trace_snoc [of astep _ "[]", OF trace_nil a] by simp
qed

theorem AsyncWriter_fifo_witness:
  "dest ((NewAsyncWriter 1)\<lparr>ch := [''a''], dropCnt := 1\<rparr>) @
     pending ((NewAsyncWriter 1)\<lparr>ch := [''a''], dropCnt := 1\<rparr>) = [''a'']"
  using AsyncWriter_fifo [OF two_writes] by (simp add: accepted_msgs_def)

text \<open>C10: The asynchronous writer refines a lossy queue: every run, whatever the interleaving, is a run
  of the queue with the same events, which drops only when the buffer is full and closes only
  when everything accepted was delivered.\<close>

theorem AsyncWriter_refines_queue:
  assumes "trace astep (NewAsyncWriter cap) es s"
  shows "trace lq_step (lossy_of (NewAsyncWriter cap)) es (lossy_of s)"
  using async_queue.trace_refines [OF assms] async_inv_new by blast

theorem AsyncWriter_refines_queue_witness:
  "trace lq_step (lossy_of (NewAsyncWriter 1)) [EWrite ''a'' Accepted, EWrite ''b'' Dropped]
     (lossy_of ((NewAsyncWriter 1)\<lparr>ch := [''a''], dropCnt := 1\<rparr>))"
  by (rule AsyncWriter_refines_queue [OF two_writes])

lemma close_is_final:
  "trace astep s fs s' \<Longrightarrow> async_inv s \<Longrightarrow> once s = OnceDone \<Longrightarrow>
     s' = s \<and> accepted_msgs fs = []"
proof (induction rule: trace.induct)
  case trace_nil
  then show ?case by (simp add: accepted_msgs_def)
next
  case (trace_snoc fs t e u)
  then have t: "t = s" "accepted_msgs fs = []" by simp_all
  from trace_snoc.hyps(2) have "u = s \<and> accepted_msgs [e] = []"
    using trace_snoc.prems unfolding t(1)
    by (cases rule: astep.cases)
      (auto simp: async_ops async_inv_def pending_def accepted_msgs_def
        split: if_splits option.splits)
  then show ?case using t by simp
qed

lemma close_finished:
  assumes "trace astep (NewAsyncWriter cap) (es @ ECloseFinish sy # fs) s"
  shows "dest s = accepted_msgs (es @ ECloseFinish sy # fs) \<and> pending s = [] \<and>
    accepted_msgs fs = [] \<and> dest_syncs s = (if sy then 1 else 0)"
proof -
  obtain t where t: "trace astep (NewAsyncWriter cap) es t" "trace astep t (ECloseFinish sy # fs) s"
    using trace_split [OF assms] by blast
  obtain u where u: "astep t (ECloseFinish sy) u" "trace astep u fs s"
    using t(2) by (rule trace_Cons)
  have inv: "async_inv t" by (rule new_accounting(4) [OF t(1)])
  with u(1) have fin: "once u = OnceDone" "async_inv u" "pending u = []"
      "dest_syncs u = (if sy then 1 else 0)"
    using async_inv_step [OF u(1) inv]
    by (auto simp: astep_simps close_finish_def async_inv_def pending_def split: if_splits)
  have "s = u" "accepted_msgs fs = []" using close_is_final [OF u(2) fin(2,1)] by simp_all
  then show ?thesis using fin new_accounting(1) [OF assms] by simp
qed

text \<open>When the first \<open>Close\<close> returns, everything that was ever accepted has been written to the
  destination, which was synced exactly once if it can be; after that nothing changes any more,
  however often \<open>Write\<close> and \<open>Close\<close> are called.\<close>

theorem AsyncWriter_close_flushes:
  assumes "trace astep (NewAsyncWriter cap) (es @ ECloseFinish sy # fs) s"
  shows "dest s = accepted_msgs (es @ ECloseFinish sy # fs) \<and> pending s = [] \<and>
    accepted_msgs fs = [] \<and> dest_syncs s = (if sy then 1 else 0)"
  by (rule close_finished [OF assms])

text \<open>After \<open>Close\<close> has started, a \<open>Write\<close> returns zero bytes and no error and leaves the writer
  as it was: the documented \<open>ErrWriterClosed\<close> is never returned, by no \<open>Write\<close> in any state.\<close>

theorem AsyncWriter_never_ErrWriterClosed:
  "snd (fst (snd (async_Write p s))) = None \<and>
   (ch_closed s \<longrightarrow> async_Write p s = (Recovered, (0, None), s))"
  by (simp add: async_Write_def)

theorem AsyncWriter_never_ErrWriterClosed_witness:
  "async_Write ''x'' ((NewAsyncWriter 1)\<lparr>ch_closed := True\<rparr>) =
     (Recovered, (0, None), (NewAsyncWriter 1)\<lparr>ch_closed := True\<rparr>)"
  using AsyncWriter_never_ErrWriterClosed [of "''x''" "(NewAsyncWriter 1)\<lparr>ch_closed := True\<rparr>"]
  by simp

section \<open>Closing terminates\<close>

text \<open>The steps that are left once the channel is closed.\<close>

definition close_work :: "async_writer \<Rightarrow> nat" where
  "close_work s =
     2 * length (ch s) + (case holding s of None \<Rightarrow> 0 | Some _ \<Rightarrow> 1)
     + (if drain_done s then 0 else 1) + (if once s = OnceDone then 0 else 1)"

lemma closing_step:
  assumes "astep s e s'" and "async_inv s" and "ch_closed s"
  shows "s' = s \<or> close_work s' < close_work s \<and> ch_closed s'"
  using assms
proof (induction rule: astep.induct)
  case (receive s s')
  then show ?case
    by (auto simp: drain_receive_def close_work_def split: if_splits option.splits list.splits)
next
  case (deliver s s')
  then show ?case by (auto simp: drain_write_def close_work_def split: option.splits)
next
  case (leave s s')
  then show ?case by (auto simp: drain_exit_def close_work_def split: if_splits)
next
  case (start s s')
  then show ?case by (auto simp: close_start_def async_inv_def split: if_splits)
next
  case (finish sy s s')
  then show ?case by (auto simp: close_finish_def close_work_def split: if_splits)
qed (auto simp: async_Write_def close_again_def split: if_splits)

lemma closing_enabled:
  assumes "async_inv s" and "once s = OnceRunning"
  shows "\<exists>e s'. e \<in> {EReceive, EDeliver, EExit, ECloseFinish sy} \<and> astep s e s' \<and>
    close_work s' < close_work s \<and> once s' \<noteq> OnceNew"
proof (cases "drain_done s")
  case True
  then have "astep s (ECloseFinish sy) (the (close_finish sy s))"
    using assms by (simp add: astep_simps close_finish_def)
  then show ?thesis
    using assms True by (intro exI conjI) (auto simp: close_finish_def close_work_def)
next
  case False
  show ?thesis
  proof (cases "holding s")
    case (Some m)
    then have "astep s EDeliver (the (drain_write s))" by (simp add: astep_simps drain_write_def)
    then show ?thesis
      using assms Some by (intro exI conjI) (auto simp: drain_write_def close_work_def)
  next
    case None
    show ?thesis
    proof (cases "ch s")
      case Nil
      then have "astep s EExit (the (drain_exit s))"
        using None False assms by (simp add: astep_simps drain_exit_def async_inv_def)
      then show ?thesis
        using None Nil False assms
        by (intro exI conjI) (auto simp: drain_exit_def close_work_def async_inv_def)
    next
      case (Cons m r)
      then have "astep s EReceive (the (drain_receive s))"
        using None False by (simp add: astep_simps drain_receive_def)
      then show ?thesis
        using None Cons False assms by (intro exI conjI) (auto simp: drain_receive_def close_work_def)
    qed
  qed
qed

lemma closing_completes:
  assumes "async_inv s" and "once s \<noteq> OnceNew"
  shows "\<exists>fs s'. trace astep s fs s' \<and> once s' = OnceDone \<and> length fs \<le> close_work s \<and>
    set fs \<subseteq> {EReceive, EDeliver, EExit, ECloseFinish sy}"
  using assms
proof (induction "close_work s" arbitrary: s rule: less_induct)
  case less
  show ?case
  proof (cases "once s = OnceDone")
    case True
    then show ?thesis by (intro exI [of _ "[]"] exI [of _ s]) simp
  next
    case False
    with less.prems have "once s = OnceRunning" by (cases "once s") simp_all
    then obtain e t where e: "e \<in> {EReceive, EDeliver, EExit, ECloseFinish sy}" "astep s e t"
        "close_work t < close_work s" "once t \<noteq> OnceNew"
      using closing_enabled [OF less.prems(1), of sy] by blast
    then obtain fs s' where fs: "trace astep t fs s'" "once s' = OnceDone" "length fs \<le> close_work t"
        "set fs \<subseteq> {EReceive, EDeliver, EExit, ECloseFinish sy}"
      using less.hyps [OF e(3) async_inv_step [OF e(2) less.prems(1)] e(4)] by blast
    have "trace astep s ([] @ [e]) t" using e(2) by (intro trace_snoc) simp
    then have "trace astep s (e # fs) s'" using trace_append [OF fs(1), of s "[e]"] by simp
    then show ?thesis using fs e by (intro exI [of _ "e # fs"] exI [of _ s']) auto
  qed
qed

text \<open>C35: \<open>Close\<close> always returns: once it has started, every step of any goroutine that changes the
  state decreases a measure of at most twice the buffer size plus a constant (concurrent writes change nothing),
  and the goroutine and the closer can always finish by themselves, in that many steps.\<close>

theorem AsyncWriter_close_terminates:
  assumes "trace astep (NewAsyncWriter cap) es s" and "ch_closed s"
  shows "(\<forall>e s'. astep s e s' \<longrightarrow> s' = s \<or> close_work s' < close_work s) \<and>
    (\<exists>fs s'. trace astep s fs s' \<and> once s' = OnceDone \<and>
       length fs \<le> 2 * nat (if cap \<le> 0 then 4096 else cap) + 3 \<and>
       set fs \<subseteq> {EReceive, EDeliver, EExit, ECloseFinish sy})"
proof -
  note inv = new_accounting(3,4) [OF assms(1)]
  then have "close_work s \<le> 2 * nat (if cap \<le> 0 then 4096 else cap) + 3"
    by (auto simp: async_inv_def close_work_def split: option.split)
  moreover have "once s \<noteq> OnceNew" using inv(2) assms(2) by (simp add: async_inv_def)
  ultimately show ?thesis
    using closing_completes [OF inv(2), of sy] closing_step [OF _ inv(2) assms(2)]
    by (meson order_trans)
qed

lemma closed_at_once:
  "trace astep (NewAsyncWriter 1) [ECloseStart]
     ((NewAsyncWriter 1)\<lparr>once := OnceRunning, ch_closed := True\<rparr>)"
proof -
  have "astep (NewAsyncWriter 1) ECloseStart ((NewAsyncWriter 1)\<lparr>once := OnceRunning, ch_closed := True\<rparr>)"
    by (rule astep.start) (simp add: close_start_def NewAsyncWriter_def)
  then show ?thesis using trace_snoc [of astep _ "[]", OF trace_nil] by simp
qed

theorem AsyncWriter_close_terminates_witness:
  "\<exists>fs s'. trace astep ((NewAsyncWriter 1)\<lparr>once := OnceRunning, ch_closed := True\<rparr>) fs s' \<and>
     once s' = OnceDone"
  using AsyncWriter_close_terminates [OF closed_at_once, of True] by auto

lemma closed_run:
  "trace astep (NewAsyncWriter 1) ([EWrite ''a'' Accepted, EReceive, EDeliver, ECloseStart, EExit] @ ECloseFinish True # [])
     ((NewAsyncWriter 1)\<lparr>ch_closed := True, drain_done := True, once := OnceDone, dest := [''a''], dest_syncs := 1\<rparr>)"
proof -
  define w where "w = NewAsyncWriter 1"
  note simps = w_def NewAsyncWriter_def async_ops
  have "astep w (EWrite ''a'' Accepted) (w\<lparr>ch := [''a'']\<rparr>)"
    by (rule astep.enqueue) (simp add: simps)
  moreover have "astep (w\<lparr>ch := [''a'']\<rparr>) EReceive (w\<lparr>holding := Some ''a''\<rparr>)"
    by (rule astep.receive) (simp add: simps)
  moreover have "astep (w\<lparr>holding := Some ''a''\<rparr>) EDeliver (w\<lparr>dest := [''a'']\<rparr>)"
    by (rule astep.deliver) (simp add: simps)
  moreover have "astep (w\<lparr>dest := [''a'']\<rparr>) ECloseStart
      (w\<lparr>dest := [''a''], once := OnceRunning, ch_closed := True\<rparr>)"
    by (rule astep.start) (simp add: simps)
  moreover have "astep (w\<lparr>dest := [''a''], once := OnceRunning, ch_closed := True\<rparr>) EExit
      (w\<lparr>dest := [''a''], once := OnceRunning, ch_closed := True, drain_done := True\<rparr>)"
    by (rule astep.leave) (simp add: simps)
  moreover have "astep (w\<lparr>dest := [''a''], once := OnceRunning, ch_closed := True, drain_done := True\<rparr>)
      (ECloseFinish True)
      (w\<lparr>ch_closed := True, drain_done := True, once := OnceDone, dest := [''a''], dest_syncs := 1\<rparr>)"
    by (rule astep.finish) (simp add: simps)
  ultimately have "trace astep w (((((([] @ [EWrite ''a'' Accepted]) @ [EReceive]) @ [EDeliver]) @ [ECloseStart]) @ [EExit]) @ [ECloseFinish True])
      (w\<lparr>ch_closed := True, drain_done := True, once := OnceDone, dest := [''a''], dest_syncs := 1\<rparr>)"
    by (meson trace.intros)
  then show ?thesis by (simp add: w_def)
qed

theorem AsyncWriter_close_flushes_witness:
  "dest ((NewAsyncWriter 1)\<lparr>ch_closed := True, drain_done := True, once := OnceDone, dest := [''a''], dest_syncs := 1\<rparr>) = [''a''] \<and>
   accepted_msgs ([EWrite ''a'' Accepted, EReceive, EDeliver, ECloseStart, EExit] @ ECloseFinish True # []) = [''a'']"
  using AsyncWriter_close_flushes [OF closed_run] by (simp add: accepted_msgs_def)

section \<open>Close as one call\<close>

text \<open>
  \<open>Close\<close> when nobody else uses the writer: in the first call the goroutine writes what is pending, then the
  destination is synced; later calls do nothing. It is the end of a run of the transition system.
\<close>

definition Close_call :: "bool \<Rightarrow> async_writer \<Rightarrow> async_writer" where
  "Close_call dest_is_syncer s =
     (if once s = OnceNew
      then s\<lparr>ch := [], holding := None, ch_closed := True, drain_done := True, once := OnceDone,
        dest := dest s @ pending s, dest_syncs := dest_syncs s + (if dest_is_syncer then 1 else 0)\<rparr>
      else s)"

definition async_Sync :: "bool \<Rightarrow> async_writer \<Rightarrow> async_writer" where
  "async_Sync dest_is_syncer s = Close_call dest_is_syncer s"

lemma closing_trace_fields:
  assumes "trace astep s fs s'" and "set fs \<subseteq> {EReceive, EDeliver, EExit, ECloseFinish sy}"
    and "once s = OnceRunning"
  shows "accepted_msgs fs = [] \<and> dropped_count fs = 0 \<and> (ch_closed s' \<longleftrightarrow> ch_closed s) \<and>
    (if once s' = OnceDone then dest_syncs s' = dest_syncs s + (if sy then 1 else 0)
     else once s' = OnceRunning \<and> dest_syncs s' = dest_syncs s)"
  using assms
proof (induction rule: trace.induct)
  case trace_nil
  then show ?case by (simp add: accepted_msgs_def dropped_count_def)
next
  case (trace_snoc fs t e u)
  then have e: "e \<in> {EReceive, EDeliver, EExit, ECloseFinish sy}" by simp
  have "accepted_msgs [e] = [] \<and> dropped_count [e] = 0"
    using e by (auto simp: accepted_msgs_def dropped_count_def)
  moreover have "(ch_closed u \<longleftrightarrow> ch_closed t) \<and>
      (once u = once t \<and> dest_syncs u = dest_syncs t \<or>
       once t = OnceRunning \<and> once u = OnceDone \<and> dest_syncs u = dest_syncs t + (if sy then 1 else 0))"
    using e trace_snoc.hyps(2)
    by (auto simp: astep_simps drain_receive_def drain_write_def drain_exit_def close_finish_def
        split: if_splits option.splits list.splits)
  ultimately show ?case using trace_snoc by (auto split: if_splits)
qed

lemma Close_call_reachable:
  assumes "async_inv s" and "once s \<noteq> OnceRunning"
  shows "\<exists>es. trace astep s es (Close_call sy s)"
proof (cases "once s = OnceNew")
  case new: True
  define t where "t = s\<lparr>once := OnceRunning, ch_closed := True\<rparr>"
  have start: "astep s ECloseStart t"
    using new by (simp add: astep_simps close_start_def t_def)
  have inv: "async_inv t" by (rule async_inv_step [OF start assms(1)])
  have running: "once t = OnceRunning" by (simp add: t_def)
  then obtain fs u where u: "trace astep t fs u" "once u = OnceDone"
      "set fs \<subseteq> {EReceive, EDeliver, EExit, ECloseFinish sy}"
    using closing_completes [OF inv, of sy] by auto
  have fields: "accepted_msgs fs = []" "dropped_count fs = 0" "ch_closed u"
      "dest_syncs u = dest_syncs s + (if sy then 1 else 0)"
    using closing_trace_fields [OF u(1,3) running] u(2) by (simp_all add: t_def)
  have "async_inv u" by (rule async_queue.trace_inv [OF u(1) inv])
  then have empty: "pending u = []" "drain_done u" using u(2) by (auto simp: async_inv_def)
  have "dest u @ pending u = dest s @ pending s" "dropCnt u = dropCnt s" "capacity u = capacity s"
    using trace_accounting [OF u(1)] fields by (simp_all add: t_def pending_def)
  then have "u = Close_call sy s"
    using empty fields u(2) new by (auto simp: Close_call_def pending_def split: option.splits)
  moreover have "trace astep s ([ECloseStart] @ fs) u"
    using trace_append [OF u(1), of s "[ECloseStart]"] trace_snoc [of astep s "[]", OF trace_nil start]
    by simp
  ultimately show ?thesis by blast
qed (auto simp: Close_call_def intro: trace.intros)

end
