(* ===== verification/LogEncode.thy ===== *)
theory LogEncode
  imports GoValues
begin

text \<open>
  \<open>encode.go\<close>: the hand-written JSON encoder. Every function appends to a buffer \<open>dst\<close>, as in the
  source; the map of an entry is visited in the order of its sorted keys.
\<close>

named_theorems enc_simps
  \<comment> \<open>what each encoder appends, without its buffer\<close>

definition hexDigit :: "nat \<Rightarrow> char" where
  "hexDigit b = ''0123456789abcdef'' ! (b mod 16)"

text \<open>
  The loop of \<open>appendJSONString\<close> over the rest \<open>s[i:]\<close> of the string: what it appends for one
  step, and the whole loop.
\<close>

definition escape_ascii :: "char \<Rightarrow> string" where
  "escape_ascii b =
     (if b = quote_ch then [backslash, quote_ch]
      else if b = backslash then [backslash, backslash]
      else if b = newline then [backslash, CHR ''n'']
      else if b = carriage then [backslash, CHR ''r'']
      else if b = tabulator then [backslash, CHR ''t'']
      else if bval b < 0x20 then
        [backslash, CHR ''u'', CHR ''0'', CHR ''0'',
         hexDigit (bval b div 16), hexDigit (bval b mod 16)]
      else [b])"

function escape_loop :: "string \<Rightarrow> string" where
  "escape_loop [] = []"
| "escape_loop (b # s) =
     (if bval b < 0x80 then escape_ascii b @ escape_loop s
      else (let (r, size) = decode_rune (b # s)
            in (if r = rune_error \<and> size = 1
                then [backslash, CHR ''u'', CHR ''f'', CHR ''f'', CHR ''f'', CHR ''d'']
                else take size (b # s))
               @ escape_loop (drop size (b # s))))"
  by pat_completeness auto
termination
proof (relation "measure length", goal_cases)
  case 1
  then show ?case by simp
next
  case (2 b s)
  then show ?case by simp
next
  case (3 b s x r size)
  then have "size = snd (decode_rune (b # s))" by (metis snd_conv)
  then show ?case using decode_rune_width(1) [of "b # s"] by simp
qed

definition appendJSONString :: "string \<Rightarrow> string \<Rightarrow> string" where
  "appendJSONString dst s = (dst @ [quote_ch]) @ escape_loop s @ [quote_ch]"

definition appendJSONFloat :: "string \<Rightarrow> 64 word \<Rightarrow> string" where
  "appendJSONFloat dst f =
     (if is_NaN f \<or> is_Inf f then appendJSONString dst (format_float_f f)
      else dst @ format_float_f f)"

fun append_strings :: "nat \<Rightarrow> string \<Rightarrow> string list \<Rightarrow> string" where
  "append_strings i dst [] = dst"
| "append_strings i dst (s # r) =
     append_strings (Suc i) (appendJSONString (if 0 < i then dst @ '','' else dst) s) r"

fun appendJSONValue :: "string \<Rightarrow> gval \<Rightarrow> string"
  and appendJSONEntry :: "string \<Rightarrow> (string \<times> gval) list \<Rightarrow> string"
  and append_members :: "nat \<Rightarrow> string \<Rightarrow> (string \<times> gval) list \<Rightarrow> string"
  and append_elems :: "nat \<Rightarrow> string \<Rightarrow> gval list \<Rightarrow> string" where
  "appendJSONValue dst VNil = dst @ ''null''"
| "appendJSONValue dst (VString s) = appendJSONString dst s"
| "appendJSONValue dst (VBool b) = dst @ (if b then ''true'' else ''false'')"
| "appendJSONValue dst (VInt w) = dst @ show_int (sint w)"
| "appendJSONValue dst (VInt8 w) = dst @ show_int (sint w)"
| "appendJSONValue dst (VInt16 w) = dst @ show_int (sint w)"
| "appendJSONValue dst (VInt32 w) = dst @ show_int (sint w)"
| "appendJSONValue dst (VInt64 w) = dst @ show_int (sint w)"
| "appendJSONValue dst (VUint w) = dst @ show_nat (unat w)"
| "appendJSONValue dst (VUint8 w) = dst @ show_nat (unat w)"
| "appendJSONValue dst (VUint16 w) = dst @ show_nat (unat w)"
| "appendJSONValue dst (VUint32 w) = dst @ show_nat (unat w)"
| "appendJSONValue dst (VUint64 w) = dst @ show_nat (unat w)"
| "appendJSONValue dst (VFloat32 x) = appendJSONFloat dst (widen_float x)"
| "appendJSONValue dst (VFloat64 x) = appendJSONFloat dst x"
| "appendJSONValue dst (VError e) = appendJSONString dst (err_Error e)"
| "appendJSONValue dst (VDuration d) = appendJSONString dst (duration_String d)"
| "appendJSONValue dst (VNumber n) = dst @ n"
| "appendJSONValue dst (VMap m) = appendJSONEntry dst m"
| "appendJSONValue dst (VStrings xs) = append_strings 0 (dst @ ''['') xs @ '']''"
| "appendJSONValue dst (VList vs) = append_elems 0 (dst @ ''['') vs @ '']''"
| "appendJSONValue dst (VLogValuer p v) =
     (case op_marshal p of None \<Rightarrow> appendJSONString dst (op_show p) | Some b \<Rightarrow> dst @ b)"
| "appendJSONValue dst (VOther p) =
     (case op_marshal p of None \<Rightarrow> appendJSONString dst (op_show p) | Some b \<Rightarrow> dst @ b)"
| "appendJSONEntry dst m = append_members 0 (dst @ ''{'') (sort_key fst m) @ ''}''"
| "append_members i dst [] = dst"
| "append_members i dst ((k, v) # r) =
     append_members (Suc i)
       (appendJSONValue (appendJSONString (if 0 < i then dst @ '','' else dst) k @ '':'') v) r"
| "append_elems i dst [] = dst"
| "append_elems i dst (v # r) =
     append_elems (Suc i) (appendJSONValue (if 0 < i then dst @ '','' else dst) v) r"

section \<open>What each function appends\<close>

definition json_string :: "string \<Rightarrow> string" where
  "json_string s = quote_ch # escape_loop s @ [quote_ch]"

lemma appendJSONString_eq [enc_simps]: "appendJSONString dst s = dst @ json_string s"
  by (simp add: appendJSONString_def json_string_def)

definition json_float :: "64 word \<Rightarrow> string" where
  "json_float f = (if is_NaN f \<or> is_Inf f then json_string (format_float_f f) else format_float_f f)"

lemma appendJSONFloat_eq [enc_simps]: "appendJSONFloat dst f = dst @ json_float f"
  by (simp add: appendJSONFloat_def json_float_def enc_simps)

fun commas :: "nat \<Rightarrow> string list \<Rightarrow> string" where
  "commas i [] = []"
| "commas i (x # r) = (if 0 < i then '','' else []) @ x @ commas (Suc i) r"

fun json_value :: "gval \<Rightarrow> string" where
  "json_value VNil = ''null''"
| "json_value (VString s) = json_string s"
| "json_value (VBool b) = (if b then ''true'' else ''false'')"
| "json_value (VInt w) = show_int (sint w)"
| "json_value (VInt8 w) = show_int (sint w)"
| "json_value (VInt16 w) = show_int (sint w)"
| "json_value (VInt32 w) = show_int (sint w)"
| "json_value (VInt64 w) = show_int (sint w)"
| "json_value (VUint w) = show_nat (unat w)"
| "json_value (VUint8 w) = show_nat (unat w)"
| "json_value (VUint16 w) = show_nat (unat w)"
| "json_value (VUint32 w) = show_nat (unat w)"
| "json_value (VUint64 w) = show_nat (unat w)"
| "json_value (VFloat32 x) = json_float (widen_float x)"
| "json_value (VFloat64 x) = json_float x"
| "json_value (VError e) = json_string (err_Error e)"
| "json_value (VDuration d) = json_string (duration_String d)"
| "json_value (VNumber n) = n"
| "json_value (VMap m) =
     ''{'' @ commas 0 (map (\<lambda>(k, v). json_string k @ '':'' @ json_value v) (sort_key fst m)) @ ''}''"
| "json_value (VStrings xs) = ''['' @ commas 0 (map json_string xs) @ '']''"
| "json_value (VList vs) = ''['' @ commas 0 (map json_value vs) @ '']''"
| "json_value (VLogValuer p v) =
     (case op_marshal p of None \<Rightarrow> json_string (op_show p) | Some b \<Rightarrow> b)"
| "json_value (VOther p) =
     (case op_marshal p of None \<Rightarrow> json_string (op_show p) | Some b \<Rightarrow> b)"

definition json_members :: "(string \<times> gval) list \<Rightarrow> string list" where
  "json_members ps = map (\<lambda>(k, v). json_string k @ '':'' @ json_value v) ps"

definition json_entry :: "(string \<times> gval) list \<Rightarrow> string" where
  "json_entry m = ''{'' @ commas 0 (json_members (sort_key fst m)) @ ''}''"

lemma json_value_map [enc_simps]: "json_value (VMap m) = json_entry m"
  by (simp add: json_entry_def json_members_def)

lemma append_strings_eq: "append_strings i dst xs = dst @ commas i (map json_string xs)"
  by (induction i dst xs rule: append_strings.induct) (simp_all add: enc_simps)

lemma append_eqs:
  "appendJSONValue dst v = dst @ json_value v"
  "appendJSONEntry dst m = dst @ json_entry m"
  "append_members i dst ps = dst @ commas i (json_members ps)"
  "append_elems i dst vs = dst @ commas i (map json_value vs)"
proof (induction dst v and dst m and i dst ps and i dst vs
    rule: appendJSONValue_appendJSONEntry_append_members_append_elems.induct)
qed (simp_all add: enc_simps append_strings_eq json_members_def json_entry_def split: option.split)

lemmas append_simps = append_strings_eq append_eqs

declare appendJSONEntry.simps [simp del]

end
