(* ===== verification/JsonText.thy ===== *)
theory JsonText
  imports GoStrings
begin

text \<open>
  A reader of JSON texts (RFC 8259), the specification that the encoder of \<open>encode.go\<close> is
  measured against: what \<open>encoding/json\<close> makes of a text. Strings are decoded to bytes, with
  U+FFFD for invalid UTF-8 and unpaired surrogates as \<open>encoding/json\<close> does; numbers keep their
  text; objects keep their members in order.
\<close>

datatype json =
    JNull
  | JBool bool
  | JNum string
  | JStr string
  | JArr "json list"
  | JObj "(string \<times> json) list"

section \<open>Strings\<close>

definition hex_val :: "char \<Rightarrow> nat option" where
  "hex_val c =
     (let b = bval c in
      if 48 \<le> b \<and> b \<le> 57 then Some (b - 48)
      else if 97 \<le> b \<and> b \<le> 102 then Some (b - 87)
      else if 65 \<le> b \<and> b \<le> 70 then Some (b - 55)
      else None)"

definition hex4 :: "string \<Rightarrow> (nat \<times> string) option" where
  "hex4 s =
     (case s of
        a # b # c # d # r \<Rightarrow>
          (case (hex_val a, hex_val b, hex_val c, hex_val d) of
             (Some w, Some x, Some y, Some z) \<Rightarrow> Some (w * 4096 + x * 256 + y * 16 + z, r)
           | _ \<Rightarrow> None)
      | _ \<Rightarrow> None)"

definition simple_escape :: "char \<Rightarrow> char option" where
  "simple_escape e =
     (if e = quote_ch \<or> e = backslash \<or> e = CHR ''/'' then Some e
      else if e = CHR ''b'' then Some (CHR 0x08)
      else if e = CHR ''f'' then Some (CHR 0x0C)
      else if e = CHR ''n'' then Some newline
      else if e = CHR ''r'' then Some carriage
      else if e = CHR ''t'' then Some tabulator
      else None)"

text \<open>\<open>unicode_escape r\<close>: the bytes of an escape whose text after the backslash is \<open>u # r\<close>.\<close>

definition unicode_escape :: "string \<Rightarrow> (string \<times> string) option" where
  "unicode_escape s =
     (case hex4 s of
        None \<Rightarrow> None
      | Some (u, r) \<Rightarrow>
          if 0xD800 \<le> u \<and> u < 0xDC00 then
            (case r of
               b # e # r' \<Rightarrow>
                 (if b = backslash \<and> e = CHR ''u'' then
                    (case hex4 r' of
                       Some (l, r'') \<Rightarrow>
                         if 0xDC00 \<le> l \<and> l < 0xE000
                         then Some (encode_rune (0x10000 + (u - 0xD800) * 1024 + (l - 0xDC00)), r'')
                         else Some (encode_rune rune_error, r)
                     | None \<Rightarrow> Some (encode_rune rune_error, r))
                  else Some (encode_rune rune_error, r))
             | _ \<Rightarrow> Some (encode_rune rune_error, r))
          else Some (encode_rune u, r))"

lemma hex4_length: "hex4 s = Some (u, r) \<Longrightarrow> length r < length s"
  by (auto simp: hex4_def split: list.splits option.splits)

lemma unicode_escape_length: "unicode_escape s = Some (x, r) \<Longrightarrow> length r < length s"
  by (fastforce simp: unicode_escape_def dest: hex4_length split: option.splits list.splits if_splits)

text \<open>The rest of a string after its opening quote: the decoded bytes and what follows it.\<close>

function read_str :: "string \<Rightarrow> (string \<times> string) option" where
  "read_str [] = None"
| "read_str (c # r) =
     (if c = quote_ch then Some ([], r)
      else if c = backslash then
        (case r of
           [] \<Rightarrow> None
         | e # r' \<Rightarrow>
             if e = CHR ''u'' then
               (case unicode_escape r' of
                  None \<Rightarrow> None
                | Some (x, r'') \<Rightarrow> map_option (\<lambda>(y, t). (x @ y, t)) (read_str r''))
             else
               (case simple_escape e of
                  None \<Rightarrow> None
                | Some x \<Rightarrow> map_option (\<lambda>(y, t). (x # y, t)) (read_str r')))
      else if bval c < 0x20 then None
      else map_option (\<lambda>(y, t). (encode_rune (fst (decode_rune (c # r))) @ y, t))
             (read_str (drop (snd (decode_rune (c # r))) (c # r))))"
  by pat_completeness auto
termination
proof (relation "measure length", goal_cases)
  case 1
  then show ?case by simp
next
  case (2 c r e r' p x r'')
  then show ?case by (auto dest: unicode_escape_length)
next
  case (3 c r e r' x)
  then show ?case by simp
next
  case (4 c r)
  then show ?case using decode_rune_shrinks [of "c # r"] by simp
qed

declare read_str.simps [simp del]

lemma read_str_Nil [simp]: "read_str [] = None"
  by (simp add: read_str.simps)

section \<open>Numbers\<close>

definition number_char :: "char \<Rightarrow> bool" where
  "number_char c \<longleftrightarrow> decimal_digit c \<or> c \<in> {CHR ''-'', CHR ''+'', CHR ''.'', CHR ''e'', CHR ''E''}"

definition number_exp :: "string \<Rightarrow> bool" where
  "number_exp s \<longleftrightarrow>
     (case s of
        [] \<Rightarrow> True
      | c # r \<Rightarrow>
          (c = CHR ''e'' \<or> c = CHR ''E'') \<and>
          (let d = (case r of x # t \<Rightarrow> if x = CHR ''+'' \<or> x = CHR ''-'' then t else r | [] \<Rightarrow> [])
           in d \<noteq> [] \<and> (\<forall>x \<in> set d. decimal_digit x)))"

definition number_frac :: "string \<Rightarrow> bool" where
  "number_frac s \<longleftrightarrow>
     (case s of
        [] \<Rightarrow> True
      | c # r \<Rightarrow>
          if c = CHR ''.'' then takeWhile decimal_digit r \<noteq> [] \<and> number_exp (dropWhile decimal_digit r)
          else number_exp s)"

definition json_number :: "string \<Rightarrow> bool" where
  "json_number s \<longleftrightarrow>
     (case (case s of c # r \<Rightarrow> if c = CHR ''-'' then r else s | [] \<Rightarrow> []) of
        [] \<Rightarrow> False
      | d # r \<Rightarrow>
          if d = CHR ''0'' then number_frac r
          else decimal_digit d \<and> number_frac (dropWhile decimal_digit r))"

section \<open>Values\<close>

definition is_space :: "char \<Rightarrow> bool" where
  "is_space c \<longleftrightarrow> c \<in> {CHR '' '', tabulator, newline, carriage}"

definition skip_ws :: "string \<Rightarrow> string" where
  "skip_ws s = dropWhile is_space s"

definition read_number :: "string \<Rightarrow> (json \<times> string) option" where
  "read_number s =
     (let n = takeWhile number_char s
      in if json_number n then Some (JNum n, dropWhile number_char s) else None)"

definition read_literal :: "string \<Rightarrow> json \<Rightarrow> string \<Rightarrow> (json \<times> string) option" where
  "read_literal w j s = (if take (length w) s = w then Some (j, drop (length w) s) else None)"

text \<open>The reader; the first argument is fuel, of which the length of the text plus one is enough.\<close>

fun read_value :: "nat \<Rightarrow> string \<Rightarrow> (json \<times> string) option"
  and read_members :: "nat \<Rightarrow> string \<Rightarrow> ((string \<times> json) list \<times> string) option"
  and read_elems :: "nat \<Rightarrow> string \<Rightarrow> (json list \<times> string) option" where
  "read_value 0 s = None"
| "read_value (Suc f) s =
     (case skip_ws s of
        [] \<Rightarrow> None
      | c # r \<Rightarrow>
          if c = CHR ''{'' then
            (case skip_ws r of
               [] \<Rightarrow> None
             | x # t \<Rightarrow>
                 if x = CHR ''}'' then Some (JObj [], t)
                 else map_option (\<lambda>(ms, t'). (JObj ms, t')) (read_members f (x # t)))
          else if c = CHR ''['' then
            (case skip_ws r of
               [] \<Rightarrow> None
             | x # t \<Rightarrow>
                 if x = CHR '']'' then Some (JArr [], t)
                 else map_option (\<lambda>(vs, t'). (JArr vs, t')) (read_elems f (x # t)))
          else if c = quote_ch then map_option (\<lambda>(x, t). (JStr x, t)) (read_str r)
          else if c = CHR ''n'' then read_literal ''null'' JNull (c # r)
          else if c = CHR ''t'' then read_literal ''true'' (JBool True) (c # r)
          else if c = CHR ''f'' then read_literal ''false'' (JBool False) (c # r)
          else read_number (c # r))"
| "read_members 0 s = None"
| "read_members (Suc f) s =
     (case skip_ws s of
        [] \<Rightarrow> None
      | q # r \<Rightarrow>
          if q \<noteq> quote_ch then None
          else (case read_str r of
             None \<Rightarrow> None
           | Some (k, r1) \<Rightarrow>
               (case skip_ws r1 of
                  [] \<Rightarrow> None
                | c # r2 \<Rightarrow>
                    if c \<noteq> CHR '':'' then None
                    else (case read_value f r2 of
                       None \<Rightarrow> None
                     | Some (v, r3) \<Rightarrow>
                         (case skip_ws r3 of
                            [] \<Rightarrow> None
                          | d # r4 \<Rightarrow>
                              if d = CHR '','' then
                                map_option (\<lambda>(ms, t). ((k, v) # ms, t)) (read_members f r4)
                              else if d = CHR ''}'' then Some ([(k, v)], r4)
                              else None)))))"
| "read_elems 0 s = None"
| "read_elems (Suc f) s =
     (case read_value f s of
        None \<Rightarrow> None
      | Some (v, r) \<Rightarrow>
          (case skip_ws r of
             [] \<Rightarrow> None
           | d # r' \<Rightarrow>
               if d = CHR '','' then map_option (\<lambda>(vs, t). (v # vs, t)) (read_elems f r')
               else if d = CHR '']'' then Some ([v], r')
               else None))"

definition read_json :: "string \<Rightarrow> json option" where
  "read_json s =
     (case read_value (Suc (length s)) s of
        Some (j, r) \<Rightarrow> if skip_ws r = [] then Some j else None
      | None \<Rightarrow> None)"

lemma skip_ws_Cons [simp]: "skip_ws (c # s) = (if is_space c then skip_ws s else c # s)"
  by (simp add: skip_ws_def)

lemma skip_ws_Nil [simp]: "skip_ws [] = []"
  by (simp add: skip_ws_def)

lemma is_space_simps [simp]:
  "\<not> is_space quote_ch" "\<not> is_space (CHR ''{'')" "\<not> is_space (CHR ''}'')" "\<not> is_space (CHR ''['')"
  "\<not> is_space (CHR '']'')" "\<not> is_space (CHR '':'')" "\<not> is_space (CHR '','')" "is_space newline"
  by (simp_all add: is_space_def)

text \<open>Leading white space makes no difference to a value or to the elements of an array.\<close>

lemma skip_ws_idem [simp]: "skip_ws (skip_ws s) = skip_ws s"
  by (simp add: skip_ws_def)

lemma read_value_skip_ws: "read_value f (skip_ws s) = read_value f s"
  by (cases f) simp_all

lemma read_elems_skip_ws: "read_elems f (skip_ws s) = read_elems f s"
  by (cases f) (simp_all add: read_value_skip_ws)

lemmas read_steps = read_value.simps(2) read_members.simps(2) read_elems.simps(2)

declare read_steps [simp del]

end
