(* ===== verification/EncodeCorrect.thy ===== *)
theory EncodeCorrect
  imports LogEncode JsonText
begin

text \<open>
  What the JSON encoder of \<open>encode.go\<close> guarantees: its output is a JSON text on one line, and
  reading it back gives the value that was encoded, with each invalid UTF-8 byte replaced by
  U+FFFD.
\<close>

section \<open>Strings\<close>

text \<open>A string with every invalid byte replaced by the encoding of U+FFFD.\<close>

definition to_valid :: "string \<Rightarrow> string" where
  "to_valid s = concat (map (\<lambda>(r, n). encode_rune r) (runes s))"

definition valid_utf8 :: "string \<Rightarrow> bool" where
  "valid_utf8 s \<longleftrightarrow> (rune_error, 1) \<notin> set (runes s)"

lemma to_valid_Nil [simp]: "to_valid [] = []"
  by (simp add: to_valid_def)

lemma to_valid_step:
  "s \<noteq> [] \<Longrightarrow>
   to_valid s = encode_rune (fst (decode_rune s)) @ to_valid (drop (snd (decode_rune s)) s)"
  by (simp add: to_valid_def runes.simps [of s] split_def)

lemma to_valid_ascii [simp]: "bval c < 0x80 \<Longrightarrow> to_valid (c # s) = c # to_valid s"
  by (simp add: to_valid_step [of "c # s"] encode_rune_def)

lemma valid_utf8_step:
  "s \<noteq> [] \<Longrightarrow> valid_utf8 s \<longleftrightarrow>
     decode_rune s \<noteq> (rune_error, 1) \<and> valid_utf8 (drop (snd (decode_rune s)) s)"
  by (auto simp: valid_utf8_def runes.simps [of s])

lemma valid_utf8_Nil [simp]: "valid_utf8 []"
  by (simp add: valid_utf8_def)

lemma decode_rune_invalid:
  "0x80 \<le> bval c \<Longrightarrow> snd (decode_rune (c # s)) = 1 \<Longrightarrow> decode_rune (c # s) = (rune_error, 1)"
  by (auto simp: decode_rune_def dest: utf8_lead_width split: option.splits list.splits if_splits)

lemma to_valid_valid: "valid_utf8 s \<Longrightarrow> to_valid s = s"
proof (induction s rule: runes.induct)
  case (1 s)
  show ?case
  proof (cases s)
    case Nil
    then show ?thesis by simp
  next
    case (Cons c r)
    have IH: "to_valid (drop (snd (decode_rune s)) s) = drop (snd (decode_rune s)) s"
      using 1 Cons valid_utf8_step [of s] by simp
    show ?thesis
    proof (cases "bval c < 0x80")
      case True
      with IH Cons show ?thesis by simp
    next
      case False
      then have "snd (decode_rune (c # r)) \<noteq> 1"
        using decode_rune_invalid [of c r] "1.prems" Cons valid_utf8_step [of s] by auto
      with False have "encode_rune (fst (decode_rune s)) = take (snd (decode_rune s)) s"
        using encode_decode_multi [of c r] Cons by simp
      with IH Cons show ?thesis using to_valid_step [of s] by simp
    qed
  qed
qed

lemma hex_val_hexDigit [simp]: "hex_val (hexDigit n) = Some (n mod 16)"
proof -
  have "\<forall>k \<in> set [0..<16]. hex_val (''0123456789abcdef'' ! k) = Some k"
    by code_simp
  then show ?thesis by (simp add: hexDigit_def)
qed

lemma hex_val_0: "hex_val (CHR ''0'') = Some 0"
  by code_simp

lemma read_str_escape_ascii:
  assumes "bval b < 0x80" and "read_str t = Some (y, r)"
  shows "read_str (escape_ascii b @ t) = Some (b # y, r)"
proof -
  consider "b \<in> {quote_ch, backslash, newline, carriage, tabulator}"
    | "b \<notin> {quote_ch, backslash, newline, carriage, tabulator}" "bval b < 0x20"
    | "b \<notin> {quote_ch, backslash, newline, carriage, tabulator}" "\<not> bval b < 0x20"
    by blast
  then show ?thesis
  proof cases
    case 1
    then show ?thesis
      using assms(2) by (auto simp: escape_ascii_def read_str.simps simple_escape_def)
  next
    case 2
    have "hex4 (CHR ''0'' # CHR ''0'' # hexDigit (bval b div 16) # hexDigit (bval b mod 16) # t) =
        Some (bval b, t)"
      using 2(2) hex_val_0 by (simp add: hex4_def)
    then show ?thesis
      using assms 2
      by (simp add: escape_ascii_def read_str.simps unicode_escape_def encode_rune_def)
  next
    case 3
    then show ?thesis
      using assms by (simp add: escape_ascii_def read_str.simps(2) [of b t] encode_rune_def)
  qed
qed

lemma read_str_escape_loop:
  "read_str (escape_loop s @ quote_ch # rest) = Some (to_valid s, rest)"
proof (induction s rule: escape_loop.induct)
  case 1
  then show ?case by (simp add: read_str.simps)
next
  case (2 b s)
  let ?t = "escape_loop (drop (snd (decode_rune (b # s))) (b # s)) @ quote_ch # rest"
  show ?case
  proof (cases "bval b < 0x80")
    case True
    then show ?thesis using "2.IH"(1) by (simp add: read_str_escape_ascii)
  next
    case False
    have t: "read_str ?t = Some (to_valid (drop (snd (decode_rune (b # s))) (b # s)), rest)"
      using "2.IH"(2) [OF False] by (metis prod.collapse)
    have esc: "b \<noteq> quote_ch" "b \<noteq> backslash" using False by auto
    show ?thesis
    proof (cases "snd (decode_rune (b # s)) = 1")
      case True
      then have err: "decode_rune (b # s) = (rune_error, 1)"
        using decode_rune_invalid False by simp
      have "unicode_escape (''fffd'' @ ?t) = Some (encode_rune rune_error, ?t)"
        by (simp add: unicode_escape_def hex4_def hex_val_def rune_error_def)
      then show ?thesis
        using t err False to_valid_step [of "b # s"] by (simp add: read_str.simps)
    next
      case multi: False
      let ?n = "snd (decode_rune (b # s))"
      note m = decode_rune_multi [OF _ refl multi]
      have head: "take ?n (b # s) = b # take (?n - 1) s"
        using m(1) False by (auto simp: take_Cons')
      have "decode_rune (b # take (?n - 1) s @ ?t) = decode_rune (b # s)"
        using m(4) [of ?t] False head by simp
      moreover have "drop ?n (b # take (?n - 1) s @ ?t) = ?t"
      proof -
        have "length (take ?n (b # s)) = ?n" using m(2) False by simp
        then have "drop ?n (take ?n (b # s) @ ?t) = ?t" by (metis append_eq_conv_conj)
        then show ?thesis using head by simp
      qed
      ultimately have "read_str (take ?n (b # s) @ ?t) =
          Some (encode_rune (fst (decode_rune (b # s))) @ to_valid (drop ?n (b # s)), rest)"
        using esc False t head by (simp add: read_str.simps(2))
      then show ?thesis
        using multi False to_valid_step [of "b # s"] by (simp add: split_def Let_def)
    qed
  qed
qed

lemma read_str_json_string:
  "read_str (tl (json_string s) @ rest) = Some (to_valid s, rest)"
  by (simp add: json_string_def read_str_escape_loop)

section \<open>Numbers\<close>

lemma number_exp_chars: "number_exp s \<Longrightarrow> c \<in> set s \<Longrightarrow> number_char c"
  by (auto simp: number_exp_def number_char_def Let_def split: list.splits if_splits)

lemma set_dropWhile_takeWhile: "x \<in> set s \<Longrightarrow> x \<in> set (takeWhile P s) \<or> x \<in> set (dropWhile P s)"
  by (metis Un_iff set_append takeWhile_dropWhile_id)

lemma digits_or_rest:
  "x \<in> set s \<Longrightarrow> decimal_digit x \<or> x \<in> set (dropWhile decimal_digit s)"
  using set_dropWhile_takeWhile [of x s decimal_digit] set_takeWhileD [of x decimal_digit s] by blast

lemma number_frac_chars:
  assumes "number_frac s" and "c \<in> set s"
  shows "number_char c"
proof (cases s)
  case Nil
  then show ?thesis using assms by simp
next
  case (Cons d r)
  show ?thesis
  proof (cases "d = CHR ''.''")
    case True
    then have e: "number_exp (dropWhile decimal_digit r)" using assms Cons by (simp add: number_frac_def)
    have "c = d \<or> decimal_digit c \<or> c \<in> set (dropWhile decimal_digit r)"
      using assms(2) Cons digits_or_rest [of c r] by auto
    then show ?thesis using number_exp_chars [OF e] True by (auto simp: number_char_def)
  next
    case False
    then show ?thesis using assms Cons number_exp_chars by (simp add: number_frac_def)
  qed
qed

lemma json_number_chars:
  assumes "json_number s" and "c \<in> set s"
  shows "number_char c"
proof -
  define t where "t = (case s of x # r \<Rightarrow> if x = CHR ''-'' then r else s | [] \<Rightarrow> [])"
  have t: "c = CHR ''-'' \<or> c \<in> set t" using assms(2) by (cases s) (auto simp: t_def)
  have num: "case t of [] \<Rightarrow> False | d # r \<Rightarrow>
      if d = CHR ''0'' then number_frac r
      else decimal_digit d \<and> number_frac (dropWhile decimal_digit r)"
    using assms(1) by (simp add: json_number_def t_def)
  then obtain d r where d: "t = d # r" by (cases t) auto
  then have ok: "if d = CHR ''0'' then number_frac r
      else decimal_digit d \<and> number_frac (dropWhile decimal_digit r)"
    using num by simp
  from t consider "c = CHR ''-''" | "c = d" | "c \<in> set r" using d by auto
  then show ?thesis
  proof cases
    case 1
    then show ?thesis by (simp add: number_char_def)
  next
    case 2
    then show ?thesis using ok by (auto simp: number_char_def split: if_splits)
  next
    case 3
    then show ?thesis
      using ok number_frac_chars digits_or_rest [of c r]
      by (auto simp: number_char_def split: if_splits)
  qed
qed

lemma json_number_not_Nil: "json_number s \<Longrightarrow> s \<noteq> []"
  by (auto simp: json_number_def)

text \<open>A digit string without a leading zero, followed by a fraction, is a number.\<close>

definition plain_digits :: "string \<Rightarrow> bool" where
  "plain_digits s \<longleftrightarrow> s \<noteq> [] \<and> (\<forall>c \<in> set s. decimal_digit c)"

lemma dropWhile_digits: "\<forall>c \<in> set s. decimal_digit c \<Longrightarrow> dropWhile decimal_digit (s @ t) = dropWhile decimal_digit t"
  by simp

lemma json_number_unsigned:
  assumes "plain_digits s" and "hd s \<noteq> CHR ''0'' \<or> length s = 1" and "number_frac t"
    and "t = [] \<or> \<not> decimal_digit (hd t)"
  shows "json_number (s @ t)" and "json_number (CHR ''-'' # s @ t)"
proof -
  obtain d r where s: "s = d # r" using assms(1) by (cases s) (auto simp: plain_digits_def)
  have d: "decimal_digit d" "\<forall>c \<in> set r. decimal_digit c" using assms(1) s by (auto simp: plain_digits_def)
  have drop: "dropWhile decimal_digit (r @ t) = t"
    using d(2) assms(4) by (cases t) (auto simp: dropWhile_digits)
  have "d \<noteq> CHR ''-''" using d(1) by auto
  then show "json_number (s @ t)" and "json_number (CHR ''-'' # s @ t)"
    using assms(2,3) d(1) drop s by (auto simp: json_number_def)
qed

lemma plain_digits_show_nat: "plain_digits (show_nat n)"
  by (auto simp: plain_digits_def dest: show_nat_digits)

lemma hd_show_nat_or: "hd (show_nat n) \<noteq> CHR ''0'' \<or> length (show_nat n) = 1"
  by (cases "n = 0") (simp_all add: hd_show_nat)

lemma json_number_show_nat: "json_number (show_nat n)" "json_number (CHR ''-'' # show_nat n)"
  using json_number_unsigned [OF plain_digits_show_nat hd_show_nat_or, of "[]"]
  by (simp_all add: number_frac_def)

lemma json_number_show_int: "json_number (show_int i)"
  by (simp add: show_int_def json_number_show_nat)

lemma number_frac_digits: "plain_digits t \<Longrightarrow> number_frac (CHR ''.'' # t)"
proof -
  assume t: "plain_digits t"
  then have all: "dropWhile decimal_digit t = []" "takeWhile decimal_digit t = t" "t \<noteq> []"
    by (auto simp: plain_digits_def takeWhile_eq_all_conv)
  show ?thesis by (simp add: number_frac_def number_exp_def all)
qed

lemma json_number_fmt_f:
  assumes "0 < n"
  shows "json_number (fmt_f n k)" and "json_number (CHR ''-'' # fmt_f n k)"
proof -
  let ?s = "show_nat n"
  have digits: "\<forall>c \<in> set ?s. decimal_digit c" and hd: "hd ?s \<noteq> CHR ''0''"
    using assms show_nat_digits hd_show_nat by blast+
  have "json_number (fmt_f n k) \<and> json_number (CHR ''-'' # fmt_f n k)"
  proof (cases "0 \<le> k")
    case True
    let ?t = "?s @ replicate (nat k) (CHR ''0'')"
    have "plain_digits ?t" using digits by (auto simp: plain_digits_def)
    moreover have "hd ?t \<noteq> CHR ''0''" using hd by simp
    ultimately show ?thesis
      using json_number_unsigned [of ?t "[]"] True by (simp add: fmt_f_def number_frac_def)
  next
    case False
    let ?f = "nat (- k)"
    show ?thesis
    proof (cases "?f < length ?s")
      case True
      let ?a = "take (length ?s - ?f) ?s" and ?b = "drop (length ?s - ?f) ?s"
      have "plain_digits ?a" "plain_digits ?b"
        using digits True False by (auto simp: plain_digits_def dest: in_set_takeD in_set_dropD)
      moreover have "hd ?a \<noteq> CHR ''0''" using hd True by (simp add: hd_take)
      ultimately show ?thesis
        using json_number_unsigned [of ?a "CHR ''.'' # ?b"] number_frac_digits True False
        by (simp add: fmt_f_def Let_def)
    next
      case big: False
      let ?b = "replicate (?f - length ?s) (CHR ''0'') @ ?s"
      have "plain_digits ?b" using digits by (auto simp: plain_digits_def)
      moreover have "plain_digits ''0''" by (simp add: plain_digits_def)
      ultimately show ?thesis
        using json_number_unsigned [of "''0''" "CHR ''.'' # ?b"] number_frac_digits big False
        by (simp add: fmt_f_def Let_def)
    qed
  qed
  then show "json_number (fmt_f n k)" and "json_number (CHR ''-'' # fmt_f n k)" by auto
qed

lemma strip_zeros_pos: "0 < n \<Longrightarrow> 0 < fst (strip_zeros n k)"
proof (induction n k rule: strip_zeros.induct)
  case (1 n k)
  show ?case
    using 1 by (subst strip_zeros.simps) auto
qed

lemma try_digits_pos: "try_digits ab lo hi cl k = Some n \<Longrightarrow> 0 < n"
  by (auto simp: try_digits_def Let_def split: prod.splits if_splits)

lemma shortest_search_pos: "0 < fst (shortest_search fuel ab lo hi cl k)"
  by (induction fuel ab lo hi cl k rule: shortest_search.induct)
    (auto simp: Let_def try_digits_pos split: prod.split option.split)

lemma shortest_pos: "0 < fst (shortest mb eb u)"
proof -
  have "0 < fst (case shortest_search f ab lo hi c k of (n, k) \<Rightarrow> strip_zeros n k)" for f ab lo hi c k
    using shortest_search_pos [of f ab lo hi c k] by (auto simp: strip_zeros_pos split: prod.split)
  then show ?thesis by (simp add: shortest_def Let_def split: prod.split)
qed

lemma json_number_float:
  assumes "\<not> is_NaN f" and "\<not> is_Inf f"
  shows "json_number (format_float_f f)"
proof -
  have fin: "\<not> float_special 52 11 (unat f)" using assms by (auto simp: is_NaN_def is_Inf_def)
  obtain n k where nk: "shortest 52 11 (unat f) = (n, k)" by force
  then have "0 < n" using shortest_pos [of 52 11 "unat f"] by simp
  then show ?thesis
    using fin nk json_number_show_nat [of 0]
    by (simp add: format_float_f_def Let_def signed_text_def json_number_fmt_f)
qed

section \<open>Values\<close>

text \<open>
  What may follow a value: nothing that could continue a number. \<open>marshal_ok b\<close> states the
  documented behaviour of \<open>json.Marshal\<close> for a type of its own: its result is one JSON text,
  which the reader takes off the front of any longer text.
\<close>

definition value_end :: "string \<Rightarrow> bool" where
  "value_end s \<longleftrightarrow> s = [] \<or> \<not> number_char (hd s)"

definition reads_as :: "string \<Rightarrow> json \<Rightarrow> bool" where
  "reads_as b j \<longleftrightarrow>
     (\<forall>f rest. length b < f \<longrightarrow> value_end rest \<longrightarrow> read_value f (b @ rest) = Some (j, rest))"

definition marshal_ok :: "string \<Rightarrow> bool" where
  "marshal_ok b \<longleftrightarrow> (\<exists>j. reads_as b j)"

definition read_marshal :: "string \<Rightarrow> json" where
  "read_marshal b = (case read_value (Suc (length b)) b of Some (j, _) \<Rightarrow> j | None \<Rightarrow> JNull)"

text \<open>
  The values that the encoder can write as JSON: a \<open>json.Number\<close> must hold a number, since it is
  copied as it is, and \<open>json.Marshal\<close> must have done its work.
\<close>

fun json_ok :: "gval \<Rightarrow> bool" where
  "json_ok (VNumber n) \<longleftrightarrow> json_number n"
| "json_ok (VMap m) \<longleftrightarrow> list_all (\<lambda>(k, v). json_ok v) m"
| "json_ok (VList vs) \<longleftrightarrow> list_all json_ok vs"
| "json_ok (VLogValuer p v) \<longleftrightarrow> (case op_marshal p of None \<Rightarrow> True | Some b \<Rightarrow> marshal_ok b)"
| "json_ok (VOther p) \<longleftrightarrow> (case op_marshal p of None \<Rightarrow> True | Some b \<Rightarrow> marshal_ok b)"
| "json_ok _ \<longleftrightarrow> True"

definition json_of_opaque :: "opaque \<Rightarrow> json" where
  "json_of_opaque p =
     (case op_marshal p of None \<Rightarrow> JStr (to_valid (op_show p)) | Some b \<Rightarrow> read_marshal b)"

definition json_of_float :: "64 word \<Rightarrow> json" where
  "json_of_float f =
     (if is_NaN f \<or> is_Inf f then JStr (to_valid (format_float_f f)) else JNum (format_float_f f))"

fun json_of :: "gval \<Rightarrow> json" where
  "json_of VNil = JNull"
| "json_of (VString s) = JStr (to_valid s)"
| "json_of (VBool b) = JBool b"
| "json_of (VInt w) = JNum (show_int (sint w))"
| "json_of (VInt8 w) = JNum (show_int (sint w))"
| "json_of (VInt16 w) = JNum (show_int (sint w))"
| "json_of (VInt32 w) = JNum (show_int (sint w))"
| "json_of (VInt64 w) = JNum (show_int (sint w))"
| "json_of (VUint w) = JNum (show_nat (unat w))"
| "json_of (VUint8 w) = JNum (show_nat (unat w))"
| "json_of (VUint16 w) = JNum (show_nat (unat w))"
| "json_of (VUint32 w) = JNum (show_nat (unat w))"
| "json_of (VUint64 w) = JNum (show_nat (unat w))"
| "json_of (VFloat32 x) = json_of_float (widen_float x)"
| "json_of (VFloat64 x) = json_of_float x"
| "json_of (VError e) = JStr (to_valid (err_Error e))"
| "json_of (VDuration d) = JStr (to_valid (duration_String d))"
| "json_of (VNumber n) = JNum n"
| "json_of (VMap m) = JObj (map (\<lambda>(k, v). (to_valid k, json_of v)) (sort_key fst m))"
| "json_of (VStrings xs) = JArr (map (\<lambda>s. JStr (to_valid s)) xs)"
| "json_of (VList vs) = JArr (map json_of vs)"
| "json_of (VLogValuer p v) = json_of_opaque p"
| "json_of (VOther p) = json_of_opaque p"

lemma reads_asI:
  assumes "\<And>f rest. length b \<le> f \<Longrightarrow> value_end rest \<Longrightarrow> read_value (Suc f) (b @ rest) = Some (j, rest)"
  shows "reads_as b j"
proof -
  have "read_value f (b @ rest) = Some (j, rest)" if "length b < f" "value_end rest" for f rest
    using assms [of "f - 1" rest] that by (cases f) auto
  then show ?thesis by (simp add: reads_as_def)
qed

lemma reads_asD:
  "reads_as b j \<Longrightarrow> length b < f \<Longrightarrow> value_end rest \<Longrightarrow> read_value f (b @ rest) = Some (j, rest)"
  by (simp add: reads_as_def)

lemma value_end_simps [simp]:
  "value_end []" "value_end (CHR '','' # s)" "value_end (CHR ''}'' # s)" "value_end (CHR '']'' # s)"
  "value_end (newline # s)"
  by (simp_all add: value_end_def number_char_def)

lemma reads_as_string: "reads_as (json_string s) (JStr (to_valid s))"
proof (rule reads_asI)
  fix f rest
  show "read_value (Suc f) (json_string s @ rest) = Some (JStr (to_valid s), rest)"
    by (simp add: json_string_def read_str_escape_loop read_steps)
qed

lemma reads_as_literals:
  "reads_as ''null'' JNull" "reads_as ''true'' (JBool True)" "reads_as ''false'' (JBool False)"
  by (auto intro!: reads_asI simp: read_literal_def is_space_def read_steps)

lemma reads_as_number:
  assumes "json_number n"
  shows "reads_as n (JNum n)"
proof (rule reads_asI)
  fix f :: nat and rest
  assume fin: "value_end rest"
  obtain c r where n: "n = c # r" using json_number_not_Nil [OF assms] by (cases n) auto
  have chars: "\<forall>x \<in> set n. number_char x" using assms json_number_chars by blast
  then have c: "number_char c" using n by simp
  have "takeWhile number_char (n @ rest) = n" "dropWhile number_char (n @ rest) = rest"
    using chars fin by (cases rest; auto simp: value_end_def takeWhile_append)+
  then have "read_number (c # r @ rest) = Some (JNum n, rest)"
    using assms n by (simp add: read_number_def)
  moreover have "\<not> is_space c" "c \<noteq> CHR ''{''" "c \<noteq> CHR ''[''" "c \<noteq> quote_ch"
    "c \<noteq> CHR ''n''" "c \<noteq> CHR ''t''" "c \<noteq> CHR ''f''"
    using c by (auto simp: number_char_def is_space_def)
  ultimately show "read_value (Suc f) (n @ rest) = Some (JNum n, rest)"
    using n by (simp add: read_steps)
qed

lemma reads_as_float: "reads_as (json_float f) (json_of_float f)"
  by (auto simp: json_float_def json_of_float_def
      intro: reads_as_string reads_as_number json_number_float)

lemma reads_as_marshal: "marshal_ok b \<Longrightarrow> reads_as b (read_marshal b)"
proof -
  assume "marshal_ok b"
  then obtain j where j: "reads_as b j" by (auto simp: marshal_ok_def)
  from reads_asD [OF j, of "Suc (length b)" "[]"] have "read_marshal b = j"
    by (simp add: read_marshal_def)
  with j show ?thesis by simp
qed

lemma commas_pos: "0 < i \<Longrightarrow> commas i xs = concat (map (\<lambda>x. '','' @ x) xs)"
  by (induction xs arbitrary: i) auto

lemma commas_Suc: "commas (Suc i) xs = (if xs = [] then [] else CHR '','' # commas 0 xs)"
  by (cases xs) (simp_all add: commas_pos)

lemma read_members_commas:
  assumes "ps \<noteq> []" and "\<And>k v. (k, v) \<in> set ps \<Longrightarrow> reads_as (json_value v) (json_of v)"
    and "length (commas 0 (json_members ps)) < f"
  shows "read_members f (commas 0 (json_members ps) @ CHR ''}'' # rest) =
    Some (map (\<lambda>(k, v). (to_valid k, json_of v)) ps, rest)"
  using assms
proof (induction ps arbitrary: f)
  case Nil
  then show ?case by simp
next
  case (Cons p ps)
  obtain k v where p: "p = (k, v)" by force
  obtain f' where f: "f = Suc f'" using Cons.prems(3) by (cases f) auto
  have v: "reads_as (json_value v) (json_of v)" using Cons.prems(2) [of k v] p by simp
  have len: "length (json_value v) < f'" "ps \<noteq> [] \<Longrightarrow> length (commas 0 (json_members ps)) < f'"
    using Cons.prems(3) p f by (auto simp: json_members_def commas_Suc json_string_def)
  show ?case
  proof (cases "ps = []")
    case True
    have "read_value f' (json_value v @ CHR ''}'' # rest) = Some (json_of v, CHR ''}'' # rest)"
      using reads_asD [OF v len(1)] by simp
    then show ?thesis
      using True p f by (simp add: json_members_def json_string_def read_str_escape_loop read_steps)
  next
    case False
    let ?r = "commas 0 (json_members ps) @ CHR ''}'' # rest"
    have "read_value f' (json_value v @ CHR '','' # ?r) = Some (json_of v, CHR '','' # ?r)"
      using reads_asD [OF v len(1)] by simp
    moreover have "read_members f' ?r = Some (map (\<lambda>(k, v). (to_valid k, json_of v)) ps, rest)"
      using Cons.IH [OF False] Cons.prems(2) len(2) [OF False] by auto
    ultimately show ?thesis
      using False p f
      by (simp add: json_members_def commas_Suc json_string_def read_str_escape_loop read_steps)
  qed
qed

lemma read_elems_commas:
  assumes "xs \<noteq> []" and "list_all2 reads_as xs js" and "Suc (length (commas 0 xs)) < f"
  shows "read_elems f (commas 0 xs @ CHR '']'' # rest) = Some (js, rest)"
  using assms
proof (induction xs arbitrary: js f)
  case Nil
  then show ?case by simp
next
  case (Cons x xs)
  obtain j js' where js: "js = j # js'" and x: "reads_as x j" and xs: "list_all2 reads_as xs js'"
    using Cons.prems(2) by (auto simp: list_all2_Cons1)
  obtain f' where f: "f = Suc f'" using Cons.prems(3) by (cases f) auto
  have len: "length x < f'" "xs \<noteq> [] \<Longrightarrow> Suc (length (commas 0 xs)) < f'"
    using Cons.prems(3) f by (auto simp: commas_Suc split: if_splits)
  show ?case
  proof (cases "xs = []")
    case True
    have "read_value f' (x @ CHR '']'' # rest) = Some (j, CHR '']'' # rest)"
      using reads_asD [OF x len(1)] by simp
    then show ?thesis using True xs js f by (simp add: read_steps)
  next
    case False
    let ?r = "commas 0 xs @ CHR '']'' # rest"
    have "read_value f' (x @ CHR '','' # ?r) = Some (j, CHR '','' # ?r)"
      using reads_asD [OF x len(1)] by simp
    then show ?thesis
      using False js f Cons.IH [OF False xs len(2) [OF False]] by (simp add: commas_Suc read_steps)
  qed
qed

text \<open>An array is its elements between brackets; a first element never looks like \<open>]\<close>.\<close>

lemma reads_as_first:
  assumes "reads_as x j"
  obtains c r where "skip_ws (x @ t) = c # r" and "c \<noteq> CHR '']''"
proof -
  have ok: "read_value (Suc (length x)) (x @ []) = Some (j, [])"
    using assms by (intro reads_asD) simp_all
  then obtain c r where cr: "skip_ws x = c # r"
    by (cases "skip_ws x") (simp_all add: read_steps)
  moreover have "c \<noteq> CHR '']''"
    using ok cr by (auto simp: read_steps read_number_def json_number_def number_char_def)
  moreover have "skip_ws (x @ t) = skip_ws x @ t"
    using cr by (induction x) (auto split: if_splits)
  ultimately show thesis using that by simp
qed

lemma reads_as_array:
  assumes "list_all2 reads_as xs js"
  shows "reads_as (CHR ''['' # commas 0 xs @ '']'') (JArr js)"
proof (rule reads_asI)
  fix f rest
  assume f: "length (CHR ''['' # commas 0 xs @ '']'') \<le> f"
  show "read_value (Suc f) ((CHR ''['' # commas 0 xs @ '']'') @ rest) = Some (JArr js, rest)"
  proof (cases xs)
    case Nil
    then show ?thesis using assms by (simp add: read_steps)
  next
    case (Cons x xs')
    then obtain j js' where "reads_as x j" using assms by (auto simp: list_all2_Cons1)
    then obtain c r where first: "skip_ws (commas 0 xs @ CHR '']'' # rest) = c # r" "c \<noteq> CHR '']''"
      using Cons reads_as_first [of x j "commas 1 xs' @ CHR '']'' # rest"] by auto
    have "read_elems f (commas 0 xs @ CHR '']'' # rest) = Some (js, rest)"
      using assms Cons f by (intro read_elems_commas) auto
    then have "read_elems f (c # r) = Some (js, rest)"
      using first(1) read_elems_skip_ws [of f "commas 0 xs @ CHR '']'' # rest"] by simp
    then show ?thesis using first by (simp add: read_steps)
  qed
qed

lemma reads_as_object:
  assumes "\<And>k v. (k, v) \<in> set m \<Longrightarrow> reads_as (json_value v) (json_of v)"
  shows "reads_as (json_value (VMap m)) (json_of (VMap m))"
proof (rule reads_asI)
  fix f rest
  let ?ps = "sort_key fst m"
  assume f: "length (json_value (VMap m)) \<le> f"
  show "read_value (Suc f) (json_value (VMap m) @ rest) = Some (json_of (VMap m), rest)"
  proof (cases "?ps = []")
    case True
    then show ?thesis by (simp add: read_steps)
  next
    case False
    have "read_members f (commas 0 (json_members ?ps) @ CHR ''}'' # rest) =
        Some (map (\<lambda>(k, v). (to_valid k, json_of v)) ?ps, rest)"
      using assms f False by (intro read_members_commas) (auto simp: json_members_def)
    moreover obtain r where "commas 0 (json_members ?ps) = quote_ch # r"
      using False by (cases ?ps) (auto simp: json_members_def json_string_def)
    ultimately show ?thesis
      by (simp add: read_steps json_members_def)
  qed
qed

lemma reads_as_value: "json_ok v \<Longrightarrow> reads_as (json_value v) (json_of v)"
proof (induction v rule: json_value.induct)
  case (19 m)
  then show ?case by (intro reads_as_object) (auto simp: list_all_iff)
next
  case (20 xs)
  have "list_all2 reads_as (map json_string xs) (map (\<lambda>s. JStr (to_valid s)) xs)"
    by (simp add: list_all2_map1 list_all2_map2 list_all2_refl reads_as_string)
  then show ?case using reads_as_array by simp
next
  case (21 vs)
  then have "list_all2 reads_as (map json_value vs) (map json_of vs)"
    by (auto simp: list_all2_map1 list_all2_map2 list_all_iff intro: list_all2_same [THEN iffD2])
  then show ?case using reads_as_array by simp
qed (auto simp: json_of_opaque_def reads_as_string reads_as_literals reads_as_number reads_as_float
    json_number_show_nat json_number_show_int reads_as_marshal split: option.splits)

lemma read_json_entry:
  assumes "json_ok (VMap m)"
  shows "read_json (json_entry m @ [newline]) = Some (json_of (VMap m))"
proof -
  have "reads_as (json_entry m) (json_of (VMap m))"
    using reads_as_value [OF assms] by (simp add: json_entry_def json_members_def)
  then have "read_value (Suc (length (json_entry m @ [newline]))) (json_entry m @ [newline]) =
      Some (json_of (VMap m), [newline])"
    by (rule reads_asD) simp_all
  then show ?thesis by (simp add: read_json_def)
qed



section \<open>One entry, one line\<close>

definition no_control :: "string \<Rightarrow> bool" where
  "no_control s \<longleftrightarrow> (\<forall>c \<in> set s. 0x20 \<le> bval c)"

text \<open>
  A value is clean if the pieces that are copied without encoding have no control characters: a
  \<open>json.Number\<close> is a number, and the output of \<open>json.Marshal\<close> is compact.
\<close>

fun json_clean :: "gval \<Rightarrow> bool" where
  "json_clean (VNumber n) \<longleftrightarrow> json_number n"
| "json_clean (VMap m) \<longleftrightarrow> list_all (\<lambda>(k, v). json_clean v) m"
| "json_clean (VList vs) \<longleftrightarrow> list_all json_clean vs"
| "json_clean (VLogValuer p v) \<longleftrightarrow> (case op_marshal p of None \<Rightarrow> True | Some b \<Rightarrow> no_control b)"
| "json_clean (VOther p) \<longleftrightarrow> (case op_marshal p of None \<Rightarrow> True | Some b \<Rightarrow> no_control b)"
| "json_clean _ \<longleftrightarrow> True"

lemma no_control_simps [simp]:
  "no_control []" "no_control (s @ t) \<longleftrightarrow> no_control s \<and> no_control t"
  "no_control (c # s) \<longleftrightarrow> 0x20 \<le> bval c \<and> no_control s"
  by (auto simp: no_control_def)

lemma number_char_printable: "number_char c \<Longrightarrow> 0x20 \<le> bval c"
  by (auto simp: number_char_def)

lemma no_control_number: "json_number n \<Longrightarrow> no_control n"
  using json_number_chars number_char_printable by (auto simp: no_control_def)

lemma hexDigit_printable: "0x20 \<le> bval (hexDigit n)"
proof -
  have "\<forall>k \<in> set [0..<16]. 0x20 \<le> bval (''0123456789abcdef'' ! k)" by code_simp
  then show ?thesis by (simp add: hexDigit_def)
qed

lemma no_control_escape: "no_control (escape_loop s)"
proof (induction s rule: escape_loop.induct)
  case (2 b s)
  show ?case
  proof (cases "bval b < 0x80")
    case True
    then show ?thesis using "2.IH"(1) hexDigit_printable by (simp add: escape_ascii_def)
  next
    case False
    have IH: "no_control (escape_loop (drop (snd (decode_rune (b # s))) (b # s)))"
      using "2.IH"(2) [OF False] by (metis prod.collapse)
    have "no_control (take (snd (decode_rune (b # s))) (b # s))"
    proof (cases "snd (decode_rune (b # s)) = 1")
      case True
      then show ?thesis using False by simp
    next
      case multi: False
      then have "\<forall>d \<in> set (take (snd (decode_rune (b # s))) (b # s)). 0x80 \<le> bval d"
        using decode_rune_multi(3) [OF _ refl multi] False by simp
      then show ?thesis unfolding no_control_def by fastforce
    qed
    with IH False show ?thesis by (simp add: Let_def split_def)
  qed
qed simp

lemma no_control_string: "no_control (json_string s)"
  by (simp add: json_string_def no_control_escape)

lemma no_control_commas: "(\<And>x. x \<in> set xs \<Longrightarrow> no_control x) \<Longrightarrow> no_control (commas i xs)"
  by (induction i xs rule: commas.induct) simp_all

lemma no_control_float: "no_control (json_float f)"
  by (auto simp: json_float_def no_control_string intro: no_control_number json_number_float)

lemma no_control_value: "json_clean v \<Longrightarrow> no_control (json_value v)"
proof (induction v rule: json_value.induct)
  case (19 m)
  then show ?case
    by (auto simp: list_all_iff no_control_string intro!: no_control_commas) fastforce+
next
  case (20 xs)
  then show ?case by (auto simp: no_control_string intro!: no_control_commas)
next
  case (21 vs)
  then show ?case by (auto simp: list_all_iff intro!: no_control_commas)
qed (auto simp: no_control_string no_control_float no_control_number json_number_show_nat
    json_number_show_int split: option.splits)

lemma no_control_entry: "json_clean (VMap m) \<Longrightarrow> no_control (json_entry m)"
  using no_control_value [of "VMap m"] by (simp add: json_entry_def json_members_def)

text \<open>A JSON entry never contains a control character, whatever its keys, messages and string
  values are: no field value can start a second log line.\<close>

theorem appendJSONEntry_one_line:
  assumes "json_clean (VMap m)" and "c \<in> set (appendJSONEntry [] m)"
  shows "0x20 \<le> bval c"
  using no_control_entry [OF assms(1)] assms(2) by (simp add: append_eqs no_control_def)

theorem appendJSONEntry_one_line_witness:
  "list_all (\<lambda>c. 0x20 \<le> bval c) (appendJSONEntry [] [(''k'', VString (''a'' @ [newline] @ ''b''))])"
  using appendJSONEntry_one_line [of "[(''k'', VString (''a'' @ [newline] @ ''b''))]"] by (simp add: list_all_iff)

text \<open>A \<open>json.Number\<close> is copied without a check, unlike \<open>encoding/json\<close>, which rejects an invalid
  one: such a field makes the whole line unreadable as JSON.\<close>

theorem json_Number_unchecked:
  "read_json (appendJSONEntry [] [(''n'', VNumber ''oops'')]) = None"
  by (simp add: append_eqs json_entry_def json_members_def json_string_def escape_ascii_def
      read_json_def read_steps read_str.simps encode_rune_def is_space_def read_number_def
      number_char_def json_number_def)

end
