(* ===== verification/LogLevel.thy ===== *)
theory LogLevel
  imports GoStrings
begin

text \<open>
  \<open>level.go\<close>: severity levels, their names and the parser of level names.

  \<open>Level\<close> is a Go \<open>int\<close>, so the model keeps the 64-bit word and compares it as a signed
  value: \<open>Level(-1)\<close> and \<open>FATAL + 1\<close> (which \<open>Nop\<close> uses) are levels too. The order of the
  source's \<open><\<close> on levels is an instance of the library's \<open>linorder\<close>.
\<close>

datatype level = Level (level_word: "64 word")

lemma sint_eq_imp: "sint (a :: 64 word) = sint b \<Longrightarrow> a = b"
  by (drule arg_cong [where f = "of_int :: int \<Rightarrow> 64 word"]) simp

abbreviation level_int :: "level \<Rightarrow> int" where
  "level_int l \<equiv> sint (level_word l)"

lemma level_int_imp: "level_int a = level_int b \<Longrightarrow> a = b"
  by (cases a; cases b) (simp add: sint_eq_imp)

instantiation level :: linorder
begin

definition less_eq_level :: "level \<Rightarrow> level \<Rightarrow> bool" where
  "a \<le> b \<longleftrightarrow> level_int a \<le> level_int b"

definition less_level :: "level \<Rightarrow> level \<Rightarrow> bool" where
  "a < b \<longleftrightarrow> level_int a < level_int b"

instance
  by standard (auto simp: less_eq_level_def less_level_def dest: level_int_imp)

end

definition TRACE :: level where "TRACE = Level 0"
definition DEBUG :: level where "DEBUG = Level 1"
definition INFO :: level where "INFO = Level 2"
definition WARNING :: level where "WARNING = Level 3"
definition ERROR :: level where "ERROR = Level 4"
definition FATAL :: level where "FATAL = Level 5"

lemmas level_consts = TRACE_def DEBUG_def INFO_def WARNING_def ERROR_def FATAL_def

definition named_levels :: "level list" where
  "named_levels = [TRACE, DEBUG, INFO, WARNING, ERROR, FATAL]"

definition level_String :: "level \<Rightarrow> string" where
  "level_String l =
     (if l = TRACE then ''TRACE''
      else if l = DEBUG then ''DEBUG''
      else if l = INFO then ''INFO''
      else if l = WARNING then ''WARNING''
      else if l = ERROR then ''ERROR''
      else if l = FATAL then ''FATAL''
      else ''UNKNOWN'')"

definition parseLevel :: "string \<Rightarrow> level \<times> bool" where
  "parseLevel s =
     (let t = to_lower s in
      if t = ''trace'' then (TRACE, True)
      else if t = ''debug'' then (DEBUG, True)
      else if t = ''info'' then (INFO, True)
      else if t = ''warning'' \<or> t = ''warn'' then (WARNING, True)
      else if t = ''error'' then (ERROR, True)
      else if t = ''fatal'' then (FATAL, True)
      else (INFO, False))"

lemma level_less_word [simp]: "Level a < Level b \<longleftrightarrow> sint a < sint b"
  by (simp add: less_level_def)

lemma level_le_word [simp]: "Level a \<le> Level b \<longleftrightarrow> sint a \<le> sint b"
  by (simp add: less_eq_level_def)

lemma level_order:
  "TRACE < DEBUG" "DEBUG < INFO" "INFO < WARNING" "WARNING < ERROR" "ERROR < FATAL"
  by (simp_all add: level_consts)

lemma named_levels_distinct: "distinct named_levels"
  by (simp add: named_levels_def level_consts)

lemma named_levels_iff:
  "l \<in> set named_levels \<longleftrightarrow> TRACE \<le> l \<and> l \<le> FATAL"
proof -
  obtain w where l: "l = Level w" by (cases l)
  have "w \<in> {0, 1, 2, 3, 4, 5}" if "0 \<le> sint w \<and> sint w \<le> 5"
  proof -
    have "sint w \<in> {sint (0 :: 64 word), sint (1 :: 64 word), sint (2 :: 64 word),
        sint (3 :: 64 word), sint (4 :: 64 word), sint (5 :: 64 word)}" using that by auto
    then show ?thesis by (simp only: insert_iff empty_iff) (blast dest: sint_eq_imp)
  qed
  then show ?thesis by (auto simp: l named_levels_def level_consts)
qed

lemma level_String_nonempty: "level_String l \<noteq> []"
  by (simp add: level_String_def)

lemma level_String_cases:
  "l \<in> set named_levels \<Longrightarrow>
   level_String l \<in> {''TRACE'', ''DEBUG'', ''INFO'', ''WARNING'', ''ERROR'', ''FATAL''}"
  by (auto simp: named_levels_def level_String_def)

text \<open>\<open>parseLevel\<close> accepts a string as a level exactly when the string is that level's name
  in some letter case, or \<open>warn\<close> in some letter case for \<open>WARNING\<close>; only the six named levels
  can be parsed.\<close>

theorem parseLevel_iff:
  "parseLevel s = (l, True) \<longleftrightarrow>
     l \<in> set named_levels \<and>
     (to_lower s = to_lower (level_String l) \<or> l = WARNING \<and> to_lower s = ''warn'')"
proof -
  have names: "to_lower ''TRACE'' = ''trace''" "to_lower ''DEBUG'' = ''debug''"
    "to_lower ''INFO'' = ''info''" "to_lower ''WARNING'' = ''warning''"
    "to_lower ''ERROR'' = ''error''" "to_lower ''FATAL'' = ''fatal''"
    by (simp_all add: to_lower_ascii lower_rune_def)
  show ?thesis
    by (auto simp: parseLevel_def Let_def named_levels_def level_String_def names level_consts)
qed

end
