(* ===== verification/LogFormatter.thy ===== *)
theory LogFormatter
  imports EncodeCorrect LogLevel
begin

text \<open>
  \<open>formatter.go\<close>: the JSON, text and logfmt formatters, key remapping and the removal of control
  sequences from text output. A formatter turns an entry into bytes or an error; the three
  built-in ones never give an error. The pooled buffers are local to a call and do not appear.
\<close>

type_synonym keymap = "string gomap"

section \<open>Key remapping\<close>

fun remap_range :: "keymap \<Rightarrow> fields \<Rightarrow> fields \<Rightarrow> fields" where
  "remap_range keyMap [] remapped = remapped"
| "remap_range keyMap ((k, v) # r) remapped =
     remap_range keyMap r
       (case map_of keyMap k of Some newKey \<Rightarrow> put newKey v remapped | None \<Rightarrow> put k v remapped)"

definition applyKeyMap :: "fields \<Rightarrow> keymap \<Rightarrow> fields" where
  "applyKeyMap entry keyMap = remap_range keyMap entry []"

definition remapped :: "fields \<Rightarrow> keymap \<Rightarrow> fields" where
  \<comment> \<open>the first lines of every \<open>Format\<close>\<close>
  "remapped entry keyMap = (if 0 < length keyMap then applyKeyMap entry keyMap else entry)"

definition GCPKeyMap :: keymap where
  "GCPKeyMap = [(''level'', ''severity''), (''message'', ''textPayload'')]"

definition DatadogKeyMap :: keymap where
  "DatadogKeyMap = [(''level'', ''status'')]"

definition ELKKeyMap :: keymap where
  "ELKKeyMap = [(''time'', ''@timestamp''), (''level'', ''log.level'')]"

section \<open>JSON\<close>

definition JSON_Format :: "keymap \<Rightarrow> fields \<Rightarrow> goerr + string" where
  "JSON_Format keyMap entry = Inr (appendJSONEntry [] (remapped entry keyMap))"

section \<open>Text\<close>

definition colorize :: "string \<Rightarrow> string" where
  "colorize level =
     (if level = ''TRACE'' then escape_ch # ''[90m'' @ level @ escape_ch # ''[0m''
      else if level = ''DEBUG'' then escape_ch # ''[36m'' @ level @ escape_ch # ''[0m''
      else if level = ''INFO'' then escape_ch # ''[32m'' @ level @ escape_ch # ''[0m''
      else if level = ''WARNING'' then escape_ch # ''[33m'' @ level @ escape_ch # ''[0m''
      else if level = ''ERROR'' then escape_ch # ''[31m'' @ level @ escape_ch # ''[0m''
      else if level = ''FATAL'' then escape_ch # ''[35m'' @ level @ escape_ch # ''[0m''
      else level)"

definition isANSITerminator :: "char \<Rightarrow> bool" where
  "isANSITerminator b \<longleftrightarrow> 0x40 \<le> bval b \<and> bval b \<le> 0x7E"

text \<open>
  The loop of \<open>stripANSI\<close> over the rest \<open>s[i:]\<close>: an escape character followed by a bracket
  skips up to and including the next terminator, if there is one.
\<close>

function strip_loop :: "string \<Rightarrow> string" where
  "strip_loop [] = []"
| "strip_loop (c # s) =
     (if c = escape_ch \<and> s \<noteq> [] \<and> hd s = CHR ''[''
      then strip_loop (drop 1 (dropWhile (\<lambda>b. \<not> isANSITerminator b) (tl s)))
      else c # strip_loop s)"
  by pat_completeness auto
termination
proof (relation "measure length", goal_cases)
  case (2 c s)
  have "length (dropWhile (\<lambda>b. \<not> isANSITerminator b) (tl s)) \<le> length (tl s)"
    by (rule length_dropWhile_le)
  then show ?case by simp
qed auto

definition stripANSI :: "string \<Rightarrow> string" where
  "stripANSI s = (if \<not> contains_str s [escape_ch] then s else strip_loop s)"

definition sanitizeText :: "string \<Rightarrow> string" where
  "sanitizeText s =
     (let s = stripANSI s;
          s = replace_all newline [backslash, CHR ''n''] s
      in replace_all carriage [backslash, CHR ''r''] s)"

text \<open>A string entry, or the empty string; \<open>%-7s\<close> pads to seven runes.\<close>

definition string_entry :: "fields \<Rightarrow> string \<Rightarrow> string" where
  "string_entry entry k = (case map_of entry k of Some (VString s) \<Rightarrow> s | _ \<Rightarrow> [])"

definition pad_right :: "nat \<Rightarrow> string \<Rightarrow> string" where
  "pad_right n s = s @ replicate (n - rune_count s) (CHR '' '')"

definition core_keys :: "string list" where
  "core_keys = [''time'', ''level'', ''message'', ''file'']"

fun text_extras :: "fields \<Rightarrow> string list \<Rightarrow> string" where
  "text_extras entry [] = []"
| "text_extras entry (k # ks) =
     ''  '' @ k @ ''='' @ sanitizeText (show_v (the (map_of entry k))) @ text_extras entry ks"

definition text_head :: "bool \<Rightarrow> fields \<Rightarrow> string" where
  "text_head noColor entry =
     (let level = string_entry entry ''level'';
          displayLevel = (if \<not> noColor then colorize level else level)
      in string_entry entry ''time'' @ '' '' @ pad_right 7 displayLevel
         @ '' ['' @ string_entry entry ''file'' @ ''] ''
         @ sanitizeText (string_entry entry ''message''))"

definition Text_Format :: "bool \<Rightarrow> keymap \<Rightarrow> fields \<Rightarrow> goerr + string" where
  "Text_Format noColor keyMap entry0 =
     (let entry = remapped entry0 keyMap;
          extraKeys = sort (filter (\<lambda>k. k \<notin> set core_keys) (keys entry))
      in Inr (text_head noColor entry @ text_extras entry extraKeys))"

section \<open>Logfmt\<close>

definition needsLogfmtQuoting :: "string \<Rightarrow> bool" where
  "needsLogfmtQuoting s \<longleftrightarrow>
     s = [] \<or>
     list_ex (\<lambda>c. bval c \<le> 0x20 \<or> c = quote_ch \<or> c = CHR ''='' \<or> c = backslash) s"

definition logfmt_value :: "string \<Rightarrow> string" where
  "logfmt_value s =
     (if needsLogfmtQuoting s
      then quote_ch # replace_all quote_ch [backslash, quote_ch] s @ [quote_ch] else s)"

definition appendLogfmtPair :: "string \<Rightarrow> string \<Rightarrow> gval \<Rightarrow> string" where
  "appendLogfmtPair buf key val = (buf @ key @ ''='') @ logfmt_value (show_v val)"

text \<open>One pass over a list of keys: those that the entry has are written, with a space between.\<close>

fun logfmt_pairs :: "fields \<Rightarrow> string list \<Rightarrow> string \<Rightarrow> string" where
  "logfmt_pairs entry [] buf = buf"
| "logfmt_pairs entry (k # ks) buf =
     (case map_of entry k of
        None \<Rightarrow> logfmt_pairs entry ks buf
      | Some v \<Rightarrow>
          logfmt_pairs entry ks
            (appendLogfmtPair (if 0 < length buf then buf @ '' '' else buf) k v))"

definition Logfmt_Format :: "keymap \<Rightarrow> fields \<Rightarrow> goerr + string" where
  "Logfmt_Format keyMap entry0 =
     (let entry = remapped entry0 keyMap;
          written = filter (\<lambda>k. map_of entry k \<noteq> None) core_keys;
          extraKeys = sort (filter (\<lambda>k. k \<notin> set written) (keys entry))
      in Inr (logfmt_pairs entry extraKeys (logfmt_pairs entry core_keys [])))"

section \<open>Formatters as values\<close>

text \<open>The \<open>Formatter\<close> interface: one of the three built-in types or a user's own.\<close>

datatype formatter =
    JSONFormatter keymap
  | TextFormatter bool keymap
  | LogfmtFormatter keymap
  | CustomFormatter "fields \<Rightarrow> goerr + string"

fun Format :: "formatter \<Rightarrow> fields \<Rightarrow> goerr + string" where
  "Format (JSONFormatter km) entry = JSON_Format km entry"
| "Format (TextFormatter nc km) entry = Text_Format nc km entry"
| "Format (LogfmtFormatter km) entry = Logfmt_Format km entry"
| "Format (CustomFormatter f) entry = f entry"

end
