(* ===== verification/LogWriters.thy ===== *)
theory LogWriters
  imports LogAsync LogFormatter
begin

text \<open>
  \<open>writer_fanout.go\<close>, \<open>writer_filtered.go\<close>, the terminal detection of \<open>options.go\<close> and
  \<open>terminal_*.go\<close>, and the \<open>Syncer\<close> interface of \<open>pipeline.go\<close>: the tree of writers that a logger
  writes to.

  The leaves of a tree are sinks outside the code (files, connections, buffers). What a sink answers
  is a parameter: a function of the whole history of calls on sinks, so a sink may fail at any
  point and depend on anything that happened before. The history is the state that a call threads
  through, together with the states of the asynchronous writers of the tree. In this
  sequential view the goroutine of an asynchronous writer runs when it is closed; \<open>LogAsync\<close> has its
  interleavings.
\<close>

text \<open>
  The history also has the calls of the logger's hooks and of its exit function, with the status
  that it is given, so that one list orders everything a log call does. The exit function is
  \<open>os.Exit\<close>, which ends the process, or a function that the tests put in its place, known by its number.
\<close>

datatype exit_func = OsExit | ExitFunc nat

datatype io_event =
    EvWrite nat string
  | EvSync nat
  | EvHook nat level string fields
  | EvExit exit_func nat

record sinks =
  on_Write :: "nat \<Rightarrow> io_event list \<Rightarrow> write_result"
  on_Sync :: "nat \<Rightarrow> io_event list \<Rightarrow> goerr option"

record world =
  io :: "io_event list"
  asyncs :: "nat \<Rightarrow> async_writer"

text \<open>Sinks that accept everything, and the world before anything happened, for concrete runs.\<close>

definition quiet_sinks :: sinks where
  "quiet_sinks =
     \<lparr>on_Write = \<lambda>i h. (case last h of EvWrite _ p \<Rightarrow> length p | _ \<Rightarrow> 0, None), on_Sync = \<lambda>i h. None\<rparr>"

definition empty_world :: world where
  "empty_world = \<lparr>io = [], asyncs = \<lambda>_. NewAsyncWriter 1\<rparr>"

text \<open>
  A sink has an identity, implements \<open>Syncer\<close> or not, and is a file with a descriptor or not.
\<close>

datatype writer =
    Sink nat bool "nat option"
  | Discard
  | AsyncWriter nat writer
  | FilteredWriter writer level string
  | FanOutWriter "writer list"

text \<open>The type assertion \<open>w.(Syncer)\<close>.\<close>

fun is_Syncer :: "writer \<Rightarrow> bool" where
  "is_Syncer (Sink i sy fd) \<longleftrightarrow> sy"
| "is_Syncer Discard \<longleftrightarrow> False"
| "is_Syncer _ \<longleftrightarrow> True"

section \<open>Level extraction\<close>

definition extractLevel :: "string \<Rightarrow> string \<Rightarrow> level" where
  "extractLevel p levelKey =
     (let key = quote_ch # levelKey @ [quote_ch, CHR '':'', quote_ch]
      in case index_of key p of
           None \<Rightarrow> INFO
         | Some idx \<Rightarrow>
             (let start = idx + length key
              in case index_byte (drop start p) quote_ch of
                   None \<Rightarrow> INFO
                 | Some len \<Rightarrow>
                     (let name = take len (drop start p)
                      in if name = ''TRACE'' then TRACE
                         else if name = ''DEBUG'' then DEBUG
                         else if name = ''INFO'' then INFO
                         else if name = ''WARNING'' then WARNING
                         else if name = ''ERROR'' then ERROR
                         else if name = ''FATAL'' then FATAL
                         else INFO)))"

type_synonym filtered_option = "writer \<Rightarrow> writer"

definition NewFilteredWriter :: "writer \<Rightarrow> level \<Rightarrow> filtered_option list \<Rightarrow> writer" where
  "NewFilteredWriter w minLevel opts = fold (\<lambda>opt fw. opt fw) opts (FilteredWriter w minLevel ''level'')"

fun WithLevelKey :: "string \<Rightarrow> filtered_option" where
  "WithLevelKey key (FilteredWriter w minLevel k) = FilteredWriter w minLevel key"
| "WithLevelKey key w = w"

definition NewFanOutWriter :: "writer list \<Rightarrow> writer" where
  "NewFanOutWriter writers = FanOutWriter writers"

section \<open>Writing\<close>

definition wrap_fanout :: "goerr \<Rightarrow> goerr" where
  "wrap_fanout e = GoErr ''*fmt.wrapError'' (''fanout write failed: '' @ err_Error e) (Some e)"

definition set_async :: "nat \<Rightarrow> async_writer \<Rightarrow> world \<Rightarrow> world" where
  "set_async i a w = w\<lparr>asyncs := (asyncs w)(i := a)\<rparr>"

definition sink_write :: "sinks \<Rightarrow> nat \<Rightarrow> string \<Rightarrow> world \<Rightarrow> write_result \<times> world" where
  "sink_write env i p w = (on_Write env i (io w @ [EvWrite i p]), w\<lparr>io := io w @ [EvWrite i p]\<rparr>)"

fun writer_Write :: "sinks \<Rightarrow> writer \<Rightarrow> string \<Rightarrow> world \<Rightarrow> write_result \<times> world"
  and fanout_loop :: "sinks \<Rightarrow> writer list \<Rightarrow> string \<Rightarrow> world \<Rightarrow> write_result \<times> world" where
  "writer_Write env (Sink i sy fd) p w = sink_write env i p w"
| "writer_Write env Discard p w = ((length p, None), w)"
| "writer_Write env (AsyncWriter i inner) p w =
     (let (oc, res, a) = async_Write p (asyncs w i) in (res, set_async i a w))"
| "writer_Write env (FilteredWriter inner minLevel levelKey) p w =
     (if extractLevel p levelKey < minLevel then ((length p, None), w)
      else writer_Write env inner p w)"
| "writer_Write env (FanOutWriter ws) p w = fanout_loop env ws p w"
| "fanout_loop env [] p w = ((length p, None), w)"
| "fanout_loop env (x # r) p w =
     (let ((n, err), w) = writer_Write env x p w
      in case err of
           None \<Rightarrow> fanout_loop env r p w
         | Some e \<Rightarrow> ((n, Some (wrap_fanout e)), w))"

section \<open>Syncing\<close>

text \<open>\<open>errors.Join\<close>: nil for no errors, else the messages on lines of their own.\<close>

definition errors_Join :: "goerr list \<Rightarrow> goerr option" where
  "errors_Join es =
     (if es = [] then None
      else Some (GoErr ''*errors.joinError'' (join [newline] (map err_Error es)) None))"

definition sink_sync :: "sinks \<Rightarrow> nat \<Rightarrow> world \<Rightarrow> goerr option \<times> world" where
  "sink_sync env i w = (on_Sync env i (io w @ [EvSync i]), w\<lparr>io := io w @ [EvSync i]\<rparr>)"

definition write_all :: "sinks \<Rightarrow> writer \<Rightarrow> string list \<Rightarrow> world \<Rightarrow> world" where
  "write_all env d ms w = fold (\<lambda>m w. snd (writer_Write env d m w)) ms w"

fun writer_Sync :: "sinks \<Rightarrow> writer \<Rightarrow> world \<Rightarrow> goerr option \<times> world"
  and sync_loop :: "sinks \<Rightarrow> writer list \<Rightarrow> goerr list \<Rightarrow> world \<Rightarrow> goerr option \<times> world" where
  "writer_Sync env (Sink i sy fd) w = sink_sync env i w"
| "writer_Sync env Discard w = (None, w)"
| "writer_Sync env (AsyncWriter i inner) w =
     (let a = asyncs w i in
      if once a \<noteq> OnceNew then (None, w)
      else (let w = write_all env inner (pending a) (set_async i (Close_call (is_Syncer inner) a) w)
            in if is_Syncer inner then writer_Sync env inner w else (None, w)))"
| "writer_Sync env (FilteredWriter inner minLevel levelKey) w =
     (if is_Syncer inner then writer_Sync env inner w else (None, w))"
| "writer_Sync env (FanOutWriter ws) w = sync_loop env ws [] w"
| "sync_loop env [] errs w = (errors_Join errs, w)"
| "sync_loop env (x # r) errs w =
     (if is_Syncer x then
        (let (err, w) = writer_Sync env x w
         in sync_loop env r (case err of None \<Rightarrow> errs | Some e \<Rightarrow> errs @ [e]) w)
      else sync_loop env r errs w)"

section \<open>Unwrapping\<close>

text \<open>
  The method \<open>Unwrap\<close> of the wrappers, for each the writer it holds; a fan-out gives its first writer,
  and nil (\<open>None\<close>) when it has none.
\<close>

definition fanout_Unwrap :: "writer list \<Rightarrow> writer option" where
  "fanout_Unwrap ws = (if 0 < length ws then Some (ws ! 0) else None)"

lemma fanout_Unwrap_simps [simp]: "fanout_Unwrap [] = None" "fanout_Unwrap (x # xs) = Some x"
  by (simp_all add: fanout_Unwrap_def)

fun Unwrap :: "writer \<Rightarrow> writer option" where
  "Unwrap (AsyncWriter i inner) = Some inner"
| "Unwrap (FilteredWriter inner minLevel levelKey) = Some inner"
| "Unwrap (FanOutWriter ws) = fanout_Unwrap ws"
| "Unwrap _ = None"

lemma Unwrap_smaller: "Unwrap w = Some x \<Longrightarrow> size x < size w"
  by (cases w; cases "case w of FanOutWriter ws \<Rightarrow> ws | _ \<Rightarrow> []") auto

text \<open>
  \<open>isTerminal\<close>, one definition per platform. The kernel is a parameter: the error number with which it
  answers an \<open>ioctl\<close> request on a descriptor, 0 for none. Linux asks with \<open>TCGETS\<close>, the BSDs and macOS
  with \<open>TIOCGETA\<close>; on Windows nothing is asked.
\<close>

datatype ioctl_request = TCGETS | TIOCGETA

type_synonym kernel = "nat \<Rightarrow> ioctl_request \<Rightarrow> nat"

definition isTerminal_linux :: "kernel \<Rightarrow> nat \<Rightarrow> bool" where
  "isTerminal_linux ioctl fd \<longleftrightarrow> ioctl fd TCGETS = 0"

definition isTerminal_bsd :: "kernel \<Rightarrow> nat \<Rightarrow> bool" where
  "isTerminal_bsd ioctl fd \<longleftrightarrow> ioctl fd TIOCGETA = 0"

definition isTerminal_windows :: "kernel \<Rightarrow> nat \<Rightarrow> bool" where
  "isTerminal_windows ioctl fd \<longleftrightarrow> False"

datatype platform = Linux | BSD | Windows

text \<open>The build tags choose the definition.\<close>

fun isTerminal :: "platform \<Rightarrow> kernel \<Rightarrow> nat \<Rightarrow> bool" where
  "isTerminal Linux = isTerminal_linux"
| "isTerminal BSD = isTerminal_bsd"
| "isTerminal Windows = isTerminal_windows"

text \<open>The loop of \<open>fileIsTerminal\<close>; the writer can be nil (\<open>None\<close>).\<close>

function fileIsTerminal :: "(nat \<Rightarrow> bool) \<Rightarrow> writer option \<Rightarrow> bool" where
  "fileIsTerminal tty None \<longleftrightarrow> False"
| "fileIsTerminal tty (Some w) \<longleftrightarrow>
     (case w of
        Sink i sy (Some fd) \<Rightarrow> tty fd
      | AsyncWriter _ _ \<Rightarrow> fileIsTerminal tty (Unwrap w)
      | FilteredWriter _ _ _ \<Rightarrow> fileIsTerminal tty (Unwrap w)
      | FanOutWriter _ \<Rightarrow> fileIsTerminal tty (Unwrap w)
      | _ \<Rightarrow> False)"
  by pat_completeness auto
termination
  by (relation "measure (\<lambda>(_, w). case w of None \<Rightarrow> 0 | Some x \<Rightarrow> Suc (size x))")
    (auto split: option.split simp: fanout_Unwrap_def neq_Nil_conv)

definition auto_formatter :: "(nat \<Rightarrow> bool) \<Rightarrow> writer \<Rightarrow> formatter" where
  "auto_formatter tty out =
     (if fileIsTerminal tty (Some out) then TextFormatter False [] else JSONFormatter [])"

end
