(* ===== verification/LogEnrich.thy ===== *)
theory LogEnrich
  imports GoValues
begin

text \<open>
  What \<open>writeEntry\<close> does to the fields of an entry before it formats them: \<open>mergeFields\<close> and
  \<open>resolveLogValuers\<close> (\<open>logger.go\<close>) and \<open>enrichErrors\<close> (\<open>errors.go\<close>). Loops over a map follow
  the order of the list that stands for it.
\<close>

section \<open>Merging\<close>

definition mergeFields :: "fields \<Rightarrow> fields \<Rightarrow> fields" where
  "mergeFields base overlay =
     (if length base = 0 then overlay
      else if length overlay = 0 then base
      else fold (\<lambda>(k, v). put k v) overlay (fold (\<lambda>(k, v). put k v) base []))"

lemma mergeFields_ok [simp, intro]:
  "gomap_ok base \<Longrightarrow> gomap_ok overlay \<Longrightarrow> gomap_ok (mergeFields base overlay)"
  by (simp add: mergeFields_def)

lemma mergeFields_lookup [map_simps]:
  "gomap_ok base \<Longrightarrow> gomap_ok overlay \<Longrightarrow>
   map_of (mergeFields base overlay) = map_of base ++ map_of overlay"
  by (simp add: mergeFields_def fold_put_lookup)

section \<open>Copy on write\<close>

text \<open>
  Both scans below leave the caller's map alone: the first field that needs a change makes a
  copy (\<open>copied\<close>, the loop over \<open>fields\<close> that fills the new map), which the later ones
  update; if no field needs one the result is the caller's map itself (\<open>scanned\<close>).
\<close>

definition copied :: "fields \<Rightarrow> fields option \<Rightarrow> fields" where
  "copied fs res = (case res of None \<Rightarrow> fold (\<lambda>(k, v). put k v) fs [] | Some m \<Rightarrow> m)"

definition scanned :: "fields \<Rightarrow> fields option \<Rightarrow> fields" where
  "scanned fs res = (case res of None \<Rightarrow> fs | Some m \<Rightarrow> m)"

lemma scanned_Some [simp]: "scanned fs (Some m) = m"
  by (simp add: scanned_def)

lemma scanned_None [simp]: "scanned fs None = fs"
  by (simp add: scanned_def)

lemma copied_lookup [simp]: "gomap_ok fs \<Longrightarrow> map_of (copied fs res) = map_of (scanned fs res)"
  by (simp add: copied_def scanned_def fold_put_lookup split: option.split)

lemma copied_ok [simp]: "gomap_ok (scanned fs res) \<Longrightarrow> gomap_ok (copied fs res)"
  by (simp add: copied_def scanned_def split: option.splits)

section \<open>LogValuers\<close>

text \<open>
  \<open>resolve_loop n v\<close>: at most \<open>n\<close> further rounds of \<open>LogValue\<close> while the value is still a
  \<open>LogValuer\<close>.
\<close>

fun resolve_loop :: "nat \<Rightarrow> gval \<Rightarrow> gval" where
  "resolve_loop (Suc n) (VLogValuer p v) = resolve_loop n v"
| "resolve_loop _ v = v"

fun resolve_range :: "fields \<Rightarrow> fields \<Rightarrow> fields option \<Rightarrow> fields option" where
  "resolve_range fs [] res = res"
| "resolve_range fs ((k, VLogValuer p v) # r) res =
     resolve_range fs r (Some (put k (resolve_loop 10 v) (copied fs res)))"
| "resolve_range fs (_ # r) res = resolve_range fs r res"

definition resolveLogValuers :: "fields \<Rightarrow> fields" where
  "resolveLogValuers fs =
     (if length fs = 0 then fs else scanned fs (resolve_range fs fs None))"

fun resolve_value :: "gval \<Rightarrow> gval" where
  "resolve_value (VLogValuer p v) = resolve_loop 10 v"
| "resolve_value v = v"

fun valuer_depth :: "gval \<Rightarrow> nat" where
  "valuer_depth (VLogValuer p v) = Suc (valuer_depth v)"
| "valuer_depth _ = 0"

lemma resolve_loop_depth: "valuer_depth (resolve_loop n v) = valuer_depth v - n"
  by (induction n v rule: resolve_loop.induct) auto

lemma resolve_value_depth: "valuer_depth (resolve_value v) = valuer_depth v - 11"
  by (cases v) (auto simp: resolve_loop_depth)

lemma resolve_value_id: "valuer_depth v = 0 \<Longrightarrow> resolve_value v = v"
  by (cases v) auto

lemma resolve_range_lookup:
  assumes "gomap_ok fs" and "gomap_ok r"
  shows "map_of (scanned fs (resolve_range fs r res)) k =
    (case map_of r k of
       None \<Rightarrow> map_of (scanned fs res) k
     | Some x \<Rightarrow> if valuer_depth x = 0 then map_of (scanned fs res) k else Some (resolve_value x))"
  using assms
proof (induction fs r res rule: resolve_range.induct)
  case (2 fs k' p v r res)
  then have ok: "gomap_ok r" and fresh: "map_of r k' = None"
    by (auto simp: map_of_eq_None_iff)
  show ?case
    using "2.IH" [OF "2.prems"(1) ok] fresh "2.prems"(1) by (simp split: option.split)
qed (auto split: option.splits simp flip: map_of_eq_None_iff)

lemma resolve_range_ok:
  "gomap_ok (scanned fs res) \<Longrightarrow> gomap_ok (scanned fs (resolve_range fs r res))"
  by (induction fs r res rule: resolve_range.induct) auto

lemma resolveLogValuers_ok [simp, intro]: "gomap_ok fs \<Longrightarrow> gomap_ok (resolveLogValuers fs)"
  by (simp add: resolveLogValuers_def resolve_range_ok)

lemma resolveLogValuers_lookup [map_simps]:
  "gomap_ok fs \<Longrightarrow> map_of (resolveLogValuers fs) k = map_option resolve_value (map_of fs k)"
  by (auto simp: resolveLogValuers_def resolve_range_lookup resolve_value_id split: option.splits)

text \<open>Resolving the fields keeps every key and replaces each value by what following its
  \<open>LogValue\<close> calls gives; a value is left a \<open>LogValuer\<close> only when more than eleven
  \<open>LogValue\<close> calls would be needed, the bound of the loop.\<close>

theorem resolveLogValuers_resolves:
  assumes "gomap_ok fs"
  shows "gomap_ok (resolveLogValuers fs) \<and>
    map_of (resolveLogValuers fs) k = map_option resolve_value (map_of fs k) \<and>
    (map_of (resolveLogValuers fs) k = Some w \<longrightarrow>
       (0 < valuer_depth w \<longleftrightarrow> (\<exists>v. map_of fs k = Some v \<and> 11 < valuer_depth v)))"
  using assms by (auto simp: map_simps resolve_value_depth)

theorem resolveLogValuers_resolves_witness:
  "map_of (resolveLogValuers [(''u'', VLogValuer (Opaque ''T'' None ''x'') (VString ''id''))]) ''u''
     = Some (VString ''id'')"
  using resolveLogValuers_resolves
    [of "[(''u'', VLogValuer (Opaque ''T'' None ''x'') (VString ''id''))]" "''u''" "VString ''id''"]
  by (simp add: gomap_ok_def numeral_eq_Suc)

section \<open>Errors\<close>

text \<open>The messages of an error and of everything it wraps, outermost first.\<close>

fun unwrap_chain :: "goerr option \<Rightarrow> string list" where
  "unwrap_chain None = []"
| "unwrap_chain (Some (GoErr t m inner)) = m # unwrap_chain inner"

definition error_chain :: "goerr \<Rightarrow> string list" where
  "error_chain e = err_Error e # unwrap_chain (err_Unwrap e)"

definition put_error :: "string \<Rightarrow> goerr \<Rightarrow> fields \<Rightarrow> fields" where
  "put_error k e m =
     (let m1 = put k (VString (err_Error e)) m;
          m2 = put (k @ ''_type'') (VString (err_type e)) m1;
          chain = error_chain e
      in if 1 < length chain then put (k @ ''_chain'') (VStrings chain) m2 else m2)"

fun enrich_range :: "fields \<Rightarrow> fields \<Rightarrow> fields option \<Rightarrow> fields option" where
  "enrich_range fs [] res = res"
| "enrich_range fs ((k, VError e) # r) res =
     enrich_range fs r (Some (put_error k e (copied fs res)))"
| "enrich_range fs (_ # r) res = enrich_range fs r res"

definition enrichErrors :: "fields \<Rightarrow> fields" where
  "enrichErrors fs = (if length fs = 0 then fs else scanned fs (enrich_range fs fs None))"

fun error_of :: "gval \<Rightarrow> goerr option" where
  "error_of (VError e) = Some e"
| "error_of _ = None"

lemma error_of_Some [simp]: "error_of v = Some e \<longleftrightarrow> v = VError e"
  by (cases v) auto

text \<open>The keys that enriching the error \<open>e\<close> under \<open>k\<close> writes.\<close>

definition error_keys :: "string \<Rightarrow> goerr \<Rightarrow> string set" where
  "error_keys k e =
     {k, k @ ''_type''} \<union> (if err_Unwrap e = None then {} else {k @ ''_chain''})"

lemma chain_longer [simp]: "Suc 0 < length (error_chain e) \<longleftrightarrow> err_Unwrap e \<noteq> None"
  by (cases "err_Unwrap e") (auto simp: error_chain_def, metis goerr.exhaust list.distinct(1) unwrap_chain.simps(2))

lemma put_error_lookup:
  "map_of (put_error k e m) x =
     (if x = k then Some (VString (err_Error e))
      else if x = k @ ''_type'' then Some (VString (err_type e))
      else if x = k @ ''_chain'' \<and> err_Unwrap e \<noteq> None then Some (VStrings (error_chain e))
      else map_of m x)"
  by (auto simp: put_error_def Let_def)

lemma put_error_ok [simp]: "gomap_ok m \<Longrightarrow> gomap_ok (put_error k e m)"
  by (simp add: put_error_def Let_def)

lemma enrich_range_ok:
  "gomap_ok (scanned fs res) \<Longrightarrow> gomap_ok (scanned fs (enrich_range fs r res))"
  by (induction fs r res rule: enrich_range.induct) auto

lemma enrichErrors_ok [simp, intro]: "gomap_ok fs \<Longrightarrow> gomap_ok (enrichErrors fs)"
  by (simp add: enrichErrors_def enrich_range_ok)

lemma enrich_range_frame:
  assumes "gomap_ok fs" and "\<And>k e. (k, VError e) \<in> set r \<Longrightarrow> x \<notin> error_keys k e"
  shows "map_of (scanned fs (enrich_range fs r res)) x = map_of (scanned fs res) x"
  using assms
proof (induction fs r res rule: enrich_range.induct)
  case (2 fs k e r res)
  have "x \<notin> error_keys k e" using "2.prems"(2) by simp
  then have "map_of (put_error k e (copied fs res)) x = map_of (scanned fs res) x"
    using "2.prems"(1) by (auto simp: put_error_lookup error_keys_def split: if_splits)
  then show ?case using "2.IH" "2.prems" by simp
qed auto

text \<open>
  One error among others: if no other error field writes its keys, the result holds its message,
  type and chain.
\<close>

lemma enrich_range_error:
  assumes "gomap_ok fs" and "gomap_ok r" and "(k, VError e) \<in> set r" and "x \<in> error_keys k e"
    and "\<And>k' e'. (k', VError e') \<in> set r \<Longrightarrow> k' \<noteq> k \<Longrightarrow> x \<notin> error_keys k' e'"
  shows "map_of (scanned fs (enrich_range fs r res)) x = map_of (put_error k e []) x"
  using assms
proof (induction fs r res rule: enrich_range.induct)
  case (2 fs k' e' r res)
  show ?case
  proof (cases "k' = k")
    case True
    then have "e' = e" and other: "\<And>k'' e''. (k'', VError e'') \<in> set r \<Longrightarrow> k'' \<noteq> k"
      using "2.prems"(2,3) by (auto simp: rev_image_eqI)
    have "map_of (scanned fs (enrich_range fs r (Some (put_error k e (copied fs res))))) x =
        map_of (put_error k e (copied fs res)) x"
      using "2.prems"(1,5) other enrich_range_frame
        [of fs r x "Some (put_error k e (copied fs res))"] by auto
    also have "\<dots> = map_of (put_error k e []) x"
      using "2.prems"(4) by (auto simp: put_error_lookup error_keys_def split: if_splits)
    finally show ?thesis using True \<open>e' = e\<close> by simp
  next
    case False
    then show ?thesis using "2.IH" "2.prems" by auto
  qed
qed auto

text \<open>
  The fields clash when one of the keys derived from an error field is itself the key of a
  field: then what the entry shows depends on the iteration order.
\<close>

definition clash_free :: "fields \<Rightarrow> bool" where
  "clash_free fs \<longleftrightarrow>
     (\<forall>(k, v) \<in> set fs. error_of v \<noteq> None \<longrightarrow>
        k @ ''_type'' \<notin> set (keys fs) \<and> k @ ''_chain'' \<notin> set (keys fs))"

lemma same_suffix_keys:
  "k @ ''_type'' = k' @ ''_type'' \<longleftrightarrow> k = k'" "k @ ''_chain'' = k' @ ''_chain'' \<longleftrightarrow> k = k'"
  "k @ ''_type'' \<noteq> k' @ ''_chain''" "k @ ''_chain'' \<noteq> k' @ ''_type''"
  by (auto dest: arg_cong [where f = rev])

lemma error_keys_disjoint:
  assumes "clash_free fs" and "(k, VError e) \<in> set fs" and "(k', VError e') \<in> set fs" and "k' \<noteq> k"
    and "x \<in> error_keys k e"
  shows "x \<notin> error_keys k' e'"
proof -
  define S where "S = set (keys fs)"
  have "k \<in> S" "k' \<in> S"
    using assms(2,3) by (force simp: image_iff S_def)+
  moreover have "k @ ''_type'' \<notin> S" "k @ ''_chain'' \<notin> S" "k' @ ''_type'' \<notin> S" "k' @ ''_chain'' \<notin> S"
    using assms(1,2,3) unfolding clash_free_def S_def by fastforce+
  ultimately show ?thesis
    using assms(4,5) same_suffix_keys [of k k'] by (auto simp: error_keys_def split: if_splits)
qed

text \<open>C40: When no field has a key derived from an error field's key, every error field is replaced by
  its message, gains \<open>_type\<close> and, if it wraps another error, \<open>_chain\<close> with all messages from the
  outermost in; every other field is untouched and no other key appears.\<close>

theorem enrichErrors_spec:
  assumes "gomap_ok fs" and "clash_free fs"
  shows "gomap_ok (enrichErrors fs) \<and>
    ((k, VError e) \<in> set fs \<longrightarrow>
       map_of (enrichErrors fs) k = Some (VString (err_Error e)) \<and>
       map_of (enrichErrors fs) (k @ ''_type'') = Some (VString (err_type e)) \<and>
       map_of (enrichErrors fs) (k @ ''_chain'') =
         (if err_Unwrap e = None then None else Some (VStrings (error_chain e)))) \<and>
    ((\<forall>(k', v) \<in> set fs. \<forall>e'. error_of v = Some e' \<longrightarrow> x \<notin> error_keys k' e') \<longrightarrow>
       map_of (enrichErrors fs) x = map_of fs x)"
proof -
  have len: "length fs = 0 \<Longrightarrow> enrichErrors fs = fs" by (simp add: enrichErrors_def)
  have scan: "map_of (enrichErrors fs) x = map_of (scanned fs (enrich_range fs fs None)) x" for x
    by (cases fs) (simp_all add: enrichErrors_def)
  have err: "map_of (enrichErrors fs) x = map_of (put_error k e []) x"
    if "(k, VError e) \<in> set fs" "x \<in> error_keys k e" for x
    unfolding scan using assms that error_keys_disjoint [OF assms(2)]
    by (intro enrich_range_error) blast+
  have other: "map_of (enrichErrors fs) x = map_of fs x"
    if "\<forall>(k', v) \<in> set fs. \<forall>e'. error_of v = Some e' \<longrightarrow> x \<notin> error_keys k' e'" for x
    unfolding scan using that by (subst enrich_range_frame [OF assms(1)]) fastforce+
  have chain: "map_of (enrichErrors fs) (k @ ''_chain'') = None"
    if k: "(k, VError e) \<in> set fs" and u: "err_Unwrap e = None"
  proof -
    define S where "S = set (keys fs)"
    have S: "k @ ''_chain'' \<notin> S" using k assms(2) unfolding clash_free_def S_def by fastforce
    have "k @ ''_chain'' \<notin> error_keys k' e'" if k': "(k', VError e') \<in> set fs" for k' e'
    proof (cases "k' = k")
      case True
      then have "e' = e" using gomap_ok_unique [OF assms(1) k] k' by auto
      then show ?thesis using u True by (simp add: error_keys_def)
    next
      case False
      have "k' \<in> S" using k' by (force simp: S_def image_iff)
      with S False show ?thesis
        using same_suffix_keys [of k k'] by (auto simp: error_keys_def split: if_splits)
    qed
    then have "map_of (enrichErrors fs) (k @ ''_chain'') = map_of fs (k @ ''_chain'')"
      by (intro other) auto
    then show ?thesis using S by (simp add: S_def map_of_eq_None_iff)
  qed
  show ?thesis
    using assms(1) err chain other by (auto simp: error_keys_def put_error_lookup)
qed

theorem enrichErrors_spec_witness:
  "map_of (enrichErrors [(''err'', VError (GoErr ''*fmt.wrapError'' ''read: EOF'' (Some (GoErr ''*errors.errorString'' ''EOF'' None)))),
      (''id'', VInt 7)]) ''err_chain'' = Some (VStrings [''read: EOF'', ''EOF''])"
  using enrichErrors_spec
    [of "[(''err'', VError (GoErr ''*fmt.wrapError'' ''read: EOF'' (Some (GoErr ''*errors.errorString'' ''EOF'' None)))),
      (''id'', VInt 7)]" "''err''" "GoErr ''*fmt.wrapError'' ''read: EOF'' (Some (GoErr ''*errors.errorString'' ''EOF'' None))" "''id''"]
  by (simp add: gomap_ok_def clash_free_def error_chain_def)

text \<open>Without that condition the result depends on the order in which Go visits the map.\<close>

text \<open>Two error fields where one key is the other's with \<open>_type\<close> make the logged entry depend on
  the map's iteration order: both orders are possible runs of the same call.\<close>

theorem enrichErrors_order_dependent:
  "\<exists>fs fs'. gomap_ok fs \<and> gomap_ok fs' \<and> same_map fs fs' \<and>
     \<not> same_map (enrichErrors fs) (enrichErrors fs')"
proof -
  define e1 where "e1 = GoErr ''*os.PathError'' ''open: denied'' None"
  define e2 where "e2 = GoErr ''*errors.errorString'' ''bad type'' None"
  define fs where "fs = [(''e'', VError e1), (''e_type'', VError e2)]"
  define fs' where "fs' = [(''e_type'', VError e2), (''e'', VError e1)]"
  have "map_of (enrichErrors fs) ''e_type'' = Some (VString ''bad type'')"
    by (simp add: fs_def e1_def e2_def enrichErrors_def put_error_lookup copied_def)
  moreover have "map_of (enrichErrors fs') ''e_type'' = Some (VString ''*os.PathError'')"
    by (simp add: fs'_def e1_def e2_def enrichErrors_def put_error_lookup copied_def)
  ultimately have "map_of (enrichErrors fs) \<noteq> map_of (enrichErrors fs')" by auto
  moreover have "gomap_ok fs" "gomap_ok fs'" "same_map fs fs'"
    by (auto simp: fs_def fs'_def gomap_ok_def same_map_def)
  ultimately have "gomap_ok fs \<and> gomap_ok fs' \<and> same_map fs fs' \<and>
      \<not> same_map (enrichErrors fs) (enrichErrors fs')"
    by (simp add: same_map_def)
  then show ?thesis by blast
qed

end
