(* ===== verification/LogField.thy ===== *)
theory LogField
  imports GoValues
begin

text \<open>
  \<open>field.go\<close>: typed fields. A \<open>Field\<close> is a key, a type tag and one slot per representation;
  \<open>Value\<close> reads the slot that the tag names. The constructors fill the slot and the tag, and
  \<open>fieldsToMap\<close> turns a list of fields into the map that the logging methods take.
\<close>

type_synonym field_type = "8 word"

definition FieldTypeAny :: field_type where "FieldTypeAny = 0"
definition FieldTypeString :: field_type where "FieldTypeString = 1"
definition FieldTypeInt :: field_type where "FieldTypeInt = 2"
definition FieldTypeInt64 :: field_type where "FieldTypeInt64 = 3"
definition FieldTypeFloat64 :: field_type where "FieldTypeFloat64 = 4"
definition FieldTypeBool :: field_type where "FieldTypeBool = 5"
definition FieldTypeError :: field_type where "FieldTypeError = 6"
definition FieldTypeDuration :: field_type where "FieldTypeDuration = 7"

lemmas field_types = FieldTypeAny_def FieldTypeString_def FieldTypeInt_def FieldTypeInt64_def
  FieldTypeFloat64_def FieldTypeBool_def FieldTypeError_def FieldTypeDuration_def

record field =
  Key :: string
  Type_tag :: field_type
  Integer :: "64 word"
  Float :: "64 word"
  Str :: string
  Interface :: gval

definition Value :: "field \<Rightarrow> gval" where
  "Value f =
     (if Type_tag f = FieldTypeString then VString (Str f)
      else if Type_tag f = FieldTypeInt \<or> Type_tag f = FieldTypeInt64 then VInt64 (Integer f)
      else if Type_tag f = FieldTypeFloat64 then VFloat64 (Float f)
      else if Type_tag f = FieldTypeBool then VBool (Integer f \<noteq> 0)
      else if Type_tag f = FieldTypeError then
        (if Interface f = VNil then VNil else Interface f)
      else if Type_tag f = FieldTypeDuration then VString (duration_String (Integer f))
      else Interface f)"

text \<open>The zero value of the struct, and the constructors as updates of it.\<close>

definition zero_field :: field where
  "zero_field = \<lparr>Key = [], Type_tag = 0, Integer = 0, Float = 0, Str = [], Interface = VNil\<rparr>"

definition String_field :: "string \<Rightarrow> string \<Rightarrow> field" where
  "String_field key val = zero_field\<lparr>Key := key, Type_tag := FieldTypeString, Str := val\<rparr>"

definition Int_field :: "string \<Rightarrow> 64 word \<Rightarrow> field" where
  "Int_field key val = zero_field\<lparr>Key := key, Type_tag := FieldTypeInt, Integer := val\<rparr>"

definition Int64_field :: "string \<Rightarrow> 64 word \<Rightarrow> field" where
  "Int64_field key val = zero_field\<lparr>Key := key, Type_tag := FieldTypeInt64, Integer := val\<rparr>"

definition Float64_field :: "string \<Rightarrow> 64 word \<Rightarrow> field" where
  "Float64_field key val = zero_field\<lparr>Key := key, Type_tag := FieldTypeFloat64, Float := val\<rparr>"

definition Bool_field :: "string \<Rightarrow> bool \<Rightarrow> field" where
  "Bool_field key val =
     (let f = zero_field\<lparr>Key := key, Type_tag := FieldTypeBool\<rparr>
      in if val then f\<lparr>Integer := 1\<rparr> else f)"

text \<open>\<open>Err(nil)\<close> is the case \<open>None\<close>: the interface slot stays nil.\<close>

definition Err_field :: "goerr option \<Rightarrow> field" where
  "Err_field e =
     zero_field\<lparr>Key := ''error'', Type_tag := FieldTypeError,
       Interface := (case e of None \<Rightarrow> VNil | Some x \<Rightarrow> VError x)\<rparr>"

definition Duration_field :: "string \<Rightarrow> 64 word \<Rightarrow> field" where
  "Duration_field key val = zero_field\<lparr>Key := key, Type_tag := FieldTypeDuration, Integer := val\<rparr>"

definition Any_field :: "string \<Rightarrow> gval \<Rightarrow> field" where
  "Any_field key val = zero_field\<lparr>Key := key, Type_tag := FieldTypeAny, Interface := val\<rparr>"

lemmas field_ctors = String_field_def Int_field_def Int64_field_def Float64_field_def
  Bool_field_def Err_field_def Duration_field_def Any_field_def zero_field_def

fun put_fields :: "field list \<Rightarrow> fields \<Rightarrow> fields" where
  "put_fields [] m = m"
| "put_fields (f # fs) m = put_fields fs (put (Key f) (Value f) m)"

definition Group_field :: "string \<Rightarrow> field list \<Rightarrow> field" where
  "Group_field key fs = zero_field\<lparr>Key := key, Type_tag := FieldTypeAny, Interface := VMap (put_fields fs [])\<rparr>"

definition fieldsToMap :: "field list \<Rightarrow> fields" where
  "fieldsToMap fs = (if length fs = 0 then [] else put_fields fs [])"

lemma put_fields_ok [simp, intro]: "gomap_ok m \<Longrightarrow> gomap_ok (put_fields fs m)"
  by (induction fs arbitrary: m) auto

lemma put_fields_lookup:
  "map_of (put_fields fs m) = map_of m ++ map_of (rev (map (\<lambda>f. (Key f, Value f)) fs))"
proof (induction fs arbitrary: m)
  case Nil
  then show ?case by simp
next
  case (Cons f fs)
  then show ?case
    by (simp add: fun_eq_iff map_add_def map_of_append split: option.splits)
qed

lemma fieldsToMap_ok [simp, intro]: "gomap_ok (fieldsToMap fs)"
  by (simp add: fieldsToMap_def put_fields_ok)

lemma fieldsToMap_lookup:
  "map_of (fieldsToMap fs) = map_of (rev (map (\<lambda>f. (Key f, Value f)) fs))"
  by (simp add: fieldsToMap_def put_fields_lookup)

text \<open>Every typed constructor stores its argument so that \<open>Value\<close> gives it back: an \<open>int\<close>
  as \<open>int64\<close>, a duration as its text, a nil error as nil, a group as the map of its fields.\<close>

theorem field_constructor_values:
  "Key (String_field k s) = k \<and> Value (String_field k s) = VString s \<and>
   Key (Int_field k i) = k \<and> Value (Int_field k i) = VInt64 i \<and>
   Key (Int64_field k i) = k \<and> Value (Int64_field k i) = VInt64 i \<and>
   Key (Float64_field k x) = k \<and> Value (Float64_field k x) = VFloat64 x \<and>
   Key (Bool_field k b) = k \<and> Value (Bool_field k b) = VBool b \<and>
   Key (Err_field e) = ''error'' \<and> Value (Err_field e) = (case e of None \<Rightarrow> VNil | Some x \<Rightarrow> VError x) \<and>
   Key (Duration_field k d) = k \<and> Value (Duration_field k d) = VString (duration_String d) \<and>
   Key (Any_field k v) = k \<and> Value (Any_field k v) = v \<and>
   Key (Group_field k fs) = k \<and> Value (Group_field k fs) = VMap (fieldsToMap fs)"
  by (auto simp: field_ctors Group_field_def Value_def field_types fieldsToMap_def Let_def split: option.splits)

text \<open>\<open>fieldsToMap\<close> gives a well-formed map in which each key has the value of the last field
  with that key, and keys of no field are absent.\<close>

theorem fieldsToMap_last_wins:
  "gomap_ok (fieldsToMap fs) \<and>
   map_of (fieldsToMap fs) k =
     map_option Value (find (\<lambda>f. Key f = k) (rev fs))"
proof -
  have "map_of (map (\<lambda>f. (Key f, Value f)) gs) k = map_option Value (find (\<lambda>f. Key f = k) gs)" for gs
    by (induction gs) auto
  then show ?thesis by (simp add: fieldsToMap_lookup rev_map)
qed

end
