(* ===== verification/LogRedact.thy ===== *)
theory LogRedact
  imports LogFormatter
begin

text \<open>
  \<open>redact.go\<close>: the middleware that replaces the values of sensitive fields, at every depth of
  nested maps. The Go function overwrites the maps in place; the model returns the map as it is
  afterwards. A middleware is a function from an entry to an entry, or to nothing (Go's nil) when it
  drops the entry.
\<close>

type_synonym middleware = "fields \<Rightarrow> fields option"

function redactMap :: "string list \<Rightarrow> string \<Rightarrow> fields \<Rightarrow> fields" where
  "redactMap fs replacement [] = []"
| "redactMap fs replacement ((k, v) # r) =
     (if k \<in> set fs then (k, VString replacement)
      else (case v of
              VMap nested \<Rightarrow> (k, VMap (redactMap fs replacement nested))
            | _ \<Rightarrow> (k, v)))
     # redactMap fs replacement r"
  by pat_completeness auto
termination
  by (relation "measure (\<lambda>(_, _, m). size_list (size_prod (\<lambda>_. 0) size) m)") auto

text \<open>The middleware that the options \<open>WithRedactFieldsFunc\<close> and \<open>WithRedactFields\<close> register (see \<open>LogCore\<close>).\<close>

definition redact_middleware :: "string \<Rightarrow> string list \<Rightarrow> middleware" where
  "redact_middleware replacement fs = (\<lambda>entry. Some (redactMap fs replacement entry))"

section \<open>What is replaced and what is kept\<close>

definition redact_value :: "string list \<Rightarrow> string \<Rightarrow> gval \<Rightarrow> gval" where
  "redact_value fs r v = (case v of VMap nested \<Rightarrow> VMap (redactMap fs r nested) | _ \<Rightarrow> v)"

lemma redactMap_Cons:
  "redactMap fs r ((k, v) # m) =
     (k, if k \<in> set fs then VString r else redact_value fs r v) # redactMap fs r m"
  by (simp add: redact_value_def split: gval.split)

lemma redactMap_map:
  "redactMap fs r m = map (\<lambda>(k, v). (k, if k \<in> set fs then VString r else redact_value fs r v)) m"
  by (induction m) (auto simp: redactMap_Cons simp del: redactMap.simps(2))

lemma keys_redactMap [simp]: "keys (redactMap fs r m) = keys m"
  by (simp add: redactMap_map split_def comp_def)

lemma redactMap_ok [simp]: "gomap_ok (redactMap fs r m) \<longleftrightarrow> gomap_ok m"
  by (simp add: gomap_ok_def)

lemma redactMap_lookup [map_simps]:
  "map_of (redactMap fs r m) k =
     (if k \<in> set fs then map_option (\<lambda>_. VString r) (map_of m k)
      else map_option (redact_value fs r) (map_of m k))"
  by (induction m) (auto simp: redactMap_Cons simp del: redactMap.simps(2))

text \<open>Every key with its value, at every depth of nested maps.\<close>

function exposed :: "fields \<Rightarrow> (string \<times> gval) list" where
  "exposed [] = []"
| "exposed ((k, v) # r) =
     (k, v) # (case v of VMap nested \<Rightarrow> exposed nested | _ \<Rightarrow> []) @ exposed r"
  by pat_completeness auto
termination
  by (relation "measure (size_list (size_prod (\<lambda>_. 0) size))") auto

lemma exposed_redacted:
  "(k, v) \<in> set (exposed (redactMap fs r m)) \<Longrightarrow> k \<in> set fs \<Longrightarrow> v = VString r"
proof (induction m rule: exposed.induct)
  case (2 k' v' m)
  then show ?case by (auto split: if_splits gval.splits)
qed simp

text \<open>C6: After redaction no named key has any value but the replacement, at any depth of nested maps;
  the keys are those of the entry, and a field that is not named keeps its value up to redaction
  inside it.\<close>

theorem redactMap_no_leak:
  "keys (redactMap fs r m) = keys m \<and>
   (\<forall>(k, v) \<in> set (exposed (redactMap fs r m)). k \<in> set fs \<longrightarrow> v = VString r) \<and>
   (\<forall>k v. k \<notin> set fs \<longrightarrow> map_of m k = Some v \<longrightarrow>
      map_of (redactMap fs r m) k = Some (redact_value fs r v))"
  using exposed_redacted [of _ _ fs r m] by (auto simp: map_simps)

theorem redactMap_no_leak_witness:
  "map_of (redactMap [''password''] ''***'' [(''user'', VMap [(''password'', VString ''x'')]), (''n'', VInt 1)]) ''n''
     = Some (VInt 1)"
  using redactMap_no_leak [of "[''password'']" "''***''"
      "[(''user'', VMap [(''password'', VString ''x'')]), (''n'', VInt 1)]"]
  by (simp add: redact_value_def)

section \<open>Non-interference\<close>

text \<open>Two entries that differ only in the values of named keys, at any depth.\<close>

function low_equal :: "string list \<Rightarrow> fields \<Rightarrow> fields \<Rightarrow> bool" where
  "low_equal fs [] m' \<longleftrightarrow> m' = []"
| "low_equal fs ((k, v) # m) m' \<longleftrightarrow>
     (case m' of
        [] \<Rightarrow> False
      | (k', v') # r' \<Rightarrow>
          k = k' \<and>
          (k \<in> set fs \<or> v = v' \<or>
           (case v of
              VMap n \<Rightarrow> (case v' of VMap n' \<Rightarrow> low_equal fs n n' | _ \<Rightarrow> False)
            | _ \<Rightarrow> False)) \<and>
          low_equal fs m r')"
  by pat_completeness auto
termination
  by (relation "measure (\<lambda>(_, m, _). size_list (size_prod (\<lambda>_. 0) size) m)") auto

lemma redactMap_low_equal: "low_equal fs m m' \<Longrightarrow> redactMap fs r m = redactMap fs r m'"
proof (induction fs m m' rule: low_equal.induct)
  case (2 fs k v m m')
  from "2.prems" obtain v' r' where m': "m' = (k, v') # r'" and rest: "low_equal fs m r'"
    by (auto split: list.splits prod.splits)
  have "redactMap fs r m = redactMap fs r r'"
    using "2.IH"(2) [OF m' refl rest] .
  moreover have "k \<in> set fs \<or> redact_value fs r v = redact_value fs r v'"
  proof (cases "k \<in> set fs \<or> v = v'")
    case False
    then obtain n n' where v: "v = VMap n" "v' = VMap n'" and low: "low_equal fs n n'"
      using "2.prems" m' by (auto split: gval.splits)
    from "2.IH"(1) [OF m' refl v low] have "redactMap fs r n = redactMap fs r n'" .
    then show ?thesis by (simp add: v redact_value_def)
  qed auto
  ultimately show ?case
    by (auto simp: m' redactMap_Cons simp del: redactMap.simps(2))
qed simp

text \<open>C31: What any formatter writes for a redacted entry is independent of the values of the named keys,
  at any depth of nested maps: two entries that differ only there give the same bytes.\<close>

theorem redaction_noninterference:
  assumes "low_equal fs m m'"
  shows "map_option (Format f) (redact_middleware r fs m) = map_option (Format f) (redact_middleware r fs m')"
  using redactMap_low_equal [OF assms] by (simp add: redact_middleware_def)

theorem redaction_noninterference_witness:
  "map_option (Format (JSONFormatter []))
     (redact_middleware ''***'' [''pin''] [(''card'', VMap [(''pin'', VInt 1234)])]) =
   map_option (Format (JSONFormatter []))
     (redact_middleware ''***'' [''pin''] [(''card'', VMap [(''pin'', VInt 9)])])"
  by (rule redaction_noninterference) simp

lemma redactMap_twice: "redactMap fs r (redactMap gs r m) = redactMap (fs @ gs) r m"
proof (induction m rule: exposed.induct)
  case (2 k v m)
  then show ?case by (cases v) auto
qed simp

text \<open>Redaction is idempotent, and redacting two sets of fields in turn with one replacement is
  redacting their union.\<close>

theorem redaction_composes:
  "redactMap fs r (redactMap gs r m) = redactMap (fs @ gs) r m \<and>
   redactMap fs r (redactMap fs r m) = redactMap fs r m"
proof -
  have "redactMap (fs @ fs) r m = redactMap fs r m"
  proof (induction m rule: exposed.induct)
    case (2 k v m)
    then show ?case by (cases v) auto
  qed simp
  then show ?thesis by (simp add: redactMap_twice)
qed

text \<open>The recursion follows maps only: a map inside a list keeps its sensitive fields, and they reach
  the output.\<close>

theorem redaction_skips_lists:
  "map_option (Format (JSONFormatter []))
     (redact_middleware ''[REDACTED]'' [''password'']
       [(''users'', VList [VMap [(''password'', VString ''hunter2'')]])])
   = Some (Inr (''{\"users\":[{\"password\":\"hunter2\"}]}''))"
  by code_simp

end
