(* ===== verification/LogSampler.thy ===== *)
theory LogSampler
  imports LogLevel "HOL-Library.Signed_Division"
begin

text \<open>
  \<open>sampler.go\<close>: the two samplers. Both keep one slot per level in an array of six; a level past
  the end of the array is always allowed, a negative one indexes the array out of range, which in Go
  is a panic (\<open>None\<close>). Counters are 64-bit words that wrap around. The clock reading of a call
  is an argument, in nanoseconds since the zero \<open>time.Time\<close>.
\<close>

section \<open>Every Nth entry\<close>

record every_n =
  en_n :: "64 word"
  en_counts :: "(64 word) list"

definition NewEveryNSampler :: "64 word \<Rightarrow> every_n" where
  "NewEveryNSampler n = \<lparr>en_n = (if sint n \<le> 0 then 1 else n), en_counts = replicate 6 0\<rparr>"

text \<open>The index of a level, if the array has it.\<close>

definition slot_of :: "level \<Rightarrow> nat" where
  "slot_of l = nat (level_int l)"

definition everyN_Sample :: "every_n \<Rightarrow> level \<Rightarrow> (bool \<times> every_n) option" where
  "everyN_Sample s l =
     (if level_int l \<ge> int (length (en_counts s)) then Some (True, s)
      else if level_int l < 0 then None
      else
        (let count = en_counts s ! slot_of l + 1
         in Some (sint (count - 1) smod sint (en_n s) = 0,
                  s\<lparr>en_counts := (en_counts s)[slot_of l := count]\<rparr>)))"

section \<open>Entries per second\<close>

record rate_bucket =
  rb_count :: "64 word"
  rb_resetAt :: int

record rate_sampler =
  perSecond :: "64 word"
  buckets :: "rate_bucket list"

definition second :: int where
  "second = 1000000000"

definition NewRateSampler :: "64 word \<Rightarrow> rate_sampler" where
  "NewRateSampler n =
     \<lparr>perSecond = (if sint n \<le> 0 then 1 else n),
      buckets = replicate 6 \<lparr>rb_count = 0, rb_resetAt = 0\<rparr>\<rparr>"

definition bucket_step :: "64 word \<Rightarrow> int \<Rightarrow> rate_bucket \<Rightarrow> bool \<times> rate_bucket" where
  "bucket_step n now b =
     (let b = (if rb_resetAt b < now then b\<lparr>rb_count := 0, rb_resetAt := now + second\<rparr> else b);
          b = b\<lparr>rb_count := rb_count b + 1\<rparr>
      in (sint (rb_count b) \<le> sint n, b))"

definition rate_Sample :: "int \<Rightarrow> rate_sampler \<Rightarrow> level \<Rightarrow> (bool \<times> rate_sampler) option" where
  "rate_Sample now s l =
     (if level_int l \<ge> int (length (buckets s)) then Some (True, s)
      else if level_int l < 0 then None
      else
        (let (ok, b) = bucket_step (perSecond s) now (buckets s ! slot_of l)
         in Some (ok, s\<lparr>buckets := (buckets s)[slot_of l := b]\<rparr>)))"

section \<open>Sequences of calls\<close>

text \<open>
  The calls that a sampler sees, in order, each with its clock reading and level; the decisions it
  makes, and those of one slot alone.
\<close>

fun decisions ::
  "('c \<Rightarrow> 's \<Rightarrow> level \<Rightarrow> (bool \<times> 's) option) \<Rightarrow> 's \<Rightarrow> ('c \<times> level) list \<Rightarrow> (level \<times> bool) list option" where
  "decisions sample s [] = Some []"
| "decisions sample s ((c, l) # calls) =
     (case sample c s l of
        None \<Rightarrow> None
      | Some (ok, s') \<Rightarrow> map_option (Cons (l, ok)) (decisions sample s' calls))"

fun slot_decisions :: "('c \<Rightarrow> 'b \<Rightarrow> bool \<times> 'b) \<Rightarrow> 'b \<Rightarrow> 'c list \<Rightarrow> bool list" where
  "slot_decisions step b [] = []"
| "slot_decisions step b (c # cs) = fst (step c b) # slot_decisions step (snd (step c b)) cs"

definition calls_at :: "level \<Rightarrow> ('c \<times> level) list \<Rightarrow> 'c list" where
  "calls_at l calls = map fst (filter (\<lambda>(c, k). k = l) calls)"

definition at_level :: "level \<Rightarrow> (level \<times> bool) list \<Rightarrow> bool list" where
  "at_level l ds = map snd (filter (\<lambda>(k, ok). k = l) ds)"

lemma calls_at_append: "calls_at l (xs @ ys) = calls_at l xs @ calls_at l ys"
  by (simp add: calls_at_def)

lemma length_calls_at: "length (calls_at l calls) \<le> length calls"
  by (simp add: calls_at_def)

section \<open>The interface of a sampler\<close>

text \<open>
  The contract behind "per level": the six levels never panic, and a call decides and updates only
  from the slot of its own level. In every interleaving of calls, the decisions at a level are then
  those of the calls at that level alone.
\<close>

locale level_sampler =
  fixes sample :: "'c \<Rightarrow> 's \<Rightarrow> level \<Rightarrow> (bool \<times> 's) option"
    and slot :: "'s \<Rightarrow> level \<Rightarrow> 'b"
    and step :: "'c \<Rightarrow> 'b \<Rightarrow> bool \<times> 'b"
    and inv :: "'s \<Rightarrow> bool"
  assumes sample_slot: "inv s \<Longrightarrow> l \<in> set named_levels \<Longrightarrow>
      \<exists>s'. sample c s l = Some (fst (step c (slot s l)), s') \<and> inv s' \<and>
        slot s' l = snd (step c (slot s l)) \<and>
        (\<forall>k \<in> set named_levels. k \<noteq> l \<longrightarrow> slot s' k = slot s k)"
begin

lemma levels_independent:
  assumes "inv s" and "\<forall>(c, l) \<in> set calls. l \<in> set named_levels"
  shows "\<exists>ds. decisions sample s calls = Some ds \<and>
    (\<forall>l \<in> set named_levels. at_level l ds = slot_decisions step (slot s l) (calls_at l calls))"
  using assms
proof (induction calls arbitrary: s)
  case Nil
  then show ?case by (simp add: at_level_def calls_at_def)
next
  case (Cons cl calls)
  obtain c l where cl: "cl = (c, l)" by force
  from Cons.prems cl have l: "l \<in> set named_levels" by simp
  obtain s' where s': "sample c s l = Some (fst (step c (slot s l)), s')" "inv s'"
      "slot s' l = snd (step c (slot s l))"
      "\<forall>k \<in> set named_levels. k \<noteq> l \<longrightarrow> slot s' k = slot s k"
    using sample_slot [OF Cons.prems(1) l, of c] by blast
  obtain ds where ds: "decisions sample s' calls = Some ds"
      "\<forall>l \<in> set named_levels. at_level l ds = slot_decisions step (slot s' l) (calls_at l calls)"
    using Cons.IH [OF s'(2)] Cons.prems(2) by auto
  show ?case
    using ds s' by (auto simp: cl at_level_def calls_at_def)
qed

end

lemma named_slot: "l \<in> set named_levels \<Longrightarrow> 0 \<le> level_int l \<and> level_int l < 6 \<and> slot_of l < 6"
  by (auto simp: named_levels_def level_consts slot_of_def)

lemma slot_of_inject:
  "l \<in> set named_levels \<Longrightarrow> k \<in> set named_levels \<Longrightarrow> slot_of l = slot_of k \<Longrightarrow> l = k"
  by (metis eq_nat_nat_iff level_int_imp named_slot slot_of_def)

definition everyN_slot :: "every_n \<Rightarrow> level \<Rightarrow> 64 word \<times> 64 word" where
  "everyN_slot s l = (en_n s, en_counts s ! slot_of l)"

definition everyN_step :: "int \<Rightarrow> 64 word \<times> 64 word \<Rightarrow> bool \<times> 64 word \<times> 64 word" where
  "everyN_step c p = (sint (snd p) smod sint (fst p) = 0, (fst p, snd p + 1))"

interpretation every_nth: level_sampler "\<lambda>c :: int. everyN_Sample" everyN_slot everyN_step
  "\<lambda>s. length (en_counts s) = 6"
proof (unfold_locales, goal_cases)
  case (1 s l c)
  then show ?case
    using named_slot [OF 1(2)] slot_of_inject [OF 1(2)]
    by (auto simp: everyN_Sample_def everyN_slot_def everyN_step_def Let_def nth_list_update)
qed

definition rate_slot :: "rate_sampler \<Rightarrow> level \<Rightarrow> 64 word \<times> rate_bucket" where
  "rate_slot s l = (perSecond s, buckets s ! slot_of l)"

definition rate_step :: "int \<Rightarrow> 64 word \<times> rate_bucket \<Rightarrow> bool \<times> 64 word \<times> rate_bucket" where
  "rate_step now p =
     (fst (bucket_step (fst p) now (snd p)), (fst p, snd (bucket_step (fst p) now (snd p))))"

interpretation per_second: level_sampler rate_Sample rate_slot rate_step
  "\<lambda>s. length (buckets s) = 6"
proof (unfold_locales, goal_cases)
  case (1 s l c)
  then show ?case
    using named_slot [OF 1(2)] slot_of_inject [OF 1(2)]
    by (auto simp: rate_Sample_def rate_slot_def rate_step_def nth_list_update split: prod.split)
qed

section \<open>The guarantee of the Nth-entry sampler\<close>

lemma sint_bump:
  "sint (w :: 64 word) < 2 ^ 63 - 1 \<Longrightarrow> sint (w + 1) = sint w + 1"
  using sint_range_size [of w]
  by (simp add: signed_take_bit_int_eq_self sint_word_ariths word_size)

lemma everyN_step_parts:
  "fst (everyN_step c (n, w)) \<longleftrightarrow> sint w smod sint n = 0" "snd (everyN_step c (n, w)) = (n, w + 1)"
  by (simp_all add: everyN_step_def)

lemma everyN_slot_decisions:
  assumes "0 < sint n" and "0 \<le> sint w" and "sint w + int (length cs) < 2 ^ 63"
  shows "slot_decisions everyN_step (n, w) cs =
    map (\<lambda>i. (sint w + int i) mod sint n = 0) [0..<length cs]"
  using assms(2,3)
proof (induction cs arbitrary: w)
  case (Cons c cs)
  have bump: "sint (w + 1) = sint w + 1" using Cons.prems by (intro sint_bump) simp
  have "slot_decisions everyN_step (n, w + 1) cs =
      map (\<lambda>i. (sint w + 1 + int i) mod sint n = 0) [0..<length cs]"
    using Cons.IH [of "w + 1"] Cons.prems bump by simp
  also have "\<dots> = map (\<lambda>i. (sint w + int i) mod sint n = 0) (map Suc [0..<length cs])"
    by (simp add: comp_def add.assoc)
  finally show ?case
    using assms(1) Cons.prems(1)
    by (simp add: everyN_step_parts smod_mod_positive upt_conv_Cons map_Suc_upt
        del: upt_Suc)
qed simp

text \<open>C11: At every level, in any interleaving with calls at other levels, the sampler passes exactly the
  calls number 0, n, 2n and so on (a non-positive \<open>n\<close> counts as 1), until the counter wraps.\<close>

theorem EveryNSampler_every_nth:
  assumes "\<forall>(c, l) \<in> set calls. l \<in> set named_levels" and "int (length calls) < 2 ^ 63"
  shows "\<exists>ds. decisions (\<lambda>c :: int. everyN_Sample) (NewEveryNSampler n) calls = Some ds \<and>
    (\<forall>l \<in> set named_levels. at_level l ds =
       map (\<lambda>i. int i mod max 1 (sint n) = 0) [0..<length (calls_at l calls)])"
proof -
  let ?s = "NewEveryNSampler n"
  have pos: "sint (en_n ?s) = max 1 (sint n)"
    by (simp add: NewEveryNSampler_def)
  have "slot_decisions everyN_step (everyN_slot ?s l) (calls_at l calls) =
      map (\<lambda>i. int i mod max 1 (sint n) = 0) [0..<length (calls_at l calls)]"
    if "l \<in> set named_levels" for l
  proof -
    have "int (length (calls_at l calls)) < 2 ^ 63"
      using length_calls_at [of l calls] assms(2) by linarith
    then show ?thesis
      using everyN_slot_decisions [of "en_n ?s" 0 "calls_at l calls"] pos named_slot [OF that]
      by (simp add: everyN_slot_def NewEveryNSampler_def)
  qed
  then show ?thesis
    using every_nth.levels_independent [of ?s calls] assms(1)
    by (auto simp: NewEveryNSampler_def)
qed

theorem EveryNSampler_every_nth_witness:
  "\<exists>ds. decisions (\<lambda>c :: int. everyN_Sample) (NewEveryNSampler 2) [(0, INFO), (0, DEBUG), (0, INFO), (0, INFO)] = Some ds \<and>
     at_level INFO ds = [True, False, True]"
  using EveryNSampler_every_nth [of "[(0, INFO), (0, DEBUG), (0, INFO), (0, INFO)]" 2]
  by (simp add: named_levels_def calls_at_def level_consts upt_conv_Cons) blast

section \<open>The guarantee of the rate sampler\<close>

abbreviation allowed :: "bool list \<Rightarrow> nat" where
  "allowed ds \<equiv> length (filter (\<lambda>d. d) ds)"

lemma rate_step_parts:
  "fst (rate_step now (n, b)) = fst (bucket_step n now b)"
  "snd (rate_step now (n, b)) = (n, snd (bucket_step n now b))"
  by (simp_all add: rate_step_def)

lemma bucket_step_same:
  "now \<le> rb_resetAt b \<Longrightarrow>
     bucket_step n now b =
       (sint (rb_count b + 1) \<le> sint n, b\<lparr>rb_count := rb_count b + 1\<rparr>)"
  by (simp add: bucket_step_def Let_def)

lemma bucket_step_new:
  "rb_resetAt b < now \<Longrightarrow>
     bucket_step n now b = (1 \<le> sint n, b\<lparr>rb_count := 1, rb_resetAt := now + second\<rparr>)"
  by (simp add: bucket_step_def Let_def)

text \<open>Inside one window the rest of the budget is given out first come, first served.\<close>

lemma window_decisions:
  assumes "\<forall>t \<in> set cs. t \<le> rb_resetAt b" and "0 \<le> sint (rb_count b)"
    and "sint (rb_count b) + int (length cs) < 2 ^ 63"
  shows "slot_decisions rate_step (n, b) cs =
    map (\<lambda>i. sint (rb_count b) + int i < sint n) [0..<length cs]"
  using assms
proof (induction cs arbitrary: b)
  case (Cons t cs)
  let ?b = "b\<lparr>rb_count := rb_count b + 1\<rparr>"
  have bump: "sint (rb_count b + 1) = sint (rb_count b) + 1"
    using Cons.prems by (intro sint_bump) simp
  have "slot_decisions rate_step (n, ?b) cs =
      map (\<lambda>i. sint (rb_count b) + 1 + int i < sint n) [0..<length cs]"
    using Cons.IH [of ?b] Cons.prems bump by simp
  also have "\<dots> = map (\<lambda>i. sint (rb_count b) + int i < sint n) (map Suc [0..<length cs])"
    by (simp add: comp_def add.assoc)
  finally show ?case
    using Cons.prems bump
    by (auto simp: rate_step_parts bucket_step_same upt_conv_Cons map_Suc_upt simp del: upt_Suc)
qed simp

lemma allowed_prefix: "allowed (map (\<lambda>i. c + int i < n) [0..<k]) \<le> nat (n - c)"
proof -
  have "filter (\<lambda>d. d) (map (\<lambda>i. c + int i < n) [0..<k]) =
      map (\<lambda>i. c + int i < n) (filter (\<lambda>i. c + int i < n) [0..<k])"
    by (simp add: filter_map comp_def)
  moreover have "length (filter (\<lambda>i. c + int i < n) [0..<k]) = card {i. i < k \<and> c + int i < n}"
    by (auto simp: length_filter_conv_card intro!: arg_cong [where f = card])
  moreover have "card {i. i < k \<and> c + int i < n} \<le> card {..<nat (n - c)}"
    by (rule card_mono) auto
  ultimately show ?thesis by simp
qed

lemma interval_allowed:
  assumes "\<forall>u \<in> set cs. t \<le> u \<and> u \<le> t + second" and "1 \<le> sint n"
    and "0 \<le> sint (rb_count b)" and "sint (rb_count b) + int (length cs) < 2 ^ 63"
  shows "allowed (slot_decisions rate_step (n, b) cs) \<le>
    (if \<forall>u \<in> set cs. rb_resetAt b < u then 0 else nat (sint n - sint (rb_count b))) + nat (sint n)"
  using assms
proof (induction cs arbitrary: b)
  case (Cons u cs)
  show ?case
  proof (cases "rb_resetAt b < u")
    case True
    let ?b = "b\<lparr>rb_count := 1, rb_resetAt := u + second\<rparr>"
    have "\<forall>v \<in> set cs. v \<le> rb_resetAt ?b" using Cons.prems(1) by auto
    then have "slot_decisions rate_step (n, ?b) cs = map (\<lambda>i. 1 + int i < sint n) [0..<length cs]"
      using window_decisions [of cs ?b n] Cons.prems(3,4) by simp
    then have "allowed (slot_decisions rate_step (n, b) (u # cs)) \<le> 1 + nat (sint n - 1)"
      using True allowed_prefix [of 1 "sint n" "length cs"]
      by (simp add: rate_step_parts bucket_step_new)
    also have "1 + nat (sint n - 1) = nat (sint n)" using Cons.prems(2) by simp
    finally show ?thesis by (rule order_trans) simp
  next
    case False
    let ?b = "b\<lparr>rb_count := rb_count b + 1\<rparr>"
    have bump: "sint (rb_count b + 1) = sint (rb_count b) + 1"
      using Cons.prems by (intro sint_bump) simp
    have "allowed (slot_decisions rate_step (n, ?b) cs) \<le>
        nat (sint n - (sint (rb_count b) + 1)) + nat (sint n)"
      using Cons.IH [of ?b] Cons.prems bump by (auto split: if_splits)
    then show ?thesis
      using False bump by (auto simp: rate_step_parts bucket_step_same)
  qed
qed simp

definition slot_after :: "('c \<Rightarrow> 'b \<Rightarrow> bool \<times> 'b) \<Rightarrow> 'b \<Rightarrow> 'c list \<Rightarrow> 'b" where
  "slot_after step b cs = fold (\<lambda>c b. snd (step c b)) cs b"

lemma slot_decisions_append:
  "slot_decisions step b (cs @ ds) =
     slot_decisions step b cs @ slot_decisions step (slot_after step b cs) ds"
  by (induction cs arbitrary: b) (simp_all add: slot_after_def)

lemma length_slot_decisions [simp]: "length (slot_decisions step b cs) = length cs"
  by (induction cs arbitrary: b) simp_all

lemma slot_after_count:
  assumes "0 \<le> sint (rb_count b)" and "sint (rb_count b) + int (length cs) < 2 ^ 63"
  shows "\<exists>b'. slot_after rate_step (n, b) cs = (n, b') \<and>
    (if cs = [] then b' = b
     else 1 \<le> sint (rb_count b') \<and> sint (rb_count b') \<le> sint (rb_count b) + int (length cs))"
  using assms
proof (induction cs arbitrary: b)
  case (Cons u cs)
  let ?b = "snd (bucket_step n u b)"
  have bump: "sint (rb_count b + 1) = sint (rb_count b) + 1"
    using Cons.prems by (intro sint_bump) simp
  have count: "1 \<le> sint (rb_count ?b)" "sint (rb_count ?b) \<le> sint (rb_count b) + 1"
    using bump Cons.prems by (cases "rb_resetAt b < u"; simp add: bucket_step_new bucket_step_same)+
  have "slot_after rate_step (n, b) (u # cs) = slot_after rate_step (n, ?b) cs"
    by (simp add: slot_after_def rate_step_parts)
  moreover obtain b' where "slot_after rate_step (n, ?b) cs = (n, b')"
      "if cs = [] then b' = ?b
       else 1 \<le> sint (rb_count b') \<and> sint (rb_count b') \<le> sint (rb_count ?b) + int (length cs)"
    using Cons.IH [of ?b] Cons.prems count by auto
  ultimately show ?case using count by (auto split: if_splits)
qed (simp add: slot_after_def)

text \<open>C14: At every level and in every interval of one second, however the calls interleave and
  whatever came before, at most \<open>2N - 1\<close> entries pass; with the default budget of one, at most
  one. The bound is not \<open>N\<close>: the windows are fixed, so the end of one and the start of the next
  can fall into the same second.\<close>

theorem RateSampler_rate:
  assumes "\<forall>(t, l) \<in> set (earlier @ calls). 0 < t \<and> l \<in> set named_levels"
    and "\<forall>(u, l) \<in> set calls. t \<le> u \<and> u \<le> t + second"
    and "int (length (earlier @ calls)) < 2 ^ 63"
  shows "\<exists>ds. decisions rate_Sample (NewRateSampler n) (earlier @ calls) = Some ds \<and>
    (\<forall>l \<in> set named_levels.
       allowed (drop (length (calls_at l earlier)) (at_level l ds)) \<le> 2 * nat (max 1 (sint n)) - 1)"
proof -
  let ?s = "NewRateSampler n"
  let ?n = "perSecond ?s"
  have n: "sint ?n = max 1 (sint n)" by (simp add: NewRateSampler_def)
  let ?b = "\<lparr>rb_count = 0, rb_resetAt = 0\<rparr>"
  have bound: "allowed (drop (length (calls_at l earlier))
      (slot_decisions rate_step (rate_slot ?s l) (calls_at l (earlier @ calls)))) \<le>
      2 * nat (max 1 (sint n)) - 1"
    if l: "l \<in> set named_levels" for l
  proof -
    have slot: "rate_slot ?s l = (?n, ?b)"
      using named_slot [OF l] by (simp add: rate_slot_def NewRateSampler_def)
    have len: "int (length (calls_at l earlier)) + int (length (calls_at l calls)) < 2 ^ 63"
      using length_calls_at [of l "earlier @ calls"] assms(3) by (simp add: calls_at_append)
    obtain b' where b': "slot_after rate_step (?n, ?b) (calls_at l earlier) = (?n, b')"
        "if calls_at l earlier = [] then b' = ?b
         else 1 \<le> sint (rb_count b') \<and>
           sint (rb_count b') \<le> sint (rb_count ?b) + int (length (calls_at l earlier))"
      using slot_after_count [of ?b "calls_at l earlier" ?n] len by fastforce
    have times: "\<forall>u \<in> set (calls_at l calls). t \<le> u \<and> u \<le> t + second \<and> 0 < u"
      using assms(1,2) by (auto simp: calls_at_def)
    have "allowed (slot_decisions rate_step (?n, b') (calls_at l calls)) \<le>
        (if \<forall>u \<in> set (calls_at l calls). rb_resetAt b' < u then 0
         else nat (sint ?n - sint (rb_count b'))) + nat (sint ?n)"
      using interval_allowed [of "calls_at l calls" t ?n b'] times b'(2) len n
      by (auto split: if_splits)
    also have "\<dots> \<le> 2 * nat (max 1 (sint n)) - 1"
      using b'(2) times n by (auto split: if_splits)
    finally show ?thesis
      by (simp add: slot calls_at_append slot_decisions_append b'(1))
  qed
  obtain ds where "decisions rate_Sample ?s (earlier @ calls) = Some ds"
      "\<forall>l \<in> set named_levels. at_level l ds =
         slot_decisions rate_step (rate_slot ?s l) (calls_at l (earlier @ calls))"
    using per_second.levels_independent [of ?s "earlier @ calls"] assms(1)
    by (auto simp: NewRateSampler_def)
  with bound show ?thesis by auto
qed

text \<open>The bound is reached: with a budget of two, three entries pass within one nanosecond.\<close>

theorem RateSampler_rate_witness:
  "\<exists>ds. decisions rate_Sample (NewRateSampler 2)
       ([(1, INFO)] @ [(1 + second, INFO), (2 + second, INFO), (2 + second, INFO), (2 + second, INFO)]) = Some ds \<and>
     allowed (drop 1 (at_level INFO ds)) \<le> 3 \<and>
     drop 1 (at_level INFO ds) = [True, True, True, False]"
proof -
  let ?pre = "[(1 :: int, INFO)]"
  let ?cs = "[(1 + second, INFO), (2 + second, INFO), (2 + second, INFO), (2 + second, INFO)]"
  have "decisions rate_Sample (NewRateSampler 2) (?pre @ ?cs) =
      Some [(INFO, True), (INFO, True), (INFO, True), (INFO, True), (INFO, False)]"
    by code_simp
  then show ?thesis
    using RateSampler_rate [of ?pre ?cs "1 + second" 2]
    by (simp add: named_levels_def calls_at_def at_level_def second_def)
qed

text \<open>A burst on a fresh sampler that fits into its first window passes exactly the first \<open>N\<close>
  entries of each level.\<close>

theorem RateSampler_first_window:
  assumes "\<forall>(u, l) \<in> set calls. 0 < t \<and> t \<le> u \<and> u \<le> t + second \<and> l \<in> set named_levels"
    and "int (length calls) < 2 ^ 63"
  shows "\<exists>ds. decisions rate_Sample (NewRateSampler n) calls = Some ds \<and>
    (\<forall>l \<in> set named_levels.
       at_level l ds = map (\<lambda>i. int i < max 1 (sint n)) [0..<length (calls_at l calls)])"
proof -
  let ?s = "NewRateSampler n"
  let ?n = "perSecond ?s"
  have n: "sint ?n = max 1 (sint n)" by (simp add: NewRateSampler_def)
  have first: "slot_decisions rate_step (rate_slot ?s l) (calls_at l calls) =
      map (\<lambda>i. int i < max 1 (sint n)) [0..<length (calls_at l calls)]"
    if l: "l \<in> set named_levels" for l
  proof (cases "calls_at l calls")
    case (Cons u cs)
    have slot: "rate_slot ?s l = (?n, \<lparr>rb_count = 0, rb_resetAt = 0\<rparr>)"
      using named_slot [OF l] by (simp add: rate_slot_def NewRateSampler_def)
    have times: "\<forall>v \<in> set (u # cs). 0 < v \<and> t \<le> v \<and> v \<le> t + second"
      using assms(1) unfolding Cons [symmetric] by (auto simp: calls_at_def)
    have "1 + int (length cs) < 2 ^ 63"
      using length_calls_at [of l calls] assms(2) by (simp add: Cons)
    moreover have "\<forall>v \<in> set cs. v \<le> u + second" using times by auto
    ultimately have "slot_decisions rate_step (?n, \<lparr>rb_count = 1, rb_resetAt = u + second\<rparr>) cs =
        map (\<lambda>i. 1 + int i < sint ?n) [0..<length cs]"
      using window_decisions [of cs "\<lparr>rb_count = 1, rb_resetAt = u + second\<rparr>" ?n] by simp
    also have "\<dots> = map (\<lambda>i. int i < sint ?n) (map Suc [0..<length cs])"
      by (simp add: comp_def)
    finally show ?thesis
      using times n
      by (simp add: Cons slot rate_step_parts bucket_step_new upt_conv_Cons map_Suc_upt del: upt_Suc)
  qed simp
  obtain ds where "decisions rate_Sample ?s calls = Some ds"
      "\<forall>l \<in> set named_levels. at_level l ds = slot_decisions rate_step (rate_slot ?s l) (calls_at l calls)"
    using per_second.levels_independent [of ?s calls] assms(1)
    by (auto simp: NewRateSampler_def)
  with first show ?thesis by auto
qed

theorem RateSampler_first_window_witness:
  "\<exists>ds. decisions rate_Sample (NewRateSampler 1) [(7, INFO), (8, INFO), (8, DEBUG)] = Some ds \<and>
     at_level INFO ds = [True, False]"
  using RateSampler_first_window [of "[(7, INFO), (8, INFO), (8, DEBUG)]" 7 1]
  by (simp add: named_levels_def calls_at_def second_def level_consts upt_conv_Cons) blast

end
