(* ===== verification/LogCore.thy ===== *)
theory LogCore
  imports LogWriters LogEnrich LogField LogRedact LogSampler
begin

text \<open>
  \<open>logger.go\<close>, \<open>options.go\<close> and the types of \<open>pipeline.go\<close>: loggers, their options, and the path of
  an entry from a logging call to the writer.

  Loggers live in a heap, a list indexed by address, because a child logger shares the state of its
  root: \<open>lg_parent\<close> is the pointer. The system state has the heap, the world of the writers, the
  global event counter. What a call takes from its surroundings (clock, caller, stack) is an
  argument, \<open>call_env\<close>; what the sinks answer is the parameter \<open>sinks\<close> of \<open>LogWriters\<close>. Operations
  that Go serialises with the logger's mutex are one step here; a panic that the code does not
  recover is \<open>None\<close>.
\<close>

section \<open>State\<close>

record service_identity =
  id_Service :: string
  id_Version :: string
  id_Env :: string
  id_Host :: string

text \<open>
  The part of a \<open>context.Context\<close> that the code can see: the logger stored under \<open>loggerKey\<close>, which
  may be nil (\<open>Some None\<close>), and the values that extractors read. An extractor that panics gives \<open>None\<close>.
\<close>

record go_context =
  ctx_logger :: "nat option option"
  ctx_values :: fields

type_synonym extractor = "go_context \<Rightarrow> fields option"

text \<open>
  A sampler of the user has a state of its own and may panic: its answer is a function of all its calls so far, the
  last one included, each with the time, and is \<open>None\<close> when that call panics.
\<close>

type_synonym sample_call = "int \<times> level \<times> string"

datatype log_sampler =
    SEveryN every_n
  | SRate rate_sampler
  | SCustom "sample_call list \<Rightarrow> bool option" "sample_call list"

fun sampler_Sample :: "int \<Rightarrow> log_sampler \<Rightarrow> level \<Rightarrow> string \<Rightarrow> (bool \<times> log_sampler) option" where
  "sampler_Sample now (SEveryN s) l msg = map_option (\<lambda>(ok, s). (ok, SEveryN s)) (everyN_Sample s l)"
| "sampler_Sample now (SRate s) l msg = map_option (\<lambda>(ok, s). (ok, SRate s)) (rate_Sample now s l)"
| "sampler_Sample now (SCustom f h) l msg =
     (let h = h @ [(now, l, msg)] in map_option (\<lambda>ok. (ok, SCustom f h)) (f h))"

text \<open>A hook is known by its number; whether a call of it panics does not matter, see \<open>run_hooks\<close>.\<close>

record logger =
  lg_out :: writer
  lg_minLevel :: "32 word"
  lg_fields :: fields
  lg_parent :: "nat option"
  lg_extractors :: "extractor list"
  lg_identity :: "service_identity option"
  lg_closed :: bool
  lg_exitFunc :: exit_func
  lg_hooks :: "nat list"
  lg_formatter :: formatter
  lg_sampler :: "log_sampler option"
  lg_middleware :: "middleware list"
  lg_caller :: bool
  lg_fullCallerPath :: bool
  lg_eventID :: bool
  lg_stackTrace :: bool
  lg_writeErrors :: "64 word"
  lg_fallbackWriter :: "writer option"

record system =
  loggers :: "logger list"
  the_world :: world
  eventCounter :: "64 word"

text \<open>
  The fields that a literal \<open>&Logger{...}\<close> leaves out. Of a child only \<open>parent\<close>, \<open>fields\<close> and \<open>extractors\<close>
  are ever read; the writer, formatter and exit function of a root are set by \<open>New\<close>.
\<close>

definition zero_logger :: logger where
  "zero_logger =
     \<lparr>lg_out = Discard, lg_minLevel = 0, lg_fields = [], lg_parent = None, lg_extractors = [],
      lg_identity = None, lg_closed = False, lg_exitFunc = OsExit, lg_hooks = [], lg_formatter = JSONFormatter [],
      lg_sampler = None, lg_middleware = [], lg_caller = False, lg_fullCallerPath = False,
      lg_eventID = False, lg_stackTrace = False, lg_writeErrors = 0, lg_fallbackWriter = None\<rparr>"

definition empty_system :: system where
  "empty_system = \<lparr>loggers = [], the_world = empty_world, eventCounter = 0\<rparr>"

section \<open>Options\<close>

type_synonym option_fun = "logger \<Rightarrow> logger"

definition hostname :: "string option \<Rightarrow> string" where
  "hostname os_Hostname = (case os_Hostname of None \<Rightarrow> ''unknown'' | Some h \<Rightarrow> h)"

definition WithServiceIdentity :: "string option \<Rightarrow> string \<Rightarrow> string \<Rightarrow> string \<Rightarrow> option_fun" where
  "WithServiceIdentity os_Hostname service version env l =
     l\<lparr>lg_identity := Some \<lparr>id_Service = service, id_Version = version, id_Env = env,
         id_Host = hostname os_Hostname\<rparr>\<rparr>"

definition withExitFunc :: "exit_func \<Rightarrow> option_fun" where
  "withExitFunc fn l = l\<lparr>lg_exitFunc := fn\<rparr>"

definition WithHooks :: "nat list \<Rightarrow> option_fun" where
  "WithHooks hooks l = l\<lparr>lg_hooks := hooks\<rparr>"

definition WithFormatter :: "formatter \<Rightarrow> option_fun" where
  "WithFormatter f l = l\<lparr>lg_formatter := f\<rparr>"

definition WithSampler :: "log_sampler \<Rightarrow> option_fun" where
  "WithSampler s l = l\<lparr>lg_sampler := Some s\<rparr>"

definition WithCaller :: option_fun where
  "WithCaller l = l\<lparr>lg_caller := True\<rparr>"

definition WithFullCallerPath :: option_fun where
  "WithFullCallerPath l = l\<lparr>lg_caller := True, lg_fullCallerPath := True\<rparr>"

definition WithEventID :: option_fun where
  "WithEventID l = l\<lparr>lg_eventID := True\<rparr>"

definition WithStackTrace :: option_fun where
  "WithStackTrace l = l\<lparr>lg_stackTrace := True\<rparr>"

definition WithFallbackWriter :: "writer \<Rightarrow> option_fun" where
  "WithFallbackWriter w l = l\<lparr>lg_fallbackWriter := Some w\<rparr>"

definition WithMiddleware :: "middleware list \<Rightarrow> option_fun" where
  "WithMiddleware mw l = l\<lparr>lg_middleware := lg_middleware l @ mw\<rparr>"

definition WithRedactFieldsFunc :: "string \<Rightarrow> string list \<Rightarrow> option_fun" where
  "WithRedactFieldsFunc replacement fs = WithMiddleware [redact_middleware replacement fs]"

definition WithRedactFields :: "string list \<Rightarrow> option_fun" where
  "WithRedactFields fs = WithRedactFieldsFunc ''[REDACTED]'' fs"

definition WithAutoFormat :: "(nat \<Rightarrow> bool) \<Rightarrow> option_fun" where
  "WithAutoFormat tty l = l\<lparr>lg_formatter := auto_formatter tty (lg_out l)\<rparr>"

section \<open>Construction, levels and children\<close>

definition level_int32 :: "level \<Rightarrow> 32 word" where
  "level_int32 l = ucast (level_word l)"

definition int32_level :: "32 word \<Rightarrow> level" where
  "int32_level w = Level (scast w)"

definition add_logger :: "logger \<Rightarrow> system \<Rightarrow> nat \<times> system" where
  "add_logger l s = (length (loggers s), s\<lparr>loggers := loggers s @ [l]\<rparr>)"

definition New :: "writer \<Rightarrow> level \<Rightarrow> option_fun list \<Rightarrow> system \<Rightarrow> nat \<times> system" where
  "New out minLevel opts s =
     add_logger
       (fold (\<lambda>opt l. opt l) opts
         (zero_logger\<lparr>lg_out := out, lg_exitFunc := OsExit, lg_formatter := JSONFormatter [], lg_minLevel := level_int32 minLevel\<rparr>)) s"

definition Nop :: "system \<Rightarrow> nat \<times> system" where
  "Nop s = New Discard (Level (level_word FATAL + 1)) [] s"

abbreviation logger_at :: "system \<Rightarrow> nat \<Rightarrow> logger" where
  "logger_at s a \<equiv> loggers s ! a"

definition root :: "system \<Rightarrow> nat \<Rightarrow> nat" where
  "root s a = (case lg_parent (logger_at s a) of Some r \<Rightarrow> r | None \<Rightarrow> a)"

abbreviation root_logger :: "system \<Rightarrow> nat \<Rightarrow> logger" where
  "root_logger s a \<equiv> logger_at s (root s a)"

definition update_root :: "nat \<Rightarrow> (logger \<Rightarrow> logger) \<Rightarrow> system \<Rightarrow> system" where
  "update_root a f s = s\<lparr>loggers := (loggers s)[root s a := f (root_logger s a)]\<rparr>"

definition SetLevel :: "nat \<Rightarrow> level \<Rightarrow> system \<Rightarrow> system" where
  "SetLevel a level s = update_root a (\<lambda>r. r\<lparr>lg_minLevel := level_int32 level\<rparr>) s"

definition GetLevel :: "nat \<Rightarrow> system \<Rightarrow> level" where
  "GetLevel a s = int32_level (lg_minLevel (root_logger s a))"

definition WriteErrorCount :: "nat \<Rightarrow> system \<Rightarrow> 64 word" where
  "WriteErrorCount a s = lg_writeErrors (root_logger s a)"

definition With :: "nat \<Rightarrow> fields \<Rightarrow> system \<Rightarrow> nat \<times> system" where
  "With a fs s =
     add_logger
       (zero_logger\<lparr>lg_parent := Some (root s a),
          lg_fields := mergeFields (lg_fields (logger_at s a)) fs,
          lg_extractors := lg_extractors (logger_at s a)\<rparr>) s"

definition WithContextExtractor :: "nat \<Rightarrow> extractor \<Rightarrow> system \<Rightarrow> nat \<times> system" where
  "WithContextExtractor a fn s =
     (let (child, s) = With a [] s
      in (child, s\<lparr>loggers := (loggers s)[child :=
            (logger_at s child)\<lparr>lg_extractors := lg_extractors (logger_at s a) @ [fn]\<rparr>]\<rparr>))"

section \<open>Assembling an entry\<close>

text \<open>
  What one call reads from outside: the time as text and in nanoseconds, the samplers' clock, the
  caller's file and line, the frames that \<open>runtime.CallersFrames\<close> yields from the caller on, and,
  for the fallback entry, the second reading of the time and \<open>json.Marshal\<close> on string maps.
\<close>

record call_env =
  ce_time :: string
  ce_nanos :: int
  ce_clock :: int
  ce_caller :: "(string \<times> int) option"
  ce_frames :: "(string \<times> string \<times> int) list"
  ce_time2 :: string
  ce_marshal :: "(string \<times> string) list \<Rightarrow> string"

definition plain_env :: call_env where
  \<comment> \<open>surroundings for concrete runs\<close>
  "plain_env = \<lparr>ce_time = ''t'', ce_nanos = 0, ce_clock = 1, ce_caller = None, ce_frames = [],
     ce_time2 = ''t'', ce_marshal = \<lambda>_. []\<rparr>"

definition reservedKeys :: "string list" where
  "reservedKeys = [''time'', ''level'', ''message'', ''file'', ''service'', ''version'', ''env'',
     ''host'', ''event_id'', ''stacktrace'']"

definition generateEventID :: "int \<Rightarrow> 64 word \<Rightarrow> string \<times> 64 word" where
  "generateEventID ts counter =
     (let seq = counter + 1 in (show_hex_int ts @ ''-'' @ show_base 16 (unat seq), seq))"

fun stack_loop :: "(string \<times> string \<times> int) list \<Rightarrow> string \<Rightarrow> string" where
  "stack_loop [] b = b"
| "stack_loop ((function, file, line) # rest) b =
     (if function = [] then b
      else stack_loop rest
        ((if 0 < length b then b @ [newline] else b)
           @ function @ [newline, tabulator] @ file @ '':'' @ show_int line))"

definition captureStackTrace :: "(string \<times> string \<times> int) list \<Rightarrow> string" where
  "captureStackTrace frames = stack_loop frames []"

definition caller_text :: "bool \<Rightarrow> (string \<times> int) option \<Rightarrow> string" where
  "caller_text full caller =
     (let (file, line) =
        (case caller of
           None \<Rightarrow> (''???'', 0)
         | Some (file, line) \<Rightarrow>
             (if full then file
              else (case last_index_byte file (CHR ''/'') of
                      Some slash \<Rightarrow> drop (slash + 1) file
                    | None \<Rightarrow> file), line))
      in file @ '':'' @ show_int line)"

definition core_entry :: "call_env \<Rightarrow> logger \<Rightarrow> level \<Rightarrow> string \<Rightarrow> fields" where
  "core_entry ce r level message =
     (let entry = put ''message'' (VString message)
            (put ''level'' (VString (level_String level)) (put ''time'' (VString (ce_time ce)) []));
          entry = (if lg_caller r
            then put ''file'' (VString (caller_text (lg_fullCallerPath r) (ce_caller ce))) entry
            else entry)
      in (case lg_identity r of
            None \<Rightarrow> entry
          | Some i \<Rightarrow>
              put ''host'' (VString (id_Host i)) (put ''env'' (VString (id_Env i))
                (put ''version'' (VString (id_Version i)) (put ''service'' (VString (id_Service i)) entry)))))"

fun add_fields :: "fields \<Rightarrow> fields \<Rightarrow> fields" where
  "add_fields [] entry = entry"
| "add_fields ((k, v) # r) entry =
     add_fields r (if k \<in> set reservedKeys then put (''fields.'' @ k) v entry else put k v entry)"

text \<open>The entry, the fields as hooks see them, and the event counter afterwards.\<close>

definition assemble ::
  "call_env \<Rightarrow> logger \<Rightarrow> level \<Rightarrow> string \<Rightarrow> fields \<Rightarrow> 64 word \<Rightarrow> fields \<times> fields \<times> 64 word" where
  "assemble ce r level message fs counter =
     (let entry = core_entry ce r level message;
          (entry, counter) =
            (if lg_eventID r
             then (let (eid, c) = generateEventID (ce_nanos ce) counter
                   in (put ''event_id'' (VString eid) entry, c))
             else (entry, counter));
          fs = enrichErrors (resolveLogValuers fs);
          entry = add_fields fs entry;
          entry = (if lg_stackTrace r \<and> ERROR \<le> level
            then put ''stacktrace'' (VString (captureStackTrace (ce_frames ce))) entry else entry)
      in (entry, fs, counter))"

fun run_middleware :: "middleware list \<Rightarrow> fields \<Rightarrow> fields option" where
  "run_middleware [] entry = Some entry"
| "run_middleware (mw # r) entry =
     (case mw entry of None \<Rightarrow> None | Some entry \<Rightarrow> run_middleware r entry)"

definition render :: "call_env \<Rightarrow> logger \<Rightarrow> fields \<Rightarrow> string" where
  "render ce r entry =
     (case Format (lg_formatter r) entry of
        Inr data \<Rightarrow> data
      | Inl err \<Rightarrow>
          ce_marshal ce
            [(''time'', ce_time2 ce), (''level'', ''ERROR''),
             (''message'', ''failed to marshal log entry to json: '' @ err_Error err)])
     @ [newline]"

section \<open>Writing an entry\<close>

text \<open>What happens under the mutex: the write, the hooks, and for FATAL the flush and the exit.\<close>

definition log_event :: "io_event \<Rightarrow> world \<Rightarrow> world" where
  "log_event e w = w\<lparr>io := io w @ [e]\<rparr>"

text \<open>A hook that panics is recovered, so every hook is called.\<close>

fun run_hooks :: "nat list \<Rightarrow> level \<Rightarrow> string \<Rightarrow> fields \<Rightarrow> world \<Rightarrow> world" where
  "run_hooks [] level message fs w = w"
| "run_hooks (h # r) level message fs w = run_hooks r level message fs (log_event (EvHook h level message fs) w)"

definition write_line :: "sinks \<Rightarrow> logger \<Rightarrow> string \<Rightarrow> world \<Rightarrow> logger \<times> world" where
  "write_line env r line w =
     (let ((n, err), w) = writer_Write env (lg_out r) line w
      in case err of
           None \<Rightarrow> (r, w)
         | Some _ \<Rightarrow>
             (r\<lparr>lg_writeErrors := lg_writeErrors r + 1\<rparr>,
              (case lg_fallbackWriter r of
                 None \<Rightarrow> w
               | Some fb \<Rightarrow> snd (writer_Write env fb line w))))"

definition exit_fatal :: "sinks \<Rightarrow> logger \<Rightarrow> world \<Rightarrow> world" where
  "exit_fatal env r w =
     (let w = (if is_Syncer (lg_out r) then snd (writer_Sync env (lg_out r) w) else w)
      in log_event (EvExit (lg_exitFunc r) 1) w)"

definition writeEntry ::
  "sinks \<Rightarrow> call_env \<Rightarrow> nat \<Rightarrow> level \<Rightarrow> string \<Rightarrow> fields \<Rightarrow> system \<Rightarrow> system" where
  "writeEntry env ce ra level message fs s =
     (let r = logger_at s ra;
          (entry, fs, counter) = assemble ce r level message fs (eventCounter s);
          s = s\<lparr>eventCounter := counter\<rparr>
      in case run_middleware (lg_middleware r) entry of
           None \<Rightarrow> s
         | Some entry \<Rightarrow>
             (let (r, w) = write_line env r (render ce r entry) (the_world s);
                  w = run_hooks (lg_hooks r) level message fs w;
                  w = (if level = FATAL then exit_fatal env r w else w)
              in s\<lparr>loggers := (loggers s)[ra := r], the_world := w\<rparr>))"

text \<open>The guards of \<open>internalLog\<close>: closed, level, sampler. \<open>None\<close> is the sampler's panic.\<close>

definition admit :: "call_env \<Rightarrow> logger \<Rightarrow> level \<Rightarrow> string \<Rightarrow> (bool \<times> logger) option" where
  "admit ce r level message =
     (if lg_closed r then Some (False, r)
      else if level < int32_level (lg_minLevel r) then Some (False, r)
      else (case lg_sampler r of
              None \<Rightarrow> Some (True, r)
            | Some sm \<Rightarrow>
                if level < ERROR then
                  map_option (\<lambda>(ok, sm). (ok, r\<lparr>lg_sampler := Some sm\<rparr>))
                    (sampler_Sample (ce_clock ce) sm level message)
                else Some (True, r)))"

definition internalLog ::
  "sinks \<Rightarrow> call_env \<Rightarrow> nat \<Rightarrow> level \<Rightarrow> string \<Rightarrow> fields \<Rightarrow> system \<Rightarrow> system option" where
  "internalLog env ce a level message fs s =
     (case admit ce (root_logger s a) level message of
        None \<Rightarrow> None
      | Some (ok, r) \<Rightarrow>
          (let s = update_root a (\<lambda>_. r) s
           in Some (if ok then
                 writeEntry env ce (root s a) level message
                   (mergeFields (lg_fields (logger_at s a)) fs) s
               else s)))"

fun run_extractors :: "extractor list \<Rightarrow> go_context \<Rightarrow> fields \<Rightarrow> fields" where
  "run_extractors [] ctx acc = acc"
| "run_extractors (x # r) ctx acc =
     run_extractors r ctx (case x ctx of None \<Rightarrow> acc | Some fs \<Rightarrow> mergeFields acc fs)"

definition internalLogCtx ::
  "sinks \<Rightarrow> call_env \<Rightarrow> nat \<Rightarrow> go_context option \<Rightarrow> level \<Rightarrow> string \<Rightarrow> fields \<Rightarrow> system \<Rightarrow> system option" where
  "internalLogCtx env ce a ctx level message fs s =
     (case admit ce (root_logger s a) level message of
        None \<Rightarrow> None
      | Some (ok, r) \<Rightarrow>
          (let s = update_root a (\<lambda>_. r) s
           in Some (if ok then
                 (let l = logger_at s a;
                      ctxFields = (case ctx of
                          None \<Rightarrow> []
                        | Some c \<Rightarrow> if 0 < length (lg_extractors l)
                            then run_extractors (lg_extractors l) c [] else [])
                  in writeEntry env ce (root s a) level message
                       (mergeFields (lg_fields l) (mergeFields ctxFields fs)) s)
               else s)))"

section \<open>The public methods\<close>

text \<open>
  The methods with a map of fields; the \<open>printf\<close> variants, whose argument here is the formatted
  message; the variants with a context; and those with typed fields.
\<close>

definition Logger_Trace :: "sinks \<Rightarrow> call_env \<Rightarrow> nat \<Rightarrow> string \<Rightarrow> fields \<Rightarrow> system \<Rightarrow> system option" where
  "Logger_Trace env ce a message fs = internalLog env ce a TRACE message fs"

definition Logger_Tracef :: "sinks \<Rightarrow> call_env \<Rightarrow> nat \<Rightarrow> string \<Rightarrow> system \<Rightarrow> system option" where
  "Logger_Tracef env ce a message = internalLog env ce a TRACE message []"

definition Logger_TraceContext ::
  "sinks \<Rightarrow> call_env \<Rightarrow> nat \<Rightarrow> go_context option \<Rightarrow> string \<Rightarrow> fields \<Rightarrow> system \<Rightarrow> system option" where
  "Logger_TraceContext env ce a ctx message fs = internalLogCtx env ce a ctx TRACE message fs"

definition Logger_Tracew :: "sinks \<Rightarrow> call_env \<Rightarrow> nat \<Rightarrow> string \<Rightarrow> field list \<Rightarrow> system \<Rightarrow> system option" where
  "Logger_Tracew env ce a message fs = internalLog env ce a TRACE message (fieldsToMap fs)"

definition Logger_Debug :: "sinks \<Rightarrow> call_env \<Rightarrow> nat \<Rightarrow> string \<Rightarrow> fields \<Rightarrow> system \<Rightarrow> system option" where
  "Logger_Debug env ce a message fs = internalLog env ce a DEBUG message fs"

definition Logger_Debugf :: "sinks \<Rightarrow> call_env \<Rightarrow> nat \<Rightarrow> string \<Rightarrow> system \<Rightarrow> system option" where
  "Logger_Debugf env ce a message = internalLog env ce a DEBUG message []"

definition Logger_DebugContext ::
  "sinks \<Rightarrow> call_env \<Rightarrow> nat \<Rightarrow> go_context option \<Rightarrow> string \<Rightarrow> fields \<Rightarrow> system \<Rightarrow> system option" where
  "Logger_DebugContext env ce a ctx message fs = internalLogCtx env ce a ctx DEBUG message fs"

definition Logger_Debugw :: "sinks \<Rightarrow> call_env \<Rightarrow> nat \<Rightarrow> string \<Rightarrow> field list \<Rightarrow> system \<Rightarrow> system option" where
  "Logger_Debugw env ce a message fs = internalLog env ce a DEBUG message (fieldsToMap fs)"

definition Logger_Info :: "sinks \<Rightarrow> call_env \<Rightarrow> nat \<Rightarrow> string \<Rightarrow> fields \<Rightarrow> system \<Rightarrow> system option" where
  "Logger_Info env ce a message fs = internalLog env ce a INFO message fs"

definition Logger_Infof :: "sinks \<Rightarrow> call_env \<Rightarrow> nat \<Rightarrow> string \<Rightarrow> system \<Rightarrow> system option" where
  "Logger_Infof env ce a message = internalLog env ce a INFO message []"

definition Logger_InfoContext ::
  "sinks \<Rightarrow> call_env \<Rightarrow> nat \<Rightarrow> go_context option \<Rightarrow> string \<Rightarrow> fields \<Rightarrow> system \<Rightarrow> system option" where
  "Logger_InfoContext env ce a ctx message fs = internalLogCtx env ce a ctx INFO message fs"

definition Logger_Infow :: "sinks \<Rightarrow> call_env \<Rightarrow> nat \<Rightarrow> string \<Rightarrow> field list \<Rightarrow> system \<Rightarrow> system option" where
  "Logger_Infow env ce a message fs = internalLog env ce a INFO message (fieldsToMap fs)"

definition Logger_Warning :: "sinks \<Rightarrow> call_env \<Rightarrow> nat \<Rightarrow> string \<Rightarrow> fields \<Rightarrow> system \<Rightarrow> system option" where
  "Logger_Warning env ce a message fs = internalLog env ce a WARNING message fs"

definition Logger_Warningf :: "sinks \<Rightarrow> call_env \<Rightarrow> nat \<Rightarrow> string \<Rightarrow> system \<Rightarrow> system option" where
  "Logger_Warningf env ce a message = internalLog env ce a WARNING message []"

definition Logger_WarningContext ::
  "sinks \<Rightarrow> call_env \<Rightarrow> nat \<Rightarrow> go_context option \<Rightarrow> string \<Rightarrow> fields \<Rightarrow> system \<Rightarrow> system option" where
  "Logger_WarningContext env ce a ctx message fs = internalLogCtx env ce a ctx WARNING message fs"

definition Logger_Warningw :: "sinks \<Rightarrow> call_env \<Rightarrow> nat \<Rightarrow> string \<Rightarrow> field list \<Rightarrow> system \<Rightarrow> system option" where
  "Logger_Warningw env ce a message fs = internalLog env ce a WARNING message (fieldsToMap fs)"

definition Logger_Error :: "sinks \<Rightarrow> call_env \<Rightarrow> nat \<Rightarrow> string \<Rightarrow> fields \<Rightarrow> system \<Rightarrow> system option" where
  "Logger_Error env ce a message fs = internalLog env ce a ERROR message fs"

definition Logger_Errorf :: "sinks \<Rightarrow> call_env \<Rightarrow> nat \<Rightarrow> string \<Rightarrow> system \<Rightarrow> system option" where
  "Logger_Errorf env ce a message = internalLog env ce a ERROR message []"

definition Logger_ErrorContext ::
  "sinks \<Rightarrow> call_env \<Rightarrow> nat \<Rightarrow> go_context option \<Rightarrow> string \<Rightarrow> fields \<Rightarrow> system \<Rightarrow> system option" where
  "Logger_ErrorContext env ce a ctx message fs = internalLogCtx env ce a ctx ERROR message fs"

definition Logger_Errorw :: "sinks \<Rightarrow> call_env \<Rightarrow> nat \<Rightarrow> string \<Rightarrow> field list \<Rightarrow> system \<Rightarrow> system option" where
  "Logger_Errorw env ce a message fs = internalLog env ce a ERROR message (fieldsToMap fs)"

definition Logger_Fatal :: "sinks \<Rightarrow> call_env \<Rightarrow> nat \<Rightarrow> string \<Rightarrow> fields \<Rightarrow> system \<Rightarrow> system option" where
  "Logger_Fatal env ce a message fs = internalLog env ce a FATAL message fs"

definition Logger_Fatalf :: "sinks \<Rightarrow> call_env \<Rightarrow> nat \<Rightarrow> string \<Rightarrow> system \<Rightarrow> system option" where
  "Logger_Fatalf env ce a message = internalLog env ce a FATAL message []"

definition Logger_FatalContext ::
  "sinks \<Rightarrow> call_env \<Rightarrow> nat \<Rightarrow> go_context option \<Rightarrow> string \<Rightarrow> fields \<Rightarrow> system \<Rightarrow> system option" where
  "Logger_FatalContext env ce a ctx message fs = internalLogCtx env ce a ctx FATAL message fs"

definition Logger_Fatalw :: "sinks \<Rightarrow> call_env \<Rightarrow> nat \<Rightarrow> string \<Rightarrow> field list \<Rightarrow> system \<Rightarrow> system option" where
  "Logger_Fatalw env ce a message fs = internalLog env ce a FATAL message (fieldsToMap fs)"

section \<open>Syncing\<close>

definition isBenignSyncError :: "goerr option \<Rightarrow> bool" where
  "isBenignSyncError err =
     (case err of
        None \<Rightarrow> False
      | Some e \<Rightarrow>
          contains_str (err_Error e) ''invalid argument'' \<or>
          contains_str (err_Error e) ''inappropriate ioctl for device'')"

definition close_root :: "nat \<Rightarrow> system \<Rightarrow> system" where
  "close_root a s = update_root a (\<lambda>r. r\<lparr>lg_closed := True\<rparr>) s"

definition Sync :: "sinks \<Rightarrow> nat \<Rightarrow> system \<Rightarrow> goerr option \<times> system" where
  "Sync env a s =
     (let s = close_root a s; r = root_logger s a
      in if is_Syncer (lg_out r) then
           (let (err, w) = writer_Sync env (lg_out r) (the_world s)
            in (if isBenignSyncError err then None else err, s\<lparr>the_world := w\<rparr>))
         else (None, s))"

text \<open>The error of \<open>SyncWithTimeout\<close> when its time is up; the function itself is in \<open>LogTimeout\<close>.\<close>

definition sync_timed_out :: goerr where
  "sync_timed_out = GoErr ''*errors.errorString'' ''logger: sync timed out'' None"

end
