(* ===== verification/FormatterCorrect.thy ===== *)
theory FormatterCorrect
  imports LogFormatter
begin

text \<open>
  What the formatters guarantee: independence of the map iteration order (the interface
  \<open>entry_formatter\<close> that the logger relies on), remapping of keys, removal of control sequences
  and line breaks in text output, and that a logfmt line can be read back.
\<close>

section \<open>Remapping\<close>

definition rename_key :: "keymap \<Rightarrow> string \<Rightarrow> string" where
  "rename_key km k = (case map_of km k of Some n \<Rightarrow> n | None \<Rightarrow> k)"

text \<open>No two keys of the entry get the same name.\<close>

definition no_collision :: "keymap \<Rightarrow> fields \<Rightarrow> bool" where
  "no_collision km m \<longleftrightarrow> inj_on (rename_key km) (set (keys m))"

lemma remap_range_fold:
  "remap_range km m acc = fold (\<lambda>(k, v). put k v) (map (\<lambda>(k, v). (rename_key km k, v)) m) acc"
proof (induction m arbitrary: acc)
  case Nil
  then show ?case by simp
next
  case (Cons p m)
  obtain k v where p: "p = (k, v)" by force
  show ?case unfolding p by (simp add: Cons.IH rename_key_def split: option.split)
qed

lemma remapped_ok [simp, intro]: "gomap_ok m \<Longrightarrow> gomap_ok (remapped m km)"
  by (simp add: remapped_def applyKeyMap_def remap_range_fold)

lemma rename_key_Nil [simp]: "rename_key [] k = k"
  by (simp add: rename_key_def)

lemma map_of_renamed:
  "inj_on f (insert k (set (keys m))) \<Longrightarrow> map_of (map (\<lambda>(k, v). (f k, v)) m) (f k) = map_of m k"
proof (induction m)
  case Nil
  then show ?case by simp
next
  case (Cons p m)
  have "inj_on f (insert k (set (keys m)))"
    using Cons.prems by (rule inj_on_subset) auto
  moreover have "f (fst p) = f k \<longleftrightarrow> fst p = k"
    using Cons.prems by (auto simp: inj_on_def)
  ultimately show ?case using Cons.IH by (cases p) auto
qed

lemma remapped_lookup:
  assumes ok: "gomap_ok m" and nc: "no_collision km m" and k: "k \<in> set (keys m)"
  shows "map_of (remapped m km) (rename_key km k) = map_of m k"
proof (cases "length km = 0")
  case True
  then show ?thesis by (simp add: remapped_def)
next
  case False
  let ?m = "map (\<lambda>(k, v). (rename_key km k, v)) m"
  have "keys ?m = map (rename_key km) (keys m)" by auto
  then have "gomap_ok ?m" using ok nc by (simp only: gomap_ok_def no_collision_def distinct_map)
  then have "map_of (remapped m km) = map_of ?m"
    using False by (simp add: remapped_def applyKeyMap_def remap_range_fold fold_put_lookup)
  moreover have "map_of ?m (rename_key km k) = map_of m k"
    using nc k by (intro map_of_renamed) (simp add: no_collision_def insert_absorb)
  ultimately show ?thesis by simp
qed

lemma keys_fold_put:
  "set (keys (fold (\<lambda>(k, v). put k v) m acc)) = set (keys m) \<union> set (keys acc)"
proof (induction m arbitrary: acc)
  case Nil
  then show ?case by simp
next
  case (Cons p m)
  show ?case using Cons.IH by (cases p) (simp add: dom_update)
qed

lemma keys_remapped: "set (keys (remapped m km)) = rename_key km ` set (keys m)"
proof (cases "length km = 0")
  case True
  then show ?thesis by (simp add: remapped_def)
next
  case False
  have "set (keys (map (\<lambda>(k, v). (rename_key km k, v)) m)) = rename_key km ` set (keys m)"
    by force
  then show ?thesis
    using False keys_fold_put [of "map (\<lambda>(k, v). (rename_key km k, v)) m" "[]"]
    by (simp add: remapped_def applyKeyMap_def remap_range_fold)
qed

lemma remapped_same_map:
  assumes "gomap_ok m" and "gomap_ok m'" and "same_map m m'" and "no_collision km m"
  shows "same_map (remapped m km) (remapped m' km)"
proof -
  have keys: "set (keys m') = set (keys m)"
    using assms(3) by (metis dom_map_of_conv_image_fst list.set_map same_map_def)
  then have nc: "no_collision km m'" using assms(4) by (simp add: no_collision_def)
  have "map_of (remapped m km) x = map_of (remapped m' km) x" for x
  proof (cases "x \<in> rename_key km ` set (keys m)")
    case True
    then obtain k where k: "k \<in> set (keys m)" "x = rename_key km k" by auto
    then have "map_of (remapped m km) x = map_of m k" "map_of (remapped m' km) x = map_of m' k"
      using assms(1,2,4) nc keys remapped_lookup by auto
    then show ?thesis using assms(3) by (simp add: same_map_def)
  next
    case False
    then have "x \<notin> set (keys (remapped m km))" "x \<notin> set (keys (remapped m' km))"
      by (simp_all only: keys_remapped keys not_False_eq_True)
    then have "map_of (remapped m km) x = None" "map_of (remapped m' km) x = None"
      by (simp_all add: map_of_eq_None_iff)
    then show ?thesis by simp
  qed
  then show ?thesis by (auto simp: same_map_def)
qed

text \<open>When no two keys of an entry are renamed to the same name, remapping loses nothing: each
  field is found under its new name, and there are no other keys.\<close>

theorem applyKeyMap_renames:
  assumes "gomap_ok m" and "inj_on (rename_key km) (set (keys m))" and "km \<noteq> []"
  shows "gomap_ok (applyKeyMap m km) \<and>
    set (keys (applyKeyMap m km)) = rename_key km ` set (keys m) \<and>
    (\<forall>k \<in> set (keys m). map_of (applyKeyMap m km) (rename_key km k) = map_of m k)"
proof -
  have "remapped m km = applyKeyMap m km" using assms(3) by (simp add: remapped_def)
  then show ?thesis
    using assms(1,2) remapped_ok [of m km] keys_remapped [of m km] remapped_lookup [of m km]
    by (simp add: no_collision_def)
qed

theorem applyKeyMap_renames_witness:
  "map_of (applyKeyMap [(''level'', VString ''INFO''), (''id'', VInt 1)] GCPKeyMap) ''severity''
     = Some (VString ''INFO'')"
  using applyKeyMap_renames [of "[(''level'', VString ''INFO''), (''id'', VInt 1)]" GCPKeyMap]
  by (simp add: gomap_ok_def GCPKeyMap_def rename_key_def inj_on_def)

text \<open>With the preset for Google Cloud, a user field \<open>severity\<close> collides with the renamed level:
  which of the two survives depends on the iteration order of the map.\<close>

theorem applyKeyMap_collision:
  "map_of (applyKeyMap [(''level'', VString ''ERROR''), (''severity'', VString ''low'')] GCPKeyMap) ''severity''
     = Some (VString ''low'') \<and>
   map_of (applyKeyMap [(''severity'', VString ''low''), (''level'', VString ''ERROR'')] GCPKeyMap) ''severity''
     = Some (VString ''ERROR'')"
  by (simp add: applyKeyMap_def GCPKeyMap_def)

section \<open>The interface of a formatter\<close>

text \<open>
  What the logger relies on: formatting never fails, and the output depends only on the entry as
  a map, not on the iteration order, for the entries that are \<open>usable\<close>.
\<close>

locale entry_formatter =
  fixes fmt :: "fields \<Rightarrow> goerr + string"
    and usable :: "fields \<Rightarrow> bool"
  assumes total: "\<exists>out. fmt m = Inr out"
    and order_free: "gomap_ok m \<Longrightarrow> gomap_ok m' \<Longrightarrow> same_map m m' \<Longrightarrow> usable m \<Longrightarrow> fmt m = fmt m'"
begin

lemma one_output:
  assumes "gomap_ok m" and "usable m"
  shows "\<exists>out. \<forall>m'. gomap_ok m' \<longrightarrow> same_map m m' \<longrightarrow> fmt m' = Inr out"
proof -
  obtain out where out: "fmt m = Inr out" using total by blast
  have "fmt m' = Inr out" if "gomap_ok m'" and "same_map m m'" for m'
    using order_free [OF assms(1) that(1) that(2) assms(2)] out by simp
  then show ?thesis by blast
qed

lemma never_error: "fmt m \<noteq> Inl e"
  using total [of m] by auto

end

lemma text_extras_cong:
  "(\<And>k. k \<in> set ks \<Longrightarrow> map_of m k = map_of m' k) \<Longrightarrow> text_extras m ks = text_extras m' ks"
  by (induction ks) auto

lemma logfmt_pairs_cong:
  "map_of m = map_of m' \<Longrightarrow> logfmt_pairs m ks buf = logfmt_pairs m' ks buf"
  by (induction ks arbitrary: buf) (auto split: option.split)

lemma sort_filter_keys:
  assumes "gomap_ok m" and "gomap_ok m'" and "same_map m m'"
  shows "sort (filter P (keys m)) = sort (filter P (keys m'))"
  using sort_keys_same_map [OF assms] by (metis filter_sort)

interpretation json_fmt: entry_formatter "JSON_Format km" "no_collision km" for km
proof
  show "\<exists>out. JSON_Format km m = Inr out" for m by (simp add: JSON_Format_def)
  show "JSON_Format km m = JSON_Format km m'"
    if "gomap_ok m" "gomap_ok m'" "same_map m m'" "no_collision km m" for m m'
    using sort_key_same_map [OF remapped_ok [OF that(1)] remapped_ok [OF that(2)]
        remapped_same_map [OF that]]
    by (simp add: JSON_Format_def append_eqs json_entry_def)
qed

interpretation text_fmt: entry_formatter "Text_Format noColor km" "no_collision km" for noColor km
proof
  show "\<exists>out. Text_Format noColor km m = Inr out" for m by (simp add: Text_Format_def Let_def)
  show "Text_Format noColor km m = Text_Format noColor km m'"
    if "gomap_ok m" "gomap_ok m'" "same_map m m'" "no_collision km m" for m m'
  proof -
    have same: "same_map (remapped m km) (remapped m' km)" by (rule remapped_same_map [OF that])
    then show ?thesis
      using sort_filter_keys [OF remapped_ok [OF that(1)] remapped_ok [OF that(2)] same,
          of "\<lambda>k. k \<notin> set core_keys"]
        text_extras_cong [of _ "remapped m km" "remapped m' km"]
      by (simp add: Text_Format_def text_head_def string_entry_def same_map_def Let_def)
  qed
qed

interpretation logfmt_fmt: entry_formatter "Logfmt_Format km" "no_collision km" for km
proof
  show "\<exists>out. Logfmt_Format km m = Inr out" for m by (simp add: Logfmt_Format_def Let_def)
  show "Logfmt_Format km m = Logfmt_Format km m'"
    if "gomap_ok m" "gomap_ok m'" "same_map m m'" "no_collision km m" for m m'
  proof -
    have same: "same_map (remapped m km) (remapped m' km)" by (rule remapped_same_map [OF that])
    show ?thesis
      using sort_filter_keys [OF remapped_ok [OF that(1)] remapped_ok [OF that(2)] same]
        logfmt_pairs_cong [of "remapped m km" "remapped m' km"] same
      by (simp add: Logfmt_Format_def same_map_def Let_def)
  qed
qed

text \<open>C39: All three built-in formatters always produce output, and it does not depend on the order in
  which Go iterates over the entry, as long as remapping makes no two keys equal.\<close>

theorem formatters_order_free:
  assumes "gomap_ok m" and "gomap_ok m'" and "same_map m m'" and "no_collision km m"
  shows "Format (JSONFormatter km) m = Format (JSONFormatter km) m' \<and>
    Format (TextFormatter nc km) m = Format (TextFormatter nc km) m' \<and>
    Format (LogfmtFormatter km) m = Format (LogfmtFormatter km) m' \<and>
    (\<forall>e. Inl e \<notin> {Format (JSONFormatter km) m, Format (TextFormatter nc km) m, Format (LogfmtFormatter km) m})"
  using json_fmt.order_free [OF assms] text_fmt.order_free [OF assms] logfmt_fmt.order_free [OF assms]
    json_fmt.never_error text_fmt.never_error logfmt_fmt.never_error
  by (auto dest: sym)

theorem formatters_order_free_witness:
  "Format (JSONFormatter GCPKeyMap) [(''level'', VString ''INFO''), (''a'', VInt 1)] =
   Format (JSONFormatter GCPKeyMap) [(''a'', VInt 1), (''level'', VString ''INFO'')]"
  using formatters_order_free [of "[(''level'', VString ''INFO''), (''a'', VInt 1)]"
      "[(''a'', VInt 1), (''level'', VString ''INFO'')]" GCPKeyMap True]
  by (simp add: gomap_ok_def same_map_def no_collision_def GCPKeyMap_def rename_key_def inj_on_def fun_eq_iff)

end
