(* ===== verification/WritersCorrect.thy ===== *)
theory WritersCorrect
  imports LogWriters FormatterCorrect
begin

text \<open>
  The writers: which level \<open>FilteredWriter\<close> sees in what the JSON formatter writes, where a
  fan-out delivers an entry, what syncing reaches, and how terminals are found.
\<close>

section \<open>The level of a JSON entry\<close>

text \<open>
  Texts in which a quote other than the first character follows a backslash: the contents of JSON
  strings.
\<close>

definition quotes_escaped :: "string \<Rightarrow> bool" where
  "quotes_escaped t \<longleftrightarrow> (\<forall>j. Suc j < length t \<longrightarrow> t ! Suc j = quote_ch \<longrightarrow> t ! j = backslash)"

lemma quotes_escaped_tl: "quotes_escaped (c # t) \<Longrightarrow> quotes_escaped t"
  unfolding quotes_escaped_def by (metis Suc_less_eq length_Cons nth_Cons_Suc)

lemma quotes_escaped_drop: "quotes_escaped t \<Longrightarrow> quotes_escaped (drop n t)"
proof (induction n arbitrary: t)
  case (Suc n)
  then show ?case by (cases t) (auto dest: quotes_escaped_tl)
qed simp

lemma quotes_escaped_Cons:
  "quotes_escaped (c # t) \<longleftrightarrow> (t \<noteq> [] \<longrightarrow> hd t = quote_ch \<longrightarrow> c = backslash) \<and> quotes_escaped t"
  unfolding quotes_escaped_def
  by (cases t) (auto simp: less_Suc_eq_0_disj nth_Cons split: nat.splits)

lemma quotes_escaped_append:
  "quotes_escaped s \<Longrightarrow> quotes_escaped t \<Longrightarrow> (t \<noteq> [] \<longrightarrow> hd t \<noteq> quote_ch) \<Longrightarrow> quotes_escaped (s @ t)"
  by (induction s) (auto simp: quotes_escaped_Cons hd_append split: if_splits)

lemma escape_loop_first: "escape_loop s = [] \<or> hd (escape_loop s) \<noteq> quote_ch"
proof (cases s)
  case (Cons b r)
  then show ?thesis
  proof (cases "bval b < 0x80")
    case False
    have "take n (b # r) \<noteq> [] \<Longrightarrow> hd (take n (b # r)) \<noteq> quote_ch" for n
      using False by (cases n) auto
    then show ?thesis
      using False Cons decode_rune_width(1) [of "b # r"] by (auto simp: Let_def split: prod.splits)
  qed (simp add: escape_ascii_def)
qed simp

lemma quotes_escaped_none: "quote_ch \<notin> set t \<Longrightarrow> quotes_escaped t"
  by (auto simp: quotes_escaped_def) (metis nth_mem)

lemma quotes_escaped_ascii: "quotes_escaped (escape_ascii b)"
proof -
  have "quote_ch \<notin> set (map hexDigit [x, y])" for x y
  proof -
    have "\<forall>k \<in> set [0..<16]. ''0123456789abcdef'' ! k \<noteq> quote_ch" by code_simp
    then show ?thesis by (simp add: hexDigit_def) (metis atLeastLessThan_iff le0 mod_less_divisor set_upt zero_less_numeral)
  qed
  from this [of "bval b div 16" "bval b mod 16"] show ?thesis
    by (auto simp: escape_ascii_def quotes_escaped_Cons quotes_escaped_none)
qed

lemma quotes_escaped_loop: "quotes_escaped (escape_loop s)"
proof (induction s rule: escape_loop.induct)
  case 1
  then show ?case by (simp add: quotes_escaped_none)
next
  case (2 b s)
  show ?case
  proof (cases "bval b < 0x80")
    case True
    then show ?thesis
      using "2.IH"(1) escape_loop_first [of s]
      by (auto intro!: quotes_escaped_append quotes_escaped_ascii)
  next
    case False
    obtain r n where d: "decode_rune (b # s) = (r, n)" by force
    have bytes: "\<forall>d \<in> set (take n (b # s)). 0x80 \<le> bval d"
    proof (cases "n = 1")
      case True
      then show ?thesis using False by simp
    next
      case n: False
      then show ?thesis using decode_rune_multi(3) [of b s n] False d by simp
    qed
    have "bval quote_ch < 0x80" by simp
    with bytes have "quote_ch \<notin> set (take n (b # s))" by (metis not_less)
    then have "quotes_escaped (if r = rune_error \<and> n = 1
        then [backslash, CHR ''u'', CHR ''f'', CHR ''f'', CHR ''f'', CHR ''d''] else take n (b # s))"
      by (simp add: quotes_escaped_none)
    moreover have "quotes_escaped (escape_loop (drop n (b # s)))"
      using "2.IH"(2) [OF False d [symmetric]] by simp
    moreover have "escape_loop (b # s) = (if r = rune_error \<and> n = 1
        then [backslash, CHR ''u'', CHR ''f'', CHR ''f'', CHR ''f'', CHR ''d''] else take n (b # s))
        @ escape_loop (drop n (b # s))"
      using False d by (simp add: Let_def)
    ultimately show ?thesis
      using escape_loop_first [of "drop n (b # s)"] by (metis quotes_escaped_append)
  qed
qed

text \<open>
  The pattern that \<open>extractLevel\<close> looks for, for a key name without quotes and backslashes.
\<close>

definition level_pattern :: "string \<Rightarrow> string" where
  "level_pattern key = quote_ch # key @ [quote_ch, CHR '':'', quote_ch]"

definition plain_name :: "string \<Rightarrow> bool" where
  "plain_name k \<longleftrightarrow> escape_loop k = k \<and> quote_ch \<notin> set k \<and> backslash \<notin> set k"

lemma no_pattern_in_string:
  assumes "plain_name key" and "key \<noteq> []" and "quotes_escaped t" and "c \<noteq> CHR '':''"
  shows "\<not> prefix (key @ [quote_ch, CHR '':'']) (t @ quote_ch # c # r)"
proof
  let ?p = "key @ [quote_ch, CHR '':'']"
  assume "prefix ?p (t @ quote_ch # c # r)"
  then obtain z where z: "t @ quote_ch # c # r = ?p @ z" by (auto elim: prefixE)
  have key: "key ! i \<noteq> quote_ch" "key ! i \<noteq> backslash" if "i < length key" for i
    using assms(1) that by (auto simp: plain_name_def dest: nth_mem)
  have at: "(t @ quote_ch # c # r) ! i = (?p @ z) ! i" for i by (simp add: z)
  consider "length t < length key" | "length t = length key" | "length key < length t" by linarith
  then show False
  proof cases
    case 1
    then show ?thesis using at [of "length t"] key(1) [OF 1] by (simp add: nth_append)
  next
    case 2
    then show ?thesis using at [of "Suc (length key)"] assms(4) by (simp add: nth_append)
  next
    case 3
    obtain m where m: "length key = Suc m" using assms(2) by (cases key) auto
    have "t ! Suc m = quote_ch" using at [of "Suc m"] 3 m by (simp add: nth_append)
    moreover have "t ! m = key ! m" using at [of m] 3 m by (simp add: nth_append)
    ultimately show ?thesis
      using assms(3) 3 m key(2) [of m] by (auto simp: quotes_escaped_def)
  qed
qed

definition no_match :: "string \<Rightarrow> string \<Rightarrow> string \<Rightarrow> bool" where
  "no_match key u z \<longleftrightarrow> (\<forall>i < length u. \<not> prefix (level_pattern key) (drop i (u @ z)))"

lemma no_match_Nil [simp]: "no_match key [] z"
  by (simp add: no_match_def)

lemma no_match_Cons:
  "no_match key (c # u) z \<longleftrightarrow> \<not> prefix (level_pattern key) (c # u @ z) \<and> no_match key u z"
  unfolding no_match_def by (auto simp: less_Suc_eq_0_disj)

lemma no_match_append: "no_match key u (v @ z) \<Longrightarrow> no_match key v z \<Longrightarrow> no_match key (u @ v) z"
  by (induction u) (auto simp: no_match_Cons)

lemma no_match_plain: "quote_ch \<notin> set u \<Longrightarrow> no_match key u z"
  by (induction u) (auto simp: no_match_Cons level_pattern_def)

text \<open>A key that \<open>extractLevel\<close> can look for: a plain name that does not start like JSON syntax.\<close>

definition level_key_ok :: "string \<Rightarrow> bool" where
  "level_key_ok key \<longleftrightarrow> plain_name key \<and> key \<noteq> [] \<and> hd key \<notin> set '',:}''"

lemma prefix_but_last: "prefix (k @ [a, b, c]) t \<Longrightarrow> prefix (k @ [a, b]) t"
  using append_prefixD [of "k @ [a, b]" "[c]" t] by simp

lemma no_match_string:
  assumes "level_key_ok key" and "c \<in> set '',}''"
  shows "no_match key (json_string s) (c # r)"
proof -
  have body: "no_match key (t @ [quote_ch]) (c # r)" if "quotes_escaped t" for t
    using that
  proof (induction t)
    case Nil
    then show ?case
      using assms by (cases key) (auto simp: no_match_Cons level_pattern_def level_key_ok_def)
  next
    case (Cons d t)
    have "\<not> prefix (key @ [quote_ch, CHR '':'']) (t @ quote_ch # c # r)"
      using no_pattern_in_string [of key t c r] assms quotes_escaped_tl [OF Cons.prems]
      by (auto simp: level_key_ok_def)
    then have "\<not> prefix (level_pattern key) (d # (t @ [quote_ch]) @ c # r)"
      by (auto simp: level_pattern_def dest: prefix_but_last)
    then show ?case
      using Cons.IH [OF quotes_escaped_tl [OF Cons.prems]] by (simp add: no_match_Cons)
  qed
  have "\<not> prefix (key @ [quote_ch, CHR '':'']) (escape_loop s @ quote_ch # c # r)"
    using no_pattern_in_string [of key "escape_loop s" c r] assms quotes_escaped_loop
    by (auto simp: level_key_ok_def)
  then have "\<not> prefix (level_pattern key) (quote_ch # (escape_loop s @ [quote_ch]) @ c # r)"
    by (auto simp: level_pattern_def dest: prefix_but_last)
  then show ?thesis
    using body [OF quotes_escaped_loop] by (simp add: json_string_def no_match_Cons)
qed

lemma prefix_quote_unique:
  "quote_ch \<notin> set k \<Longrightarrow> quote_ch \<notin> set k' \<Longrightarrow> prefix (k @ quote_ch # x) (k' @ quote_ch # y) \<Longrightarrow> k = k'"
  by (induction k arbitrary: k'; case_tac k') auto

lemma no_match_name:
  assumes "level_key_ok key" and "plain_name k" and "k \<noteq> key"
  shows "no_match key (json_string k @ '':'') z"
proof -
  have "\<not> prefix (level_pattern key) (quote_ch # k @ quote_ch # CHR '':'' # z)"
    using prefix_quote_unique [of key k] assms
    by (auto simp: level_pattern_def level_key_ok_def plain_name_def)
  moreover have "no_match key (k @ (quote_ch # '':'')) z"
  proof (rule no_match_append)
    show "no_match key k ((quote_ch # '':'') @ z)"
      using assms(2) by (intro no_match_plain) (simp add: plain_name_def)
    show "no_match key (quote_ch # '':'') z"
      using assms(1) by (cases key) (auto simp: no_match_Cons level_pattern_def level_key_ok_def)
  qed
  moreover have "json_string k @ '':'' = quote_ch # k @ (quote_ch # '':'')"
    using assms(2) by (simp add: json_string_def plain_name_def)
  ultimately show ?thesis by (simp add: no_match_Cons)
qed

text \<open>Values whose JSON text is one string or has no quote: everything but nested and opaque values.\<close>

fun flat_value :: "gval \<Rightarrow> bool" where
  "flat_value (VNumber n) \<longleftrightarrow> quote_ch \<notin> set n"
| "flat_value (VMap m) \<longleftrightarrow> False"
| "flat_value (VStrings xs) \<longleftrightarrow> False"
| "flat_value (VList vs) \<longleftrightarrow> False"
| "flat_value (VLogValuer p v) \<longleftrightarrow> op_marshal p = None"
| "flat_value (VOther p) \<longleftrightarrow> op_marshal p = None"
| "flat_value _ \<longleftrightarrow> True"

lemma number_no_quote: "json_number n \<Longrightarrow> quote_ch \<notin> set n"
  using json_number_chars [of n quote_ch] by (auto simp: number_char_def)

lemma flat_value_text:
  "flat_value v \<Longrightarrow> (\<exists>s. json_value v = json_string s) \<or> quote_ch \<notin> set (json_value v)"
  using number_no_quote json_number_show_int json_number_show_nat(1) json_number_float
  by (cases v rule: flat_value.cases) (auto simp: json_float_def)

lemma no_match_member:
  assumes "level_key_ok key" and "plain_name k" and "k \<noteq> key" and "flat_value v" and "c \<in> set '',}''"
  shows "no_match key (json_string k @ '':'' @ json_value v) (c # r)"
proof -
  have "no_match key (json_value v) (c # r)"
    using flat_value_text [OF assms(4)] no_match_string [OF assms(1,5)] no_match_plain by metis
  then show ?thesis
    using no_match_append [OF no_match_name [OF assms(1-3)]] by (metis append_assoc)
qed

lemma commas_split:
  "commas 0 (xs @ y # zs) = concat (map (\<lambda>x. x @ '','') xs) @ y @ concat (map (\<lambda>x. '','' @ x) zs)"
proof (induction xs)
  case Nil
  then show ?case by (simp add: commas_pos)
next
  case (Cons x xs)
  then show ?case using commas_Suc [of 0 "xs @ y # zs"] by simp
qed

text \<open>The fields that come before the level in the output must be plain.\<close>

definition plain_fields :: "string \<Rightarrow> fields \<Rightarrow> bool" where
  "plain_fields key m \<longleftrightarrow> list_all (\<lambda>(k, v). k = key \<or> plain_name k \<and> flat_value v) m"

lemma no_match_members:
  assumes "level_key_ok key"
    and "\<forall>(k, v) \<in> set ps. k \<noteq> key \<and> plain_name k \<and> flat_value v"
  shows "no_match key (concat (map (\<lambda>x. x @ '','') (json_members ps))) z"
  using assms(2)
proof (induction ps)
  case Nil
  then show ?case by (simp add: json_members_def)
next
  case (Cons p ps)
  obtain k v where p: "p = (k, v)" by force
  let ?rest = "concat (map (\<lambda>x. x @ '','') (json_members ps))"
  have "no_match key ((json_string k @ '':'' @ json_value v) @ ('','' @ ?rest)) z"
  proof (rule no_match_append)
    show "no_match key (json_string k @ '':'' @ json_value v) (('','' @ ?rest) @ z)"
      using no_match_member [OF assms(1), of k v "CHR '',''" "?rest @ z"] Cons.prems p by simp
    show "no_match key ('','' @ ?rest) z"
      using Cons by (intro no_match_append) (simp_all add: no_match_plain)
  qed
  then show ?case by (simp add: p json_members_def)
qed

lemma json_entry_split:
  assumes "gomap_ok m" and "map_of m key = Some v"
  obtains ps qs where "sort_key fst m = ps @ (key, v) # qs" and "\<forall>(k, w) \<in> set ps. k \<noteq> key"
    and "set ps \<subseteq> set m"
    and "json_entry m = ''{'' @ concat (map (\<lambda>x. x @ '','') (json_members ps)) @
      (json_string key @ '':'' @ json_value v) @ concat (map (\<lambda>x. '','' @ x) (json_members qs)) @ ''}''"
proof -
  have "(key, v) \<in> set (sort_key fst m)" using assms by (simp add: map_of_SomeD)
  then obtain ps qs where split: "sort_key fst m = ps @ (key, v) # qs" by (meson split_list)
  have "distinct (map fst (sort_key fst m))"
    using assms(1) unfolding gomap_ok_def
    by (metis mset_map mset_sort mset_eq_imp_distinct_iff)
  then have "\<forall>(k, w) \<in> set ps. k \<noteq> key" by (force simp: split)
  moreover have "set ps \<subseteq> set m"
    by (metis split set_sort Un_upper1 set_append)
  ultimately show thesis
    using that [OF split] commas_split [of "json_members ps"]
    by (simp add: json_entry_def json_members_def split)
qed

lemma level_names_plain:
  "\<forall>n \<in> {''TRACE'', ''DEBUG'', ''INFO'', ''WARNING'', ''ERROR'', ''FATAL''}. plain_name n"
proof -
  have "list_all plain_name [''TRACE'', ''DEBUG'', ''INFO'', ''WARNING'', ''ERROR'', ''FATAL'']"
    by code_simp
  then show ?thesis by simp
qed

lemma extractLevel_json:
  assumes "gomap_ok m" and "level_key_ok key" and "plain_fields key m"
    and "map_of m key = Some (VString (level_String l))" and "l \<in> set named_levels"
  shows "extractLevel (json_entry m @ z) key = l"
proof -
  obtain ps qs where
    "sort_key fst m = ps @ (key, VString (level_String l)) # qs" and
    ps: "\<forall>(k, w) \<in> set ps. k \<noteq> key" "set ps \<subseteq> set m" and
    out: "json_entry m = ''{'' @ concat (map (\<lambda>x. x @ '','') (json_members ps)) @
      (json_string key @ '':'' @ json_value (VString (level_String l))) @
      concat (map (\<lambda>x. '','' @ x) (json_members qs)) @ ''}''"
    by (rule json_entry_split [OF assms(1,4)])
  let ?u = "''{'' @ concat (map (\<lambda>x. x @ '','') (json_members ps))"
  have name: "escape_loop (level_String l) = level_String l" "quote_ch \<notin> set (level_String l)"
    using bspec [OF level_names_plain level_String_cases [OF assms(5)]]
    by (simp_all add: plain_name_def)
  have key: "json_string key = quote_ch # key @ [quote_ch]"
    using assms(2) by (simp add: level_key_ok_def plain_name_def json_string_def)
  obtain v where v: "json_entry m @ z = ?u @ (level_pattern key @ level_String l @ quote_ch # v)"
    using out name(1) key by (auto simp: json_string_def level_pattern_def)
  have "no_match key ?u (level_pattern key @ level_String l @ quote_ch # v)"
  proof (rule no_match_append)
    show "no_match key ''{'' (concat (map (\<lambda>x. x @ '','') (json_members ps)) @
        level_pattern key @ level_String l @ quote_ch # v)"
      by (rule no_match_plain) simp
    show "no_match key (concat (map (\<lambda>x. x @ '','') (json_members ps)))
        (level_pattern key @ level_String l @ quote_ch # v)"
      using assms(3) ps by (intro no_match_members [OF assms(2)]) (force simp: plain_fields_def list_all_iff)
  qed
  then have "index_of (level_pattern key) (json_entry m @ z) = Some (length ?u)"
    unfolding v by (intro index_of_first) (simp_all add: no_match_def del: append_Cons)
  moreover have "drop (length ?u + length (level_pattern key)) (json_entry m @ z) = level_String l @ quote_ch # v"
    unfolding v by simp
  ultimately have "extractLevel (json_entry m @ z) key =
      (let name = level_String l in
       if name = ''TRACE'' then TRACE else if name = ''DEBUG'' then DEBUG
       else if name = ''INFO'' then INFO else if name = ''WARNING'' then WARNING
       else if name = ''ERROR'' then ERROR else if name = ''FATAL'' then FATAL else INFO)"
    using index_byte_append [OF name(2), of v]
    by (simp add: extractLevel_def level_pattern_def [symmetric] Let_def del: index_byte_Cons)
  also have "\<dots> = l"
    using assms(5) by (auto simp: named_levels_def level_String_def level_consts)
  finally show ?thesis .
qed

section \<open>Filtering\<close>

text \<open>A filtered writer after the JSON formatter drops an entry exactly when its level is below the
  minimum, with or without a key map, provided that the level key is the configured one and the
  other fields are flat and have plain names; what passes is passed on unchanged.\<close>

theorem FilteredWriter_filters_by_level:
  assumes "JSON_Format km m = Inr line" and "gomap_ok (remapped m km)"
    and "level_key_ok key" and "plain_fields key (remapped m km)"
    and "map_of (remapped m km) key = Some (VString (level_String l))" and "l \<in> set named_levels"
  shows "writer_Write env (FilteredWriter inner minLevel key) (line @ [newline]) w =
    (if l < minLevel then ((length line + 1, None), w)
     else writer_Write env inner (line @ [newline]) w)"
proof -
  have "line = json_entry (remapped m km)"
    using assms(1) by (simp add: JSON_Format_def append_eqs)
  then show ?thesis using extractLevel_json [OF assms(2-6)] by simp
qed

theorem FilteredWriter_filters_by_level_witness:
  "writer_Write quiet_sinks (FilteredWriter Discard ERROR ''severity'')
     (projr (JSON_Format GCPKeyMap [(''level'', VString ''INFO''), (''a'', VString [quote_ch])]) @ [newline]) empty_world
   = ((length (projr (JSON_Format GCPKeyMap [(''level'', VString ''INFO''), (''a'', VString [quote_ch])])) + 1, None), empty_world)"
proof -
  let ?m = "[(''level'', VString ''INFO''), (''a'', VString [quote_ch])]"
  have "plain_fields ''severity'' (remapped ?m GCPKeyMap) \<and> level_key_ok ''severity''" by code_simp
  moreover have "JSON_Format GCPKeyMap ?m = Inr (projr (JSON_Format GCPKeyMap ?m))"
    by (simp add: JSON_Format_def)
  moreover have "gomap_ok (remapped ?m GCPKeyMap)"
      "map_of (remapped ?m GCPKeyMap) ''severity'' = Some (VString (level_String INFO))"
    by (simp_all add: remapped_def applyKeyMap_def GCPKeyMap_def level_String_def level_consts gomap_ok_def)
  moreover have "INFO \<in> set named_levels" "INFO < ERROR" by (simp_all add: named_levels_def level_consts)
  ultimately show ?thesis
    using FilteredWriter_filters_by_level [of GCPKeyMap ?m _ "''severity''" INFO quiet_sinks Discard ERROR empty_world] by simp
qed

text \<open>The level is found by text search, so other fields can shadow it: a nested map that comes
  first in the output with a level of its own, or a key that ends in a quote and the level's name.
  An error entry is then dropped by a writer for warnings and above.\<close>

theorem FilteredWriter_fooled:
  "snd (writer_Write env (FilteredWriter (Sink 0 False None) WARNING ''level'')
     (projr (JSON_Format [] [(''level'', VString ''ERROR''), (''job'', VMap [(''level'', VString ''INFO'')])])) w) = w \<and>
   snd (writer_Write env (FilteredWriter (Sink 0 False None) WARNING ''level'')
     (projr (JSON_Format [] [(''level'', VString ''ERROR''), (''a'' @ quote_ch # ''level'', VString ''INFO'')])) w) = w"
proof -
  have a: "extractLevel (projr (JSON_Format [] [(''level'', VString ''ERROR''), (''job'', VMap [(''level'', VString ''INFO'')])]))
      ''level'' = INFO" by code_simp
  have b: "extractLevel (projr (JSON_Format [] [(''level'', VString ''ERROR''), (''a'' @ quote_ch # ''level'', VString ''INFO'')]))
      ''level'' = INFO" by code_simp
  show ?thesis using a b by (simp add: level_consts)
qed

text \<open>What is not JSON counts as \<open>INFO\<close>: a writer with a higher minimum drops every text or logfmt
  line, an error too, although the documentation says that such entries pass unchanged.\<close>

theorem FilteredWriter_drops_non_JSON:
  assumes "\<not> sublist (level_pattern key) p"
  shows "writer_Write env (FilteredWriter inner minLevel key) p w =
    (if INFO < minLevel then ((length p, None), w) else writer_Write env inner p w)"
  using assms by (simp add: extractLevel_def level_pattern_def [symmetric] index_of_None_iff [symmetric] Let_def)

theorem FilteredWriter_drops_non_JSON_witness:
  "writer_Write quiet_sinks (FilteredWriter Discard ERROR ''level'') ''level=FATAL'' empty_world = ((11, None), empty_world)"
proof -
  have "\<not> sublist (level_pattern ''level'') ''level=FATAL''"
    unfolding index_of_None_iff [symmetric] by code_simp
  from FilteredWriter_drops_non_JSON [OF this] show ?thesis by (simp add: level_consts)
qed

section \<open>Fan-out\<close>

text \<open>The world after a write to every writer of a list in turn, and when all of them succeed.\<close>

fun after_all :: "sinks \<Rightarrow> writer list \<Rightarrow> string \<Rightarrow> world \<Rightarrow> world" where
  "after_all env [] p w = w"
| "after_all env (x # r) p w = after_all env r p (snd (writer_Write env x p w))"

fun all_succeed :: "sinks \<Rightarrow> writer list \<Rightarrow> string \<Rightarrow> world \<Rightarrow> bool" where
  "all_succeed env [] p w \<longleftrightarrow> True"
| "all_succeed env (x # r) p w \<longleftrightarrow>
     snd (fst (writer_Write env x p w)) = None \<and> all_succeed env r p (snd (writer_Write env x p w))"

lemma fanout_loop_cases:
  "all_succeed env ws p w \<and> fanout_loop env ws p w = ((length p, None), after_all env ws p w) \<or>
   (\<exists>ws1 x ws2 n e. ws = ws1 @ x # ws2 \<and> all_succeed env ws1 p w \<and>
      fst (writer_Write env x p (after_all env ws1 p w)) = (n, Some e) \<and>
      fanout_loop env ws p w = ((n, Some (wrap_fanout e)), after_all env (ws1 @ [x]) p w))"
proof (induction ws arbitrary: w)
  case (Cons x ws)
  obtain n err w1 where x: "writer_Write env x p w = ((n, err), w1)" by (metis surj_pair)
  show ?case
  proof (cases err)
    case (Some e)
    then show ?thesis using x by (intro disjI2 exI [of _ "[]"] exI [of _ x] exI [of _ ws]) simp
  next
    case None
    from Cons.IH [of w1] show ?thesis
    proof (elim disjE exE conjE)
      fix ws1 y ws2 m e
      assume "ws = ws1 @ y # ws2" "all_succeed env ws1 p w1"
        "fst (writer_Write env y p (after_all env ws1 p w1)) = (m, Some e)"
        "fanout_loop env ws p w1 = ((m, Some (wrap_fanout e)), after_all env (ws1 @ [y]) p w1)"
      then show ?thesis
        using x None by (intro disjI2 exI [of _ "x # ws1"] exI [of _ y] exI [of _ ws2]) simp
    qed (use x None in simp)
  qed
qed simp

text \<open>A fan-out write succeeds exactly when every writer does, and then each has been written to
  once, in order; otherwise it stops at the first failing writer, wraps its error, and the writers
  after it are not called.\<close>

theorem FanOutWriter_write:
  "all_succeed env ws p w \<and>
     writer_Write env (FanOutWriter ws) p w = ((length p, None), after_all env ws p w) \<or>
   (\<exists>ws1 x ws2 n e. ws = ws1 @ x # ws2 \<and> all_succeed env ws1 p w \<and>
      fst (writer_Write env x p (after_all env ws1 p w)) = (n, Some e) \<and>
      writer_Write env (FanOutWriter ws) p w =
        ((n, Some (GoErr ''*fmt.wrapError'' (''fanout write failed: '' @ err_Error e) (Some e))),
         after_all env (ws1 @ [x]) p w))"
  using fanout_loop_cases [of env ws p w] by (auto simp: wrap_fanout_def)

definition routed :: "level \<Rightarrow> string \<Rightarrow> (nat \<times> level) list \<Rightarrow> io_event list" where
  "routed l p xs = map (\<lambda>(i, minLevel). EvWrite i p) (filter (\<lambda>(i, minLevel). minLevel \<le> l) xs)"

lemma fanout_filtered:
  assumes "\<forall>i h. snd (on_Write env i h) = None" and "extractLevel p key = l"
  shows "fanout_loop env (map (\<lambda>(i, minLevel). FilteredWriter (Sink i sy fd) minLevel key) xs) p w =
    ((length p, None), w\<lparr>io := io w @ routed l p xs\<rparr>)"
proof (induction xs arbitrary: w)
  case Nil
  then show ?case by (simp add: routed_def)
next
  case (Cons x xs)
  obtain i lv where x: "x = (i, lv)" by force
  obtain n err where n: "on_Write env i (io w @ [EvWrite i p]) = (n, err)" by force
  have "err = None" using assms(1) n by (metis snd_conv)
  then show ?case
    using Cons assms(2) n by (auto simp: x sink_write_def routed_def not_less)
qed

text \<open>The documented way to route entries by severity: a fan-out of filtered sinks behind the JSON
  formatter delivers an entry to exactly the sinks whose minimum it reaches, once each and in
  order, as long as no sink fails.\<close>

theorem FanOut_routes_by_level:
  assumes "JSON_Format km m = Inr line" and "gomap_ok (remapped m km)"
    and "level_key_ok key" and "plain_fields key (remapped m km)"
    and "map_of (remapped m km) key = Some (VString (level_String l))" and "l \<in> set named_levels"
    and "\<forall>i h. snd (on_Write env i h) = None"
  shows "writer_Write env
      (FanOutWriter (map (\<lambda>(i, minLevel). FilteredWriter (Sink i sy fd) minLevel key) sinks)) (line @ [newline]) w =
    ((length line + 1, None),
     w\<lparr>io := io w @ map (\<lambda>(i, minLevel). EvWrite i (line @ [newline]))
         (filter (\<lambda>(i, minLevel). minLevel \<le> l) sinks)\<rparr>)"
proof -
  have "extractLevel (line @ [newline]) key = l"
    using assms(1) extractLevel_json [OF assms(2-6)] by (simp add: JSON_Format_def append_eqs)
  then show ?thesis using fanout_filtered [OF assms(7), of _ key l] by (simp add: routed_def)
qed

theorem FanOut_routes_by_level_witness:
  "io (snd (writer_Write \<lparr>on_Write = \<lambda>i h. (0, None), on_Sync = \<lambda>i h. None\<rparr>
      (FanOutWriter (map (\<lambda>(i, minLevel). FilteredWriter (Sink i True None) minLevel ''level'') [(1, INFO), (2, ERROR)]))
      (projr (JSON_Format [] [(''level'', VString ''WARNING'')]) @ [newline])
      \<lparr>io = [], asyncs = \<lambda>_. NewAsyncWriter 1\<rparr>))
   = [EvWrite 1 (projr (JSON_Format [] [(''level'', VString ''WARNING'')]) @ [newline])]"
proof -
  let ?m = "[(''level'', VString ''WARNING'')]"
  have "plain_fields ''level'' (remapped ?m []) \<and> level_key_ok ''level''" by code_simp
  moreover have "JSON_Format [] ?m = Inr (projr (JSON_Format [] ?m))"
    by (simp add: JSON_Format_def)
  moreover have "gomap_ok (remapped ?m [])"
      "map_of (remapped ?m []) ''level'' = Some (VString (level_String WARNING))"
      "WARNING \<in> set named_levels"
    by (simp_all add: remapped_def level_String_def level_consts gomap_ok_def named_levels_def)
  ultimately show ?thesis
    using FanOut_routes_by_level [of "[]" ?m _ "''level''" WARNING
        "\<lparr>on_Write = \<lambda>i h. (0, None), on_Sync = \<lambda>i h. None\<rparr>" True None "[(1, INFO), (2, ERROR)]"]
    by (simp add: level_consts)
qed

section \<open>Syncing\<close>

text \<open>The errors of syncing sinks one after the other, after a history.\<close>

fun sync_errors :: "sinks \<Rightarrow> nat list \<Rightarrow> io_event list \<Rightarrow> goerr list" where
  "sync_errors env [] h = []"
| "sync_errors env (i # r) h =
     (case on_Sync env i (h @ [EvSync i]) of None \<Rightarrow> [] | Some e \<Rightarrow> [e]) @ sync_errors env r (h @ [EvSync i])"

lemma sync_loop_sinks:
  "sync_loop env (map (\<lambda>(i, sy). Sink i sy None) xs) errs w =
    (errors_Join (errs @ sync_errors env (map fst (filter snd xs)) (io w)),
     w\<lparr>io := io w @ map EvSync (map fst (filter snd xs))\<rparr>)"
proof (induction xs arbitrary: errs w)
  case (Cons x xs)
  obtain i sy where x: "x = (i, sy)" by force
  then show ?case by (cases sy) (auto simp: Cons.IH sink_sync_def Let_def split: option.splits)
qed simp

text \<open>Syncing a fan-out of sinks syncs every sink that can be, once and in order, whatever the
  others answer, and joins all errors; it reports no error exactly when there was none.\<close>

theorem FanOutWriter_sync_reaches_all:
  "writer_Sync env (FanOutWriter (map (\<lambda>(i, sy). Sink i sy None) sinks)) w =
     (errors_Join (sync_errors env (map fst (filter snd sinks)) (io w)),
      w\<lparr>io := io w @ map EvSync (map fst (filter snd sinks))\<rparr>) \<and>
   (errors_Join es = None \<longleftrightarrow> es = [])"
  using sync_loop_sinks [of env sinks "[]" w] by (simp add: errors_Join_def)

section \<open>The contract of io.Writer\<close>

text \<open>
  Go's contract: a writer reports at most the length of the argument, and an error when it
  reports less.
\<close>

definition write_result_ok :: "string \<Rightarrow> write_result \<Rightarrow> bool" where
  "write_result_ok p res \<longleftrightarrow> fst res \<le> length p \<and> (fst res < length p \<longrightarrow> snd res \<noteq> None)"

fun without_async :: "writer \<Rightarrow> bool" where
  "without_async (AsyncWriter i inner) \<longleftrightarrow> False"
| "without_async (FilteredWriter inner minLevel key) \<longleftrightarrow> without_async inner"
| "without_async (FanOutWriter ws) \<longleftrightarrow> list_all without_async ws"
| "without_async _ \<longleftrightarrow> True"

lemma writers_keep_contract:
  assumes "\<forall>i h p. write_result_ok p (on_Write env i (h @ [EvWrite i p]))"
  shows "without_async x \<Longrightarrow> write_result_ok p (fst (writer_Write env x p w))"
    and "list_all without_async xs \<Longrightarrow> write_result_ok p (fst (fanout_loop env xs p w))"
  using assms
proof (induction env x p w and env xs p w rule: writer_Write_fanout_loop.induct)
  case (7 env x r p w)
  obtain n err w1 where x: "writer_Write env x p w = ((n, err), w1)" by (metis surj_pair)
  with 7 show ?case by (cases err) (auto simp: write_result_ok_def)
qed (auto simp: write_result_ok_def sink_write_def)

text \<open>C34: Filtering and fan-out keep the contract of \<open>io.Writer\<close>: if every sink honours it, so does
  every tree of them. An asynchronous writer does not: when its buffer is full it reports no
  bytes written and no error.\<close>

theorem writer_tree_honours_io_Writer:
  assumes "\<forall>i h p. write_result_ok p (on_Write env i (h @ [EvWrite i p]))" and "without_async x"
  shows "write_result_ok p (fst (writer_Write env x p w)) \<and>
    fst (snd (async_Write ''x'' ((NewAsyncWriter 1)\<lparr>ch := [''full'']\<rparr>))) = (0, None) \<and>
    \<not> write_result_ok ''x'' (0, None)"
  using writers_keep_contract(1) [OF assms]
  by (simp add: async_Write_def NewAsyncWriter_def write_result_ok_def)

theorem writer_tree_honours_io_Writer_witness:
  "write_result_ok ''abc'' (fst (writer_Write \<lparr>on_Write = \<lambda>i h. (0, Some (GoErr ''e'' ''m'' None)), on_Sync = \<lambda>i h. None\<rparr>
     (FanOutWriter [Sink 0 False None, Discard]) ''abc'' empty_world))"
  using writer_tree_honours_io_Writer [of "\<lparr>on_Write = \<lambda>i h. (0, Some (GoErr ''e'' ''m'' None)), on_Sync = \<lambda>i h. None\<rparr>"
      "FanOutWriter [Sink 0 False None, Discard]" "''abc''" empty_world]
  by (simp add: write_result_ok_def)

section \<open>What an operation adds to the history\<close>

definition adds_only :: "(io_event \<Rightarrow> bool) \<Rightarrow> world \<Rightarrow> world \<Rightarrow> bool" where
  "adds_only P w w' \<longleftrightarrow> (\<exists>es. io w' = io w @ es \<and> list_all P es)"

lemma adds_only_refl [simp, intro]: "adds_only P w w"
  by (simp add: adds_only_def)

lemma adds_only_trans [trans]: "adds_only P u v \<Longrightarrow> adds_only P v w \<Longrightarrow> adds_only P u w"
  by (auto simp: adds_only_def)

lemma adds_only_async [simp]: "adds_only P u (set_async i a w) \<longleftrightarrow> adds_only P u w"
  by (simp add: adds_only_def set_async_def)

lemma adds_only_write:
  assumes "\<And>i p. P (EvWrite i p)"
  shows "adds_only P w (snd (writer_Write env d p w))" and "adds_only P w (snd (fanout_loop env ds p w))"
proof (induction env d p w and env ds p w rule: writer_Write_fanout_loop.induct)
  case (3 env i inner p w)
  then show ?case by (simp split: prod.split)
next
  case (7 env x r p w)
  obtain n err v where res: "writer_Write env x p w = ((n, err), v)" by (metis surj_pair)
  then have "adds_only P w v" using "7.IH"(1) by simp
  moreover have "adds_only P v (snd (fanout_loop env r p v))" if "err = None" using "7.IH"(2) res that by simp
  ultimately show ?case using res adds_only_trans by (cases err) auto
qed (simp_all add: adds_only_def sink_write_def assms)

lemma adds_only_write_all:
  assumes "\<And>i p. P (EvWrite i p)"
  shows "adds_only P w (write_all env d ms w)"
proof (induction ms arbitrary: w)
  case (Cons m ms)
  show ?case using adds_only_trans [OF adds_only_write(1) Cons.IH] assms by (simp add: write_all_def)
qed (simp add: write_all_def)

lemma adds_only_sync:
  assumes "\<And>i p. P (EvWrite i p)" and "\<And>i. P (EvSync i)"
  shows "adds_only P w (snd (writer_Sync env d w))" and "adds_only P w (snd (sync_loop env ds errs w))"
proof (induction env d w and env ds errs w rule: writer_Sync_sync_loop.induct)
  case (3 env i inner w)
  let ?v = "write_all env inner (pending (asyncs w i)) (set_async i (Close_call (is_Syncer inner) (asyncs w i)) w)"
  have "adds_only P w ?v"
    using adds_only_trans [OF _ adds_only_write_all] assms(1) by (simp add: adds_only_def set_async_def)
  then show ?case using 3 adds_only_trans by (auto simp: Let_def)
next
  case (7 env x r errs w)
  then show ?case using adds_only_trans by (fastforce split: prod.split option.split)
qed (simp_all add: adds_only_def sink_sync_def assms)

section \<open>Terminals\<close>

text \<open>The leaf that unwrapping reaches, if it is a file.\<close>

fun first_file :: "writer \<Rightarrow> nat option" where
  "first_file (Sink i sy fd) = fd"
| "first_file Discard = None"
| "first_file (AsyncWriter i inner) = first_file inner"
| "first_file (FilteredWriter inner minLevel key) = first_file inner"
| "first_file (FanOutWriter []) = None"
| "first_file (FanOutWriter (x # xs)) = first_file x"

lemma fileIsTerminal_first:
  "fileIsTerminal tty (Some x) \<longleftrightarrow> (\<exists>fd. first_file x = Some fd \<and> tty fd)"
  by (induction x rule: first_file.induct) (simp_all split: option.split)

text \<open>The formatter that \<open>WithAutoFormat\<close> chooses, on every platform and for any nesting of writers: coloured text if
  the first leaf that unwrapping reaches is a file and the kernel answers that platform's request on its descriptor
  without an error, and JSON otherwise; so a fan-out of a terminal and a file is coloured text, for the file
  as well, and on Windows it is always JSON. The search always ends.\<close>

theorem auto_format_first_leaf:
  "auto_formatter (isTerminal platform ioctl) out =
     (case first_file out of
        None \<Rightarrow> JSONFormatter []
      | Some fd \<Rightarrow>
          if platform = Linux \<and> ioctl fd TCGETS = 0 \<or> platform = BSD \<and> ioctl fd TIOCGETA = 0
          then TextFormatter False [] else JSONFormatter [])"
  by (cases platform) (simp_all add: auto_formatter_def fileIsTerminal_first isTerminal_linux_def isTerminal_bsd_def
      isTerminal_windows_def split: option.split del: fileIsTerminal.simps)

end
