(* ===== verification/CoreCorrect.thy ===== *)
theory CoreCorrect
  imports LogCore WritersCorrect
begin

text \<open>
  The logger: the shape of the heap of loggers, levels shared by a family, the guards of a logging
  call, the entry it assembles, and the order of everything it does.
\<close>

section \<open>The heap of loggers\<close>

text \<open>Children point at a root, and a root has no parent: \<open>With\<close> flattens the chain.\<close>

definition heap_ok :: "system \<Rightarrow> bool" where
  "heap_ok s \<longleftrightarrow>
     (\<forall>a r. a < length (loggers s) \<longrightarrow> lg_parent (logger_at s a) = Some r \<longrightarrow>
        r < length (loggers s) \<and> lg_parent (logger_at s r) = None)"

lemma heap_okI:
  "(\<And>a r. a < length (loggers s) \<Longrightarrow> lg_parent (logger_at s a) = Some r \<Longrightarrow>
     r < length (loggers s) \<and> lg_parent (logger_at s r) = None) \<Longrightarrow> heap_ok s"
  unfolding heap_ok_def by blast

lemma heap_okD:
  "heap_ok s \<Longrightarrow> a < length (loggers s) \<Longrightarrow> lg_parent (logger_at s a) = Some r \<Longrightarrow>
     r < length (loggers s) \<and> lg_parent (logger_at s r) = None"
  unfolding heap_ok_def by blast

lemma root_valid:
  "heap_ok s \<Longrightarrow> a < length (loggers s) \<Longrightarrow>
     root s a < length (loggers s) \<and> lg_parent (root_logger s a) = None"
  unfolding root_def by (cases "lg_parent (logger_at s a)") (use heap_okD [of s a] in \<open>simp_all (no_asm_simp)\<close>)

lemma root_root: "heap_ok s \<Longrightarrow> a < length (loggers s) \<Longrightarrow> root s (root s a) = root s a"
  using root_valid [of s a] by (simp add: root_def)

lemma root_append [simp]:
  "a < length (loggers s) \<Longrightarrow> root (s\<lparr>loggers := loggers s @ ls\<rparr>) a = root s a"
  by (simp add: root_def nth_append)

lemma heap_ok_add:
  assumes "heap_ok s" and "lg_parent l = None \<or> (\<exists>a < length (loggers s). lg_parent l = Some (root s a))"
  shows "heap_ok (snd (add_logger l s))"
proof (rule heap_okI)
  fix b r
  let ?s = "snd (add_logger l s)"
  assume b: "b < length (loggers ?s)" and p: "lg_parent (logger_at ?s b) = Some r"
  have r: "r < length (loggers s) \<and> lg_parent (logger_at s r) = None"
  proof (cases "b < length (loggers s)")
    case True
    then have "lg_parent (logger_at s b) = Some r" using p by (simp add: add_logger_def nth_append)
    then show ?thesis by (rule heap_okD [OF assms(1) True])
  next
    case False
    with b have "b = length (loggers s)" by (simp add: add_logger_def)
    with p have "lg_parent l = Some r" by (simp add: add_logger_def)
    with assms(2) obtain a where a: "a < length (loggers s)" "lg_parent l = Some (root s a)"
      by (metis option.distinct(1))
    with \<open>lg_parent l = Some r\<close> have "r = root s a" by (simp only: option.inject)
    with a(1) show ?thesis using root_valid [OF assms(1) a(1)] by (simp only:)
  qed
  then show "r < length (loggers ?s) \<and> lg_parent (logger_at ?s r) = None"
    by (simp add: add_logger_def nth_append)
qed

definition same_parents :: "system \<Rightarrow> system \<Rightarrow> bool" where
  "same_parents s s' \<longleftrightarrow> map lg_parent (loggers s) = map lg_parent (loggers s')"

lemma same_parents_root: "same_parents s s' \<Longrightarrow> a < length (loggers s) \<Longrightarrow> root s' a = root s a"
  unfolding same_parents_def root_def by (metis length_map nth_map)

lemma same_parents_length: "same_parents s s' \<Longrightarrow> length (loggers s') = length (loggers s)"
  unfolding same_parents_def by (metis length_map)

lemma same_parents_ok:
  assumes "same_parents s s'" and "heap_ok s"
  shows "heap_ok s'"
proof -
  have len: "length (loggers s') = length (loggers s)" by (rule same_parents_length [OF assms(1)])
  have "lg_parent (logger_at s' a) = lg_parent (logger_at s a)" if "a < length (loggers s)" for a
    using assms(1) that len unfolding same_parents_def by (metis nth_map)
  then show ?thesis
    using assms(2) len unfolding heap_ok_def by metis
qed

lemma same_parents_trans: "same_parents s t \<Longrightarrow> same_parents t u \<Longrightarrow> same_parents s u"
  by (simp add: same_parents_def)

lemma same_parents_refl [simp]: "same_parents s s"
  by (simp add: same_parents_def)

lemma same_parents_update:
  assumes "lg_parent r' = lg_parent (logger_at s a)"
  shows "same_parents s (s\<lparr>loggers := (loggers s)[a := r']\<rparr>)"
proof (cases "a < length (loggers s)")
  case True
  then have "(map lg_parent (loggers s))[a := lg_parent r'] = map lg_parent (loggers s)"
    using assms by (metis list_update_id nth_map)
  then show ?thesis by (simp add: same_parents_def map_update)
next
  case False
  then show ?thesis by (simp add: same_parents_def list_update_beyond)
qed

lemma same_parents_update_root:
  "lg_parent (f (root_logger s a)) = lg_parent (root_logger s a) \<Longrightarrow> same_parents s (update_root a f s)"
  unfolding update_root_def by (rule same_parents_update)

lemma same_parents_world [simp]:
  "same_parents s (t\<lparr>the_world := w\<rparr>) \<longleftrightarrow> same_parents s t"
  "same_parents s (t\<lparr>eventCounter := c\<rparr>) \<longleftrightarrow> same_parents s t"
  by (simp_all add: same_parents_def)

lemma write_line_parent: "lg_parent (fst (write_line env r line w)) = lg_parent r"
  by (simp add: write_line_def Let_def split: prod.split option.split)

lemma writeEntry_parents: "same_parents s (writeEntry env ce ra level message fs s)"
proof -
  obtain entry fs' c where asm: "assemble ce (logger_at s ra) level message fs (eventCounter s) = (entry, fs', c)"
    by (rule prod_cases3)
  show ?thesis
  proof (cases "run_middleware (lg_middleware (logger_at s ra)) entry")
    case None
    then show ?thesis by (simp add: writeEntry_def asm)
  next
    case (Some entry')
    obtain r' w where wr: "write_line env (logger_at s ra) (render ce (logger_at s ra) entry') (the_world s) = (r', w)"
      by force
    then have "lg_parent r' = lg_parent (logger_at s ra)" by (metis fst_conv write_line_parent)
    then have "same_parents s (s\<lparr>loggers := (loggers s)[ra := r']\<rparr>)" by (rule same_parents_update)
    then show ?thesis using Some wr by (simp add: writeEntry_def asm Let_def same_parents_def)
  qed
qed

lemma admit_parent: "admit ce r level message = Some (ok, r') \<Longrightarrow> lg_parent r' = lg_parent r"
  by (auto simp: admit_def split: if_splits option.splits)

lemma internalLog_parents:
  assumes "internalLog env ce a level message fs s = Some s'"
  shows "same_parents s s'"
proof -
  obtain ok r where ad: "admit ce (root_logger s a) level message = Some (ok, r)"
    using assms by (auto simp: internalLog_def split: option.splits)
  have "same_parents s (update_root a (\<lambda>_. r) s)"
    by (rule same_parents_update_root) (simp add: admit_parent [OF ad])
  then show ?thesis
    using assms ad writeEntry_parents
    by (auto simp: internalLog_def Let_def intro: same_parents_trans split: if_splits)
qed

lemma internalLogCtx_parents:
  assumes "internalLogCtx env ce a ctx level message fs s = Some s'"
  shows "same_parents s s'"
proof -
  obtain ok r where ad: "admit ce (root_logger s a) level message = Some (ok, r)"
    using assms by (auto simp: internalLogCtx_def split: option.splits)
  have "same_parents s (update_root a (\<lambda>_. r) s)"
    by (rule same_parents_update_root) (simp add: admit_parent [OF ad])
  then show ?thesis
    using assms ad writeEntry_parents
    by (auto simp: internalLogCtx_def Let_def intro: same_parents_trans split: if_splits)
qed

text \<open>Every state that the exported operations can reach, on loggers that exist.\<close>

inductive reachable :: "sinks \<Rightarrow> world \<Rightarrow> system \<Rightarrow> bool" for env :: sinks and w :: world where
  initial: "reachable env w \<lparr>loggers = [], the_world = w, eventCounter = 0\<rparr>"
| new_root: "reachable env w s \<Longrightarrow> \<forall>opt \<in> set opts. \<forall>l. lg_parent (opt l) = lg_parent l \<Longrightarrow>
    reachable env w (snd (New out level opts s))"
| child: "reachable env w s \<Longrightarrow> a < length (loggers s) \<Longrightarrow> reachable env w (snd (With a fs s))"
| extractor: "reachable env w s \<Longrightarrow> a < length (loggers s) \<Longrightarrow>
    reachable env w (snd (WithContextExtractor a fn s))"
| set_level: "reachable env w s \<Longrightarrow> a < length (loggers s) \<Longrightarrow> reachable env w (SetLevel a level s)"
| log: "reachable env w s \<Longrightarrow> a < length (loggers s) \<Longrightarrow>
    internalLog env ce a level message fs s = Some s' \<Longrightarrow> reachable env w s'"
| log_ctx: "reachable env w s \<Longrightarrow> a < length (loggers s) \<Longrightarrow>
    internalLogCtx env ce a ctx level message fs s = Some s' \<Longrightarrow> reachable env w s'"
| sync: "reachable env w s \<Longrightarrow> a < length (loggers s) \<Longrightarrow> reachable env w (snd (Sync env a s))"

lemma options_parent:
  "\<forall>opt \<in> set opts. \<forall>l. lg_parent (opt l) = lg_parent l \<Longrightarrow>
     lg_parent (fold (\<lambda>opt l. opt l) opts l) = lg_parent l"
  by (induction opts arbitrary: l) auto

lemma heap_ok_With:
  assumes "heap_ok s" and "a < length (loggers s)"
  shows "heap_ok (snd (With a fs s))"
  unfolding With_def using assms by (intro heap_ok_add) auto

lemma heap_ok_extractor:
  assumes "heap_ok s" and "a < length (loggers s)"
  shows "heap_ok (snd (WithContextExtractor a fn s))"
proof -
  obtain c t where w: "With a [] s = (c, t)" by force
  then have "heap_ok t" using heap_ok_With [OF assms, of "[]"] by simp
  moreover have "same_parents t (snd (WithContextExtractor a fn s))"
    by (simp add: WithContextExtractor_def w same_parents_update)
  ultimately show ?thesis by (rule same_parents_ok [rotated])
qed

lemma close_root_parents: "same_parents s (close_root a s)"
  unfolding close_root_def by (rule same_parents_update_root) simp

lemma Sync_parents: "same_parents s (snd (Sync env a s))"
  using close_root_parents by (simp add: Sync_def Let_def split: prod.split)

lemma reachable_heap_ok: "reachable env w s \<Longrightarrow> heap_ok s"
proof (induction rule: reachable.induct)
  case initial
  then show ?case by (simp add: heap_ok_def)
next
  case (new_root s opts out level)
  then show ?case
    unfolding New_def by (intro heap_ok_add) (simp_all add: options_parent zero_logger_def)
next
  case (child s a fs)
  then show ?case by (blast intro: heap_ok_With)
next
  case (extractor s a fn)
  then show ?case by (blast intro: heap_ok_extractor)
next
  case (set_level s a level)
  have "same_parents s (SetLevel a level s)"
    unfolding SetLevel_def by (rule same_parents_update_root) simp
  then show ?case using set_level.IH by (rule same_parents_ok)
next
  case (log s a ce level message fs s')
  then show ?case by (blast intro: same_parents_ok internalLog_parents)
next
  case (log_ctx s a ce ctx level message fs s')
  then show ?case by (blast intro: same_parents_ok internalLogCtx_parents)
next
  case (sync s a)
  then show ?case by (blast intro: same_parents_ok Sync_parents)
qed

text \<open>C36: In every reachable state a logger is at most one hop from its root, and a child made with
  \<open>With\<close> belongs to the same root as the logger it was made from, with the merged fields.\<close>

theorem With_one_hop:
  assumes "reachable env w s" and "a < length (loggers s)" and "With a fs s = (c, s')"
  shows "lg_parent (root_logger s a) = None \<and> root s' c = root s a \<and> root s' a = root s a \<and>
    lg_fields (logger_at s' c) = mergeFields (lg_fields (logger_at s a)) fs \<and>
    lg_extractors (logger_at s' c) = lg_extractors (logger_at s a)"
proof -
  note ok = root_valid [OF reachable_heap_ok [OF assms(1)] assms(2)]
  have s': "c = length (loggers s)" "s' = s\<lparr>loggers := loggers s @ [zero_logger\<lparr>lg_parent := Some (root s a),
      lg_fields := mergeFields (lg_fields (logger_at s a)) fs,
      lg_extractors := lg_extractors (logger_at s a)\<rparr>]\<rparr>"
    using assms(3) by (simp_all add: With_def add_logger_def)
  have "root s' a = root s a" unfolding s' by (rule root_append [OF assms(2)])
  moreover have "root s' c = root s a" by (simp add: s' root_def [of _ "length (loggers s)"])
  ultimately show ?thesis using ok by (simp add: s')
qed

lemma one_logger: "reachable quiet_sinks empty_world (snd (New Discard INFO [] empty_system))"
  unfolding empty_system_def by (rule reachable.new_root [OF reachable.initial]) simp

theorem With_one_hop_witness:
  "root (snd (With 0 [(''a'', VInt 1)] (snd (New Discard INFO [] empty_system)))) 1 = 0"
proof -
  let ?s = "snd (New Discard INFO [] empty_system)"
  have len: "length (loggers ?s) = 1" by (simp add: New_def add_logger_def empty_system_def)
  have w: "With 0 [(''a'', VInt 1)] ?s = (1, snd (With 0 [(''a'', VInt 1)] ?s))"
    using len by (simp add: With_def add_logger_def)
  have "root ?s 0 = 0" by (simp add: root_def New_def add_logger_def zero_logger_def empty_system_def)
  then show ?thesis using With_one_hop [OF one_logger _ w] len by simp
qed

section \<open>Levels\<close>

lemma root_update_root:
  assumes "heap_ok s" and "a < length (loggers s)" and "b < length (loggers s)"
    and "lg_parent (f (root_logger s a)) = None"
  shows "root (update_root a f s) b = root s b"
proof -
  have "same_parents s (update_root a f s)"
    using assms(4) root_valid [OF assms(1,2)] by (intro same_parents_update_root) simp
  then show ?thesis by (rule same_parents_root [OF _ assms(3)])
qed

lemma update_root_at:
  assumes "heap_ok s" and "a < length (loggers s)" and "b < length (loggers s)"
    and "lg_parent (f (root_logger s a)) = None"
  shows "root_logger (update_root a f s) b =
    (if root s b = root s a then f (root_logger s a) else root_logger s b)"
proof -
  have "root s a < length (loggers s)" using root_valid [OF assms(1,2)] by simp
  then show ?thesis
    using root_update_root [where f = f, OF assms] by (auto simp: update_root_def nth_list_update)
qed

lemma sint_ucast_32: "sint (ucast (w :: 64 word) :: 32 word) = signed_take_bit 31 (sint w)"
  by transfer (simp add: signed_take_bit_take_bit min_def signed_take_bit_signed_take_bit)

lemma level_int32_id:
  assumes "- (2 ^ 31) \<le> level_int l" and "level_int l < 2 ^ 31"
  shows "int32_level (level_int32 l) = l"
proof -
  obtain w where l: "l = Level w" by (cases l)
  have "sint (ucast w :: 32 word) = signed_take_bit 31 (sint w)"
    by (rule sint_ucast_32)
  also have "\<dots> = sint w"
    using assms by (simp add: l signed_take_bit_int_eq_self)
  finally have narrow: "sint (ucast w :: 32 word) = sint w" .
  have "signed_take_bit 63 (sint w) = sint w"
    using assms by (intro signed_take_bit_int_eq_self) (simp_all add: l)
  with narrow have "sint (scast (ucast w :: 32 word) :: 64 word) = sint w"
    by (simp add: signed_scast_eq)
  then show ?thesis using sint_eq_imp by (simp add: l int32_level_def level_int32_def)
qed

text \<open>\<open>SetLevel\<close> on any logger of a family sets the level that every logger of the family
  has, for levels in the range of the 32-bit cell it is stored in, and leaves all other families alone.\<close>

theorem SetLevel_family:
  assumes "reachable env w s" and "a < length (loggers s)" and "b < length (loggers s)"
    and "- (2 ^ 31) \<le> level_int l" and "level_int l < 2 ^ 31"
  shows "GetLevel b (SetLevel a l s) = (if root s b = root s a then l else GetLevel b s)"
proof -
  have ok: "heap_ok s" by (rule reachable_heap_ok [OF assms(1)])
  have "lg_parent ((root_logger s a)\<lparr>lg_minLevel := level_int32 l\<rparr>) = None"
    using root_valid [OF ok assms(2)] by simp
  then show ?thesis
    using update_root_at [OF ok assms(2,3), of "\<lambda>r. r\<lparr>lg_minLevel := level_int32 l\<rparr>"]
      level_int32_id [OF assms(4,5)]
    by (simp add: GetLevel_def SetLevel_def)
qed

theorem SetLevel_family_witness:
  "GetLevel 0 (SetLevel 0 ERROR (snd (New Discard INFO [] empty_system))) = ERROR"
proof -
  let ?s = "snd (New Discard INFO [] empty_system)"
  have len: "0 < length (loggers ?s)" by (simp add: New_def add_logger_def)
  show ?thesis using SetLevel_family [OF one_logger len len, of ERROR] by (simp add: level_consts)
qed

text \<open>A level outside the 32-bit range is truncated: \<open>Level(1 << 32)\<close>, above every level there is,
  is stored as \<open>TRACE\<close> and lets everything through.\<close>

theorem SetLevel_truncates:
  "int32_level (level_int32 (Level (2 ^ 32))) = TRACE \<and> FATAL < Level (2 ^ 32)"
  by (simp add: level_int32_def int32_level_def level_consts)

section \<open>The guards of a logging call\<close>

lemma update_root_id [simp]: "update_root a (\<lambda>_. root_logger s a) s = s"
  by (simp add: update_root_def)

text \<open>A call on a closed family or below the minimum level does nothing at all: no write, no hook,
  no exit, no sampler or counter is touched; with or without a context, and at \<open>FATAL\<close> too.\<close>

theorem log_call_guarded:
  assumes "lg_closed (root_logger s a) \<or> level < GetLevel a s"
  shows "internalLog env ce a level message fs s = Some s \<and>
    internalLogCtx env ce a ctx level message fs s = Some s"
proof -
  have "admit ce (root_logger s a) level message = Some (False, root_logger s a)"
    using assms by (auto simp: admit_def GetLevel_def)
  then show ?thesis by (simp add: internalLog_def internalLogCtx_def)
qed

theorem log_call_guarded_witness:
  "Logger_Fatal quiet_sinks plain_env 0 ''bye'' [] (snd (Nop empty_system))
     = Some (snd (Nop empty_system))"
proof -
  let ?s = "snd (Nop empty_system)"
  have "FATAL < GetLevel 0 ?s"
    by (simp add: Nop_def New_def add_logger_def GetLevel_def root_def zero_logger_def level_consts empty_system_def
        level_int32_def int32_level_def)
  then show ?thesis using log_call_guarded [of ?s 0 FATAL quiet_sinks plain_env "''bye''" "[]" None]
    by (simp add: Logger_Fatal_def)
qed

text \<open>\<open>ERROR\<close> and \<open>FATAL\<close> entries bypass the sampler: whatever sampler is set, they are admitted
  and its state is unchanged.\<close>

theorem sampler_bypassed:
  assumes "\<not> lg_closed r" and "int32_level (lg_minLevel r) \<le> level" and "ERROR \<le> level"
  shows "admit ce r level message = Some (True, r)"
  using assms by (auto simp: admit_def split: option.split)

theorem sampler_bypassed_witness:
  "admit plain_env (zero_logger\<lparr>lg_sampler := Some (SCustom (\<lambda>_. Some False) [])\<rparr>) FATAL ''m'' =
     Some (True, zero_logger\<lparr>lg_sampler := Some (SCustom (\<lambda>_. Some False) [])\<rparr>)"
  by (rule sampler_bypassed) (simp_all add: zero_logger_def int32_level_def level_consts)

text \<open>C37: After \<open>Sync\<close> on any logger of a family, every logging call on every logger of the family
  leaves the system as it is.\<close>

theorem Sync_seals_family:
  assumes "reachable env w s" and "a < length (loggers s)" and "b < length (loggers s)"
    and "root s b = root s a" and "Sync env' a s = (err, s')"
  shows "internalLog env ce b level message fs s' = Some s' \<and>
    internalLogCtx env ce b ctx level message fs s' = Some s'"
proof -
  have ok: "heap_ok s" by (rule reachable_heap_ok [OF assms(1)])
  have none: "lg_parent ((root_logger s a)\<lparr>lg_closed := True\<rparr>) = None"
    using root_valid [OF ok assms(2)] by simp
  have "lg_closed (root_logger (close_root a s) b)"
    using update_root_at [OF ok assms(2,3), of "\<lambda>r. r\<lparr>lg_closed := True\<rparr>"] none assms(4)
    by (simp add: close_root_def)
  moreover have "loggers s' = loggers (close_root a s)"
    using assms(5) by (auto simp: Sync_def Let_def split: if_splits prod.splits)
  ultimately have "lg_closed (root_logger s' b)" by (simp add: root_def)
  then have "admit ce (root_logger s' b) level message = Some (False, root_logger s' b)"
    by (simp add: admit_def)
  then show ?thesis by (simp add: internalLog_def internalLogCtx_def)
qed

theorem Sync_seals_family_witness:
  "Logger_Error quiet_sinks plain_env 0 ''late'' []
     (snd (Sync quiet_sinks 0 (snd (New Discard INFO [] empty_system))))
   = Some (snd (Sync quiet_sinks 0 (snd (New Discard INFO [] empty_system))))"
proof -
  let ?s = "snd (New Discard INFO [] empty_system)"
  have len: "0 < length (loggers ?s)" by (simp add: New_def add_logger_def)
  show ?thesis
    using Sync_seals_family [OF one_logger len len refl surjective_pairing]
    by (simp add: Logger_Error_def)
qed

end
