(* ===== verification/EntryCorrect.thy ===== *)
theory EntryCorrect
  imports CoreCorrect
begin

text \<open>
  The entry that a logging call assembles and everything the call does with it: the core fields
  are protected from user fields, user fields have a priority, and the write, the hooks, the flush and the
  exit happen in one order.
\<close>

section \<open>Core fields and user fields\<close>

text \<open>The key under which a user field appears in the entry.\<close>

definition entry_key :: "string \<Rightarrow> string" where
  "entry_key k = (if k \<in> set reservedKeys then ''fields.'' @ k else k)"

lemma entry_key_not_reserved: "entry_key k \<notin> set reservedKeys"
  by (auto simp: entry_key_def reservedKeys_def)

lemma add_fields_entry_key:
  "add_fields fs entry = fold (\<lambda>(k, v). put (entry_key k) v) fs entry"
  by (induction fs entry rule: add_fields.induct) (auto simp: entry_key_def)

lemma add_fields_frame:
  "k \<notin> entry_key ` set (keys fs) \<Longrightarrow> map_of (add_fields fs entry) k = map_of entry k"
  unfolding add_fields_entry_key by (induction fs arbitrary: entry) auto

lemma add_fields_reserved:
  "k \<in> set reservedKeys \<Longrightarrow> map_of (add_fields fs entry) k = map_of entry k"
  by (rule add_fields_frame) (auto simp: entry_key_not_reserved)

lemma add_fields_user:
  assumes "inj_on entry_key (set (keys fs))" and "gomap_ok fs" and "map_of fs k = Some v"
  shows "map_of (add_fields fs entry) (entry_key k) = Some v"
  using assms
proof (induction fs arbitrary: entry)
  case (Cons p fs)
  obtain k' v' where p: "p = (k', v')" by force
  show ?case
  proof (cases "k = k'")
    case True
    then have "entry_key k \<notin> entry_key ` set (keys fs)"
      using Cons.prems(1,2) p by (auto simp: inj_on_def gomap_ok_def)
    then show ?thesis
      using add_fields_frame [of "entry_key k" fs] Cons.prems(3) p True
      by (simp add: entry_key_def)
  next
    case False
    with Cons.prems p have "map_of fs k = Some v" "inj_on entry_key (set (keys fs))" "gomap_ok fs"
      by simp_all
    then show ?thesis using Cons.IH p by simp
  qed
qed simp

lemma add_fields_ok: "gomap_ok entry \<Longrightarrow> gomap_ok (add_fields fs entry)"
  by (induction fs entry rule: add_fields.induct) simp_all

lemma core_entry_ok: "gomap_ok (core_entry ce r level message)"
  by (simp add: core_entry_def Let_def split: option.split)

text \<open>What the logger itself puts under a reserved key.\<close>

definition core_value :: "call_env \<Rightarrow> logger \<Rightarrow> level \<Rightarrow> string \<Rightarrow> 64 word \<Rightarrow> string \<Rightarrow> string option" where
  "core_value ce r level message counter k =
     (if k = ''time'' then Some (ce_time ce)
      else if k = ''level'' then Some (level_String level)
      else if k = ''message'' then Some message
      else if k = ''file'' then
        (if lg_caller r then Some (caller_text (lg_fullCallerPath r) (ce_caller ce)) else None)
      else if k = ''event_id'' then
        (if lg_eventID r then Some (fst (generateEventID (ce_nanos ce) counter)) else None)
      else if k = ''stacktrace'' then
        (if lg_stackTrace r \<and> ERROR \<le> level then Some (captureStackTrace (ce_frames ce)) else None)
      else (case lg_identity r of
              None \<Rightarrow> None
            | Some i \<Rightarrow>
                if k = ''service'' then Some (id_Service i)
                else if k = ''version'' then Some (id_Version i)
                else if k = ''env'' then Some (id_Env i)
                else if k = ''host'' then Some (id_Host i) else None))"

text \<open>The fields after resolving and enriching, as hooks see them and as they enter the entry.\<close>

definition final_fields :: "fields \<Rightarrow> fields" where
  "final_fields fs = enrichErrors (resolveLogValuers fs)"

lemma final_fields_ok [simp]: "gomap_ok fs \<Longrightarrow> gomap_ok (final_fields fs)"
  by (simp add: final_fields_def enrichErrors_ok resolveLogValuers_ok)

definition start_entry :: "call_env \<Rightarrow> logger \<Rightarrow> level \<Rightarrow> string \<Rightarrow> 64 word \<Rightarrow> fields" where
  "start_entry ce r level message counter =
     (if lg_eventID r
      then put ''event_id'' (VString (fst (generateEventID (ce_nanos ce) counter))) (core_entry ce r level message)
      else core_entry ce r level message)"

definition finish_entry :: "call_env \<Rightarrow> logger \<Rightarrow> level \<Rightarrow> fields \<Rightarrow> fields" where
  "finish_entry ce r level entry =
     (if lg_stackTrace r \<and> ERROR \<le> level
      then put ''stacktrace'' (VString (captureStackTrace (ce_frames ce))) entry else entry)"

lemma assemble_eq:
  "assemble ce r level message fs counter =
     (finish_entry ce r level (add_fields (final_fields fs) (start_entry ce r level message counter)),
      final_fields fs, if lg_eventID r then counter + 1 else counter)"
  by (simp add: assemble_def final_fields_def start_entry_def finish_entry_def generateEventID_def Let_def)

lemma core_entry_lookup:
  "map_of (core_entry ce r level message) k =
     (if k = ''event_id'' \<or> k = ''stacktrace'' then None
      else map_option VString (core_value ce r level message counter k))"
proof (cases "lg_identity r")
  case None
  then show ?thesis by (simp add: core_entry_def core_value_def Let_def)
next
  case (Some i)
  then show ?thesis by (simp add: core_entry_def core_value_def Let_def)
qed

lemma start_entry_lookup:
  "map_of (start_entry ce r level message counter) k =
     (if k = ''stacktrace'' then None else map_option VString (core_value ce r level message counter k))"
  by (simp add: start_entry_def core_entry_lookup [of ce r level message _ counter])
    (simp add: core_value_def)

lemma finish_entry_lookup:
  "map_of (finish_entry ce r level entry) k =
     (if k = ''stacktrace'' \<and> lg_stackTrace r \<and> ERROR \<le> level
      then Some (VString (captureStackTrace (ce_frames ce))) else map_of entry k)"
  by (simp add: finish_entry_def)

lemma core_value_reserved: "core_value ce r level message counter k \<noteq> None \<Longrightarrow> k \<in> set reservedKeys"
  by (auto simp: core_value_def reservedKeys_def split: if_splits option.splits)

lemma assembleD:
  assumes "assemble ce r level message fs counter = (entry, seen, counter')"
  shows "entry = finish_entry ce r level (add_fields (final_fields fs) (start_entry ce r level message counter))"
    and "seen = final_fields fs" and "counter' = (if lg_eventID r then counter + 1 else counter)"
  using assms unfolding assemble_eq by (elim Pair_inject; simp only:)+

lemma reserved_lookup:
  assumes "assemble ce r level message fs counter = (entry, seen, counter')"
    and "k \<in> set reservedKeys"
  shows "map_of entry k = map_option VString (core_value ce r level message counter k)"
proof -
  have entry: "entry = finish_entry ce r level (add_fields (final_fields fs) (start_entry ce r level message counter))"
    by (rule assembleD [OF assms(1)])
  show ?thesis
    unfolding entry
    by (simp add: finish_entry_lookup add_fields_reserved [OF assms(2)] start_entry_lookup)
      (simp add: core_value_def)
qed

text \<open>C8: Whatever fields the user passes, the value of every reserved key is the logger's own: the
  time, level and message always, the caller, identity, event id and stack trace when they are
  configured, and nothing at all when they are not.\<close>

theorem core_fields_protected:
  assumes "assemble ce r level message fs counter = (entry, seen, counter')"
    and "k \<in> set reservedKeys"
  shows "map_of entry k = map_option VString (core_value ce r level message counter k)"
  by (rule reserved_lookup [OF assms])

theorem core_fields_protected_witness:
  "map_of (fst (assemble plain_env zero_logger INFO ''hi'' [(''level'', VString ''FATAL''), (''file'', VInt 1)] 0)) ''level''
     = Some (VString ''INFO'') \<and>
   map_of (fst (assemble plain_env zero_logger INFO ''hi'' [(''level'', VString ''FATAL''), (''file'', VInt 1)] 0)) ''file'' = None"
proof -
  let ?a = "assemble plain_env zero_logger INFO ''hi'' [(''level'', VString ''FATAL''), (''file'', VInt 1)] 0"
  have "?a = (fst ?a, fst (snd ?a), snd (snd ?a))" by simp
  from core_fields_protected [OF this, of "''level''"] core_fields_protected [OF this, of "''file''"]
  show ?thesis by (simp add: reservedKeys_def core_value_def zero_logger_def level_String_def level_consts)
qed

text \<open>Every user field, after resolving and enriching, is in the entry: under its own key, or under
  \<open>fields.\<close> and its key when that is reserved; the exception are two fields that meet there.\<close>

theorem user_fields_kept:
  assumes "assemble ce r level message fs counter = (entry, seen, counter')"
    and "gomap_ok fs" and "inj_on entry_key (set (keys seen))" and "map_of seen k = Some v"
  shows "map_of entry (entry_key k) = Some v \<and> seen = enrichErrors (resolveLogValuers fs)"
proof -
  have entry: "entry = finish_entry ce r level (add_fields (final_fields fs) (start_entry ce r level message counter))"
    and seen: "seen = final_fields fs"
    by (rule assembleD [OF assms(1)])+
  have "entry_key k \<noteq> ''stacktrace''"
    using entry_key_not_reserved [of k] by (auto simp: reservedKeys_def)
  then show ?thesis
    using add_fields_user [of "final_fields fs" k v] assms(2-4)
    by (simp add: entry seen finish_entry_lookup) (simp add: final_fields_def)
qed

theorem user_fields_kept_witness:
  "map_of (fst (assemble plain_env zero_logger INFO ''hi'' [(''level'', VInt 7), (''id'', VInt 1)] 0)) ''fields.level''
     = Some (VInt 7)"
proof -
  let ?fs = "[(''level'', VInt 7), (''id'', VInt 1)]"
  let ?a = "assemble plain_env zero_logger INFO ''hi'' ?fs 0"
  have seen: "final_fields ?fs = ?fs"
    by (simp add: final_fields_def resolveLogValuers_def enrichErrors_def)
  have a: "?a = (fst ?a, ?fs, snd (snd ?a))" by (simp add: assemble_eq seen)
  have key: "entry_key ''level'' = ''fields.level''" "entry_key ''id'' = ''id''"
    by (simp_all add: entry_key_def reservedKeys_def)
  show ?thesis
    using user_fields_kept [OF a, of "''level''" "VInt 7"] by (simp add: key)
qed

text \<open>When the user has both \<open>level\<close> and \<open>fields.level\<close>, both go to the same key of the entry and the
  iteration order of the map decides which value is lost.\<close>

theorem reserved_prefix_collision:
  "map_of (add_fields [(''level'', VInt 1), (''fields.level'', VInt 2)] []) ''fields.level'' = Some (VInt 2) \<and>
   map_of (add_fields [(''fields.level'', VInt 2), (''level'', VInt 1)] []) ''fields.level'' = Some (VInt 1)"
  by (simp add: reservedKeys_def)

section \<open>Field priority\<close>

lemma nth_list_update': "xs[i := x] ! j = (if i = j \<and> i < length xs then x else xs ! j)"
  by (cases "i < length xs") (simp_all add: nth_list_update list_update_beyond)

lemma admit_frame:
  "admit ce r level message = Some (ok, r') \<Longrightarrow>
     lg_fields r' = lg_fields r \<and> lg_extractors r' = lg_extractors r \<and> lg_parent r' = lg_parent r"
  by (auto simp: admit_def split: if_splits option.splits)

lemma internalLog_admitted:
  assumes "admit ce (root_logger s a) level message = Some (ok, r)"
  shows "internalLog env ce a level message fs s =
    Some (if ok then writeEntry env ce (root s a) level message (mergeFields (lg_fields (logger_at s a)) fs)
            (update_root a (\<lambda>_. r) s)
          else update_root a (\<lambda>_. r) s)"
proof -
  have "lg_fields (logger_at (update_root a (\<lambda>_. r) s) a) = lg_fields (logger_at s a)"
    "root (update_root a (\<lambda>_. r) s) a = root s a"
    using admit_frame [OF assms] by (simp_all add: update_root_def root_def nth_list_update' split: option.split)
  then show ?thesis using assms by (simp add: internalLog_def Let_def)
qed

text \<open>The fields that the extractors give for a context; one that panics gives none.\<close>

fun context_fields :: "extractor list \<Rightarrow> go_context \<Rightarrow> (string \<rightharpoonup> gval)" where
  "context_fields [] c = Map.empty"
| "context_fields (x # r) c =
     (case x c of None \<Rightarrow> Map.empty | Some fs \<Rightarrow> map_of fs) ++ context_fields r c"

lemma run_extractors_lookup:
  assumes "\<forall>x \<in> set xs. \<forall>fs. x c = Some fs \<longrightarrow> gomap_ok fs" and "gomap_ok acc"
  shows "gomap_ok (run_extractors xs c acc) \<and>
    map_of (run_extractors xs c acc) = map_of acc ++ context_fields xs c"
  using assms
proof (induction xs arbitrary: acc)
  case (Cons x xs)
  show ?case
  proof (cases "x c")
    case None
    then show ?thesis using Cons by simp
  next
    case (Some fs)
    then have "gomap_ok fs" using Cons.prems(1) by simp
    then have "gomap_ok (mergeFields acc fs)" "map_of (mergeFields acc fs) = map_of acc ++ map_of fs"
      using Cons.prems(2) by (simp_all add: map_simps)
    then show ?thesis using Cons.IH [of "mergeFields acc fs"] Cons.prems(1) Some by simp
  qed
qed simp

text \<open>C30: The fields of an admitted call with a context are looked up first in the call's own, then in
  those of the context extractors, the last one first and those that panic left out, then in the
  logger's persistent fields.\<close>

theorem field_priority:
  assumes "admit ce (root_logger s a) level message = Some (True, r)"
    and "gomap_ok (lg_fields (logger_at s a))" and "gomap_ok fs"
    and "\<forall>x \<in> set (lg_extractors (logger_at s a)). \<forall>m. x c = Some m \<longrightarrow> gomap_ok m"
  shows "\<exists>all. internalLogCtx env ce a (Some c) level message fs s =
      Some (writeEntry env ce (root s a) level message all (update_root a (\<lambda>_. r) s)) \<and>
    gomap_ok all \<and>
    map_of all = map_of (lg_fields (logger_at s a)) ++ context_fields (lg_extractors (logger_at s a)) c ++ map_of fs"
proof -
  let ?xs = "lg_extractors (logger_at s a)"
  let ?s = "update_root a (\<lambda>_. r) s"
  have at: "lg_fields (logger_at ?s a) = lg_fields (logger_at s a)"
      "lg_extractors (logger_at ?s a) = ?xs" "root ?s a = root s a"
    using admit_frame [OF assms(1)]
    by (simp_all add: update_root_def root_def nth_list_update' split: option.split)
  let ?ctx = "run_extractors ?xs c []"
  have ctx: "gomap_ok ?ctx" "map_of ?ctx = context_fields ?xs c"
    using run_extractors_lookup [of ?xs c "[]"] assms(4) by simp_all
  let ?all = "mergeFields (lg_fields (logger_at s a)) (mergeFields ?ctx fs)"
  have "gomap_ok ?all" "map_of ?all = map_of (lg_fields (logger_at s a)) ++ context_fields ?xs c ++ map_of fs"
    using assms(2,3) ctx by (simp_all add: map_simps map_add_assoc)
  moreover have "internalLogCtx env ce a (Some c) level message fs s =
      Some (writeEntry env ce (root s a) level message ?all ?s)"
    using assms(1) by (cases ?xs) (simp_all add: internalLogCtx_def Let_def at)
  ultimately show ?thesis by blast
qed

definition demo_ctx :: go_context where
  "demo_ctx = \<lparr>ctx_logger = None, ctx_values = []\<rparr>"

theorem field_priority_witness:
  "\<exists>all s'. Logger_InfoContext quiet_sinks plain_env 0 (Some demo_ctx) ''m'' [(''id'', VInt 3)]
       (empty_system\<lparr>loggers := [zero_logger\<lparr>lg_extractors :=
          [\<lambda>c. Some [(''id'', VInt 1), (''t'', VInt 2)], \<lambda>c. None]\<rparr>]\<rparr>)
     = Some (writeEntry quiet_sinks plain_env 0 INFO ''m'' all s') \<and>
     map_of all ''id'' = Some (VInt 3) \<and> map_of all ''t'' = Some (VInt 2)"
proof -
  let ?l = "zero_logger\<lparr>lg_extractors := [\<lambda>c. Some [(''id'', VInt 1), (''t'', VInt 2)], \<lambda>c. None]\<rparr>"
  let ?s = "empty_system\<lparr>loggers := [?l]\<rparr>"
  have l: "root ?s 0 = 0" by (simp add: root_def zero_logger_def)
  have "admit plain_env (root_logger ?s 0) INFO ''m'' = Some (True, ?l)"
    by (simp add: admit_def l) (simp add: zero_logger_def int32_level_def level_consts)
  from field_priority [OF this, where fs = "[(''id'', VInt 3)]" and c = demo_ctx and env = quiet_sinks]
  obtain all where "internalLogCtx quiet_sinks plain_env 0 (Some demo_ctx) INFO ''m'' [(''id'', VInt 3)] ?s =
      Some (writeEntry quiet_sinks plain_env 0 INFO ''m'' all (update_root 0 (\<lambda>_. ?l) ?s))"
      "map_of all = map_of (lg_fields ?l) ++ context_fields (lg_extractors ?l) demo_ctx ++ map_of [(''id'', VInt 3)]"
    by (auto simp: l) (auto simp: zero_logger_def)
  then show ?thesis by (auto simp: Logger_InfoContext_def)
qed

section \<open>Event identifiers\<close>

fun event_ids :: "64 word \<Rightarrow> int list \<Rightarrow> string list" where
  "event_ids counter [] = []"
| "event_ids counter (ts # r) =
     (let (i, counter) = generateEventID ts counter in i # event_ids counter r)"

lemma hex_no_dash: "CHR ''-'' \<notin> set (show_base 16 n)"
proof (induction "16 :: nat" n rule: show_base.induct)
  case (1 n)
  have digit: "digit_char d \<noteq> CHR ''-''" if "d < 16" for d
    using that by (auto simp: digit_char_def)
  show ?case
  proof (cases "n < 16")
    case True
    then show ?thesis using digit [of n] by (auto simp: show_base.simps [of 16 n])
  next
    case False
    then show ?thesis
      using "1.hyps" digit [of "n mod 16"] by (auto simp: show_base.simps [of 16 n])
  qed
qed

lemma suffix_after_dash:
  assumes "a @ ''-'' @ b = a' @ ''-'' @ b'" and "CHR ''-'' \<notin> set b" and "CHR ''-'' \<notin> set b'"
  shows "b = b'"
proof -
  have "takeWhile (\<lambda>c. c \<noteq> CHR ''-'') (rev b @ CHR ''-'' # rev a) = rev b"
    "takeWhile (\<lambda>c. c \<noteq> CHR ''-'') (rev b' @ CHR ''-'' # rev a') = rev b'"
    using takeWhile_tail [of "\<lambda>c. c \<noteq> CHR ''-''" "CHR ''-''"] assms(2,3)
    by (simp_all add: takeWhile_append)
  moreover have "rev b @ CHR ''-'' # rev a = rev b' @ CHR ''-'' # rev a'"
    using arg_cong [OF assms(1), of rev] by simp
  ultimately show ?thesis by (metis rev_rev_ident)
qed

lemma event_id_seq:
  assumes "fst (generateEventID t c) = fst (generateEventID t' c')"
  shows "c = c'"
proof -
  have "show_base 16 (unat (c + 1)) = show_base 16 (unat (c' + 1))"
    using assms
    by (intro suffix_after_dash [OF _ hex_no_dash hex_no_dash, of "show_hex_int t" _ "show_hex_int t'"])
      (simp add: generateEventID_def Let_def)
  then have "unat (c + 1) = unat (c' + 1)" by (rule show_base_inject [rotated 2]) simp_all
  then have "c + 1 = c' + 1" by (rule unsigned_word_eqI)
  then show ?thesis by (simp only: add_right_cancel)
qed

lemma event_ids_in:
  "x \<in> set (event_ids c ts) \<Longrightarrow>
     \<exists>k < length ts. \<exists>t. x = fst (generateEventID t (c + of_nat k))"
proof (induction ts arbitrary: c)
  case (Cons t ts)
  have step: "generateEventID t c = (fst (generateEventID t c), c + 1)"
    by (simp add: generateEventID_def Let_def)
  then have "x = fst (generateEventID t c) \<or> x \<in> set (event_ids (c + 1) ts)"
    using Cons.prems by (metis (no_types, lifting) case_prod_conv event_ids.simps(2) set_ConsD)
  then show ?case
  proof
    assume "x = fst (generateEventID t c)"
    then show ?thesis by (intro exI [of _ 0]) auto
  next
    assume "x \<in> set (event_ids (c + 1) ts)"
    from Cons.IH [OF this] obtain k t' where "k < length ts" "x = fst (generateEventID t' (c + 1 + of_nat k))"
      by blast
    then show ?thesis by (intro exI [of _ "Suc k"]) (auto simp: add.assoc)
  qed
qed simp

text \<open>C15: Event ids never repeat within a process, even if the clock stands still or runs backwards, as
  long as fewer than \<open>2^64\<close> are made.\<close>

theorem event_ids_unique:
  assumes "length ts \<le> 2 ^ 64"
  shows "distinct (event_ids counter ts)"
  using assms
proof (induction ts arbitrary: counter)
  case (Cons t ts)
  have step: "event_ids counter (t # ts) = fst (generateEventID t counter) # event_ids (counter + 1) ts"
    by (simp add: generateEventID_def Let_def)
  have "fst (generateEventID t counter) \<notin> set (event_ids (counter + 1) ts)"
  proof
    assume "fst (generateEventID t counter) \<in> set (event_ids (counter + 1) ts)"
    from event_ids_in [OF this] obtain k t' where k: "k < length ts"
        "fst (generateEventID t counter) = fst (generateEventID t' (counter + 1 + of_nat k))" by blast
    from event_id_seq [OF k(2)] have "of_nat (Suc k) = (0 :: 64 word)" by (simp add: add.assoc)
    then have "unat (of_nat (Suc k) :: 64 word) = 0" by simp
    moreover have "Suc k < 2 ^ 64" using k(1) Cons.prems by simp
    ultimately show False by (simp add: unat_of_nat take_bit_nat_eq_self del: of_nat_Suc)
  qed
  moreover have "distinct (event_ids (counter + 1) ts)" using Cons by simp
  ultimately show ?case unfolding step by simp
qed simp

theorem event_ids_unique_witness:
  "distinct (event_ids 5 [255, 255, 0])"
  by (rule event_ids_unique) simp

end
