(* ===== verification/CallCorrect.thy ===== *)
theory CallCorrect
  imports EntryCorrect
begin

text \<open>
  A logging call from end to end: the order of the write, the fallback, the hooks, the flush and the
  exit; what a middleware that drops the entry prevents; what arrives at the sink; and the errors
  that \<open>Sync\<close> reports.
\<close>

section \<open>The order of effects\<close>

lemma run_hooks_io:
  "run_hooks hs level message fs w =
     w\<lparr>io := io w @ map (\<lambda>h. EvHook h level message fs) hs\<rparr>"
  by (induction hs arbitrary: w) (simp_all add: log_event_def)

text \<open>The events of one write to a sink, with a fallback sink if there is one.\<close>

definition write_events :: "sinks \<Rightarrow> nat \<Rightarrow> writer option \<Rightarrow> string \<Rightarrow> io_event list \<Rightarrow> io_event list" where
  "write_events env i fallback line h =
     EvWrite i line #
     (if snd (on_Write env i (h @ [EvWrite i line])) = None then []
      else (case fallback of Some (Sink j _ _) \<Rightarrow> [EvWrite j line] | _ \<Rightarrow> []))"

definition simple_fallback :: "writer option \<Rightarrow> bool" where
  "simple_fallback fb \<longleftrightarrow> (case fb of None \<Rightarrow> True | Some (Sink _ _ _) \<Rightarrow> True | _ \<Rightarrow> False)"

lemma write_line_sink:
  assumes "lg_out r = Sink i sy fd" and "simple_fallback (lg_fallbackWriter r)"
  shows "write_line env r line w =
    (if snd (on_Write env i (io w @ [EvWrite i line])) = None then r
     else r\<lparr>lg_writeErrors := lg_writeErrors r + 1\<rparr>,
     w\<lparr>io := io w @ write_events env i (lg_fallbackWriter r) line (io w)\<rparr>)"
proof -
  obtain n err where res: "on_Write env i (io w @ [EvWrite i line]) = (n, err)" by force
  show ?thesis
  proof (cases err)
    case None
    then show ?thesis
      using assms(1) res by (simp add: write_line_def sink_write_def write_events_def)
  next
    case (Some e)
    then show ?thesis
      using assms res
      by (cases "lg_fallbackWriter r"; simp add: write_line_def sink_write_def write_events_def
          simple_fallback_def split: writer.splits)
  qed
qed

lemma writeEntry_sink:
  assumes "ra < length (loggers s)" and "lg_out (logger_at s ra) = Sink i sy fd"
    and "simple_fallback (lg_fallbackWriter (logger_at s ra))"
    and "assemble ce (logger_at s ra) level message fs (eventCounter s) = (entry, seen, c)"
    and "run_middleware (lg_middleware (logger_at s ra)) entry = Some e"
  shows "let r = logger_at s ra; line = render ce r e; h = io (the_world s);
      s' = writeEntry env ce ra level message fs s
    in io (the_world s') = h @ write_events env i (lg_fallbackWriter r) line h @
         map (\<lambda>k. EvHook k level message seen) (lg_hooks r) @
         (if level = FATAL then (if sy then [EvSync i] else []) @ [EvExit (lg_exitFunc r) 1] else []) \<and>
       logger_at s' ra =
         (if snd (on_Write env i (h @ [EvWrite i line])) = None then r
          else r\<lparr>lg_writeErrors := lg_writeErrors r + 1\<rparr>) \<and>
       eventCounter s' = c"
proof -
  let ?r = "logger_at s ra"
  let ?line = "render ce ?r e"
  let ?w = "the_world s"
  obtain r' w' where wr: "write_line env ?r ?line ?w = (r', w')" by force
  have r': "r' = (if snd (on_Write env i (io ?w @ [EvWrite i ?line])) = None then ?r
        else ?r\<lparr>lg_writeErrors := lg_writeErrors ?r + 1\<rparr>)"
    and w': "w' = ?w\<lparr>io := io ?w @ write_events env i (lg_fallbackWriter ?r) ?line (io ?w)\<rparr>"
    using wr write_line_sink [OF assms(2,3), of env ?line ?w] by simp_all
  have frame: "lg_hooks r' = lg_hooks ?r" "lg_out r' = Sink i sy fd" "lg_exitFunc r' = lg_exitFunc ?r"
    using assms(2) by (simp_all add: r')
  show ?thesis
    using assms(1,4,5) frame
    by (simp add: writeEntry_def wr run_hooks_io exit_fatal_def sink_sync_def log_event_def Let_def
        w' r' [symmetric])
qed

lemma writeEntry_io:
  assumes "ra < length (loggers s)" and "lg_out (logger_at s ra) = Sink i sy fd"
    and "simple_fallback (lg_fallbackWriter (logger_at s ra))"
    and "assemble ce (logger_at s ra) level message fs (eventCounter s) = (entry, seen, c)"
    and "run_middleware (lg_middleware (logger_at s ra)) entry = Some e"
  shows "io (the_world (writeEntry env ce ra level message fs s)) = io (the_world s) @
    write_events env i (lg_fallbackWriter (logger_at s ra)) (render ce (logger_at s ra) e) (io (the_world s)) @
    map (\<lambda>k. EvHook k level message seen) (lg_hooks (logger_at s ra)) @
    (if level = FATAL then (if sy then [EvSync i] else []) @ [EvExit (lg_exitFunc (logger_at s ra)) 1] else [])"
  using writeEntry_sink [OF assms, of env] by (simp add: Let_def)

text \<open>C12: What an admitted entry does on a logger whose writer is a sink and whose fallback, if any, is a sink too, in this order: the line goes to the sink, and on an error to the
  fallback as well, with the error counted; every hook runs with the level, message and fields; a
  \<open>FATAL\<close> entry then flushes the writer and exits. Nothing else happens.\<close>

theorem writeEntry_effects:
  assumes "ra < length (loggers s)" and "lg_out (logger_at s ra) = Sink i sy fd"
    and "simple_fallback (lg_fallbackWriter (logger_at s ra))"
    and "assemble ce (logger_at s ra) level message fs (eventCounter s) = (entry, seen, c)"
    and "run_middleware (lg_middleware (logger_at s ra)) entry = Some e"
  shows "let r = logger_at s ra; line = render ce r e; h = io (the_world s);
      s' = writeEntry env ce ra level message fs s
    in io (the_world s') = h @ write_events env i (lg_fallbackWriter r) line h @
         map (\<lambda>k. EvHook k level message seen) (lg_hooks r) @
         (if level = FATAL then (if sy then [EvSync i] else []) @ [EvExit (lg_exitFunc r) 1] else []) \<and>
       logger_at s' ra =
         (if snd (on_Write env i (h @ [EvWrite i line])) = None then r
          else r\<lparr>lg_writeErrors := lg_writeErrors r + 1\<rparr>) \<and>
       eventCounter s' = c"
  by (rule writeEntry_sink [OF assms])

text \<open>A root logger on sink 1 with one hook, for a concrete run.\<close>

definition hooked_system :: system where
  "hooked_system = empty_system\<lparr>loggers := [zero_logger\<lparr>lg_out := Sink 1 True None, lg_hooks := [9]\<rparr>]\<rparr>"

theorem writeEntry_effects_witness:
  "io (the_world (writeEntry quiet_sinks plain_env 0 FATAL ''bye'' [] hooked_system)) =
     [EvWrite 1 (projr (JSON_Format [] (fst (assemble plain_env zero_logger FATAL ''bye'' [] 0))) @ [newline]),
      EvHook 9 FATAL ''bye'' [], EvSync 1, EvExit OsExit 1]"
proof -
  let ?r = "logger_at hooked_system 0"
  have r: "?r = zero_logger\<lparr>lg_out := Sink 1 True None, lg_hooks := [9]\<rparr>"
    by (simp add: hooked_system_def)
  have asm: "assemble plain_env ?r FATAL ''bye'' [] (eventCounter hooked_system) =
      (fst (assemble plain_env zero_logger FATAL ''bye'' [] 0), [], 0)"
    by (simp add: r hooked_system_def empty_system_def assemble_def zero_logger_def core_entry_def
        resolveLogValuers_def enrichErrors_def Let_def)
  have out: "lg_out ?r = Sink 1 True None" and fb: "simple_fallback (lg_fallbackWriter ?r)"
    and mw: "run_middleware (lg_middleware ?r) m = Some m" and len: "0 < length (loggers hooked_system)" for m
    by (simp_all add: r zero_logger_def simple_fallback_def) (simp add: hooked_system_def)
  show ?thesis
    using writeEntry_effects [OF len out fb asm mw, of quiet_sinks]
    by (simp add: r Let_def write_events_def quiet_sinks_def render_def zero_logger_def JSON_Format_def
        hooked_system_def empty_system_def empty_world_def)
qed

text \<open>A middleware that drops the entry prevents everything: no write, no hook, and, for a \<open>FATAL\<close>
  entry, no flush and no exit either, although the call is documented to end the process.\<close>

theorem middleware_drop_is_silent:
  assumes "assemble ce (logger_at s ra) level message fs (eventCounter s) = (entry, seen, c)"
    and "run_middleware (lg_middleware (logger_at s ra)) entry = None"
  shows "writeEntry env ce ra level message fs s = s\<lparr>eventCounter := c\<rparr>"
  using assms by (simp add: writeEntry_def)

theorem middleware_drop_is_silent_witness:
  "writeEntry quiet_sinks plain_env 0 FATAL ''bye'' []
     (empty_system\<lparr>loggers := [zero_logger\<lparr>lg_middleware := [\<lambda>_. None]\<rparr>]\<rparr>) =
   empty_system\<lparr>loggers := [zero_logger\<lparr>lg_middleware := [\<lambda>_. None]\<rparr>]\<rparr>"
proof -
  let ?s = "empty_system\<lparr>loggers := [zero_logger\<lparr>lg_middleware := [\<lambda>_. None]\<rparr>]\<rparr>"
  have asm: "assemble plain_env (logger_at ?s 0) FATAL ''bye'' [] (eventCounter ?s) =
      (fst (assemble plain_env (logger_at ?s 0) FATAL ''bye'' [] (eventCounter ?s)), [], 0)"
    by (simp add: assemble_eq final_fields_def resolveLogValuers_def enrichErrors_def zero_logger_def empty_system_def)
  show ?thesis
    using middleware_drop_is_silent [OF asm, of quiet_sinks] by (simp add: zero_logger_def empty_system_def)
qed

text \<open>The middleware of a chain runs in order, and redaction is one of them.\<close>

lemma run_middleware_append:
  "run_middleware (xs @ ys) m =
     (case run_middleware xs m of None \<Rightarrow> None | Some m' \<Rightarrow> run_middleware ys m')"
  by (induction xs m rule: run_middleware.induct) (auto split: option.split)

text \<open>With redaction as the last middleware, no named field reaches the writer with any value but the
  replacement, at any depth, whatever the fields and the middleware before it; the hooks,
  however, are given the top-level fields as they were before any middleware.\<close>

theorem redaction_before_write:
  assumes "assemble ce (logger_at s ra) level message fs (eventCounter s) = (entry, seen, c)"
    and "lg_middleware (logger_at s ra) = mws @ [redact_middleware replacement names]"
    and "run_middleware (lg_middleware (logger_at s ra)) entry = Some e"
  shows "(\<forall>(k, v) \<in> set (exposed e). k \<in> set names \<longrightarrow> v = VString replacement) \<and>
    seen = enrichErrors (resolveLogValuers fs)"
proof -
  obtain m where "e = redactMap names replacement m"
    using assms(2,3)
    by (auto simp: run_middleware_append redact_middleware_def split: option.splits)
  then show ?thesis
    using exposed_redacted [of _ _ names replacement m] assemble_eq assms(1)
    by (auto simp: final_fields_def)
qed

theorem redaction_before_write_witness:
  "\<exists>e. run_middleware [redact_middleware ''***'' [''pin'']]
       (fst (assemble plain_env (zero_logger\<lparr>lg_middleware := [redact_middleware ''***'' [''pin'']]\<rparr>)
          INFO ''m'' [(''pin'', VInt 1)] 0)) = Some e \<and>
     (\<forall>(k, v) \<in> set (exposed e). k \<in> set [''pin''] \<longrightarrow> v = VString ''***'')"
proof -
  let ?l = "zero_logger\<lparr>lg_middleware := [redact_middleware ''***'' [''pin'']]\<rparr>"
  let ?s = "empty_system\<lparr>loggers := [?l]\<rparr>"
  let ?a = "assemble plain_env (logger_at ?s 0) INFO ''m'' [(''pin'', VInt 1)] (eventCounter ?s)"
  have a: "?a = (fst ?a, fst (snd ?a), snd (snd ?a))" by simp
  have mw: "lg_middleware (logger_at ?s 0) = [] @ [redact_middleware ''***'' [''pin'']]" by simp
  obtain e where e: "run_middleware (lg_middleware (logger_at ?s 0)) (fst ?a) = Some e"
    by (simp add: redact_middleware_def)
  show ?thesis
    using redaction_before_write [OF a mw e] e
    by (intro exI [of _ e]) (simp add: empty_system_def)
qed

section \<open>From the call to the sink\<close>

lemma set_put: "set (put k v m) \<subseteq> insert (k, v) (set m)"
  by (induction m) auto

text \<open>A property of values that strings have passes from the fields to the entry.\<close>

definition all_values :: "(gval \<Rightarrow> bool) \<Rightarrow> fields \<Rightarrow> bool" where
  "all_values P m \<longleftrightarrow> list_all (\<lambda>(k, v). P v) m"

lemma all_values_put: "all_values P m \<Longrightarrow> P v \<Longrightarrow> all_values P (put k v m)"
  using set_put [of k v m] by (fastforce simp: all_values_def list_all_iff)

lemma all_values_add_fields:
  "all_values P fs \<Longrightarrow> all_values P entry \<Longrightarrow> all_values P (add_fields fs entry)"
proof (induction fs entry rule: add_fields.induct)
  case (2 k v r entry)
  then have "P v" "all_values P r" by (simp_all add: all_values_def)
  with 2 show ?case by (simp add: all_values_put)
qed simp

lemma all_values_assemble:
  assumes "assemble ce r level message fs counter = (entry, seen, c)"
    and "\<And>x. P (VString x)" and "all_values P (final_fields fs)"
  shows "all_values P entry"
proof -
  have core: "all_values P (core_entry ce r level message)"
    by (auto simp: core_entry_def Let_def assms(2) all_values_def intro!: all_values_put [unfolded all_values_def]
        split: option.split)
  then have "all_values P (start_entry ce r level message counter)"
    by (simp add: start_entry_def all_values_put assms(2))
  with assms(3) have "all_values P (add_fields (final_fields fs) (start_entry ce r level message counter))"
    by (rule all_values_add_fields)
  then show ?thesis
    by (simp add: assembleD(1) [OF assms(1)] finish_entry_def all_values_put assms(2))
qed

lemma admit_root:
  assumes "admit ce r level message = Some (True, r')"
  shows "\<exists>sm. r' = r\<lparr>lg_sampler := sm\<rparr>"
proof (cases "lg_sampler r")
  case None
  then have "r' = r" using assms by (simp add: admit_def split: if_splits)
  then show ?thesis by (intro exI [of _ "lg_sampler r"]) simp
next
  case (Some sm)
  show ?thesis
  proof (cases "level < ERROR")
    case True
    then show ?thesis using assms Some by (auto simp: admit_def split: if_splits)
  next
    case False
    then have "r' = r" using assms Some by (simp add: admit_def split: if_splits)
    then show ?thesis by (intro exI [of _ "lg_sampler r"]) simp
  qed
qed

lemma logged_line:
  assumes "a < length (loggers s)" and "lg_parent (logger_at s a) = None"
    and "lg_out (logger_at s a) = Sink i sy fd" and "lg_fallbackWriter (logger_at s a) = None"
    and "lg_formatter (logger_at s a) = JSONFormatter []" and "lg_middleware (logger_at s a) = []"
    and "admit ce (logger_at s a) level message = Some (True, r)"
    and "all_values json_ok (final_fields (mergeFields (lg_fields (logger_at s a)) fs))"
    and "all_values json_clean (final_fields (mergeFields (lg_fields (logger_at s a)) fs))"
  shows "\<exists>s' text rest entry seen c. internalLog env ce a level message fs s = Some s' \<and>
    assemble ce r level message (mergeFields (lg_fields (logger_at s a)) fs) (eventCounter s) = (entry, seen, c) \<and>
    io (the_world s') = io (the_world s) @ EvWrite i (text @ [newline]) # rest \<and>
    read_json (text @ [newline]) = Some (JObj (map (\<lambda>(k, v). (to_valid k, json_of v)) (sort_key fst entry))) \<and>
    newline \<notin> set text \<and> (\<forall>e \<in> set rest. \<forall>j line. e \<noteq> EvWrite j line)"
proof -
  let ?fs = "mergeFields (lg_fields (logger_at s a)) fs"
  let ?s = "update_root a (\<lambda>_. r) s"
  obtain sm where r: "r = (logger_at s a)\<lparr>lg_sampler := sm\<rparr>" using admit_root [OF assms(7)] by blast
  have rf: "lg_middleware r = []" "lg_out r = Sink i sy fd" "lg_fallbackWriter r = None"
      "lg_formatter r = JSONFormatter []"
    using assms(3-6) by (simp_all add: r)
  have root: "root s a = a" using assms(2) by (simp add: root_def)
  have at: "logger_at ?s a = r" "a < length (loggers ?s)" "the_world ?s = the_world s" "eventCounter ?s = eventCounter s"
    using assms(1) by (simp_all add: update_root_def root)
  have root': "root ?s a = a" unfolding root_def at(1) by (simp add: r assms(2))
  have lf: "lg_fields (logger_at ?s a) = lg_fields (logger_at s a)" unfolding at(1) by (simp add: r)
  obtain entry seen c where asm: "assemble ce r level message ?fs (eventCounter s) = (entry, seen, c)"
    by (rule prod_cases3)
  have ok: "json_ok (VMap entry)" "json_clean (VMap entry)"
    using all_values_assemble [OF asm, of json_ok] all_values_assemble [OF asm, of json_clean] assms(8,9)
    by (simp_all add: all_values_def)
  let ?text = "json_entry entry"
  have line: "render ce r entry = ?text @ [newline]"
    by (simp add: render_def rf JSON_Format_def remapped_def append_eqs)
  have call: "internalLog env ce a level message fs s = Some (writeEntry env ce a level message ?fs ?s)"
    using assms(7) by (simp add: internalLog_def root root' lf Let_def)
  have asm': "assemble ce (logger_at ?s a) level message ?fs (eventCounter ?s) = (entry, seen, c)"
    using asm by (simp add: at)
  have mw: "run_middleware (lg_middleware (logger_at ?s a)) entry = Some entry"
    by (simp add: at rf)
  have out: "lg_out (logger_at ?s a) = Sink i sy fd" and fb: "simple_fallback (lg_fallbackWriter (logger_at ?s a))"
    by (simp_all add: at rf simple_fallback_def)
  let ?rest = "map (\<lambda>k. EvHook k level message seen) (lg_hooks r) @
      (if level = FATAL then (if sy then [EvSync i] else []) @ [EvExit (lg_exitFunc r) 1] else [])"
  have "io (the_world (writeEntry env ce a level message ?fs ?s)) =
      io (the_world s) @ EvWrite i (?text @ [newline]) # ?rest"
    using writeEntry_io [OF at(2) out fb asm' mw, of env]
    by (simp add: at line write_events_def rf)
  moreover have "newline \<notin> set ?text"
    using no_control_entry [OF ok(2)] by (auto simp: no_control_def)
  moreover have "\<forall>e \<in> set ?rest. \<forall>j line. e \<noteq> EvWrite j line" by auto
  moreover have "read_json (?text @ [newline]) = Some (JObj (map (\<lambda>(k, v). (to_valid k, json_of v)) (sort_key fst entry)))"
    using read_json_entry [OF ok(1)] by simp
  ultimately show ?thesis using call asm by blast
qed

text \<open>C1: End to end, for a root logger on a sink with the default formatter, no middleware and no fallback: an admitted call
  hands the sink, before anything else, exactly one line, a JSON object in one line that reads back as the
  assembled entry, for all field values that are well-formed JSON once encoded, with no control character in a text that \<open>json.Marshal\<close> or a
  \<open>json.Number\<close> supplies.\<close>

theorem logged_line_reads_back:
  assumes "a < length (loggers s)" and "lg_parent (logger_at s a) = None"
    and "lg_out (logger_at s a) = Sink i sy fd" and "lg_fallbackWriter (logger_at s a) = None"
    and "lg_formatter (logger_at s a) = JSONFormatter []" and "lg_middleware (logger_at s a) = []"
    and "admit ce (logger_at s a) level message = Some (True, r)"
    and "all_values json_ok (final_fields (mergeFields (lg_fields (logger_at s a)) fs))"
    and "all_values json_clean (final_fields (mergeFields (lg_fields (logger_at s a)) fs))"
  shows "\<exists>s' text rest entry seen c. internalLog env ce a level message fs s = Some s' \<and>
    assemble ce r level message (mergeFields (lg_fields (logger_at s a)) fs) (eventCounter s) = (entry, seen, c) \<and>
    io (the_world s') = io (the_world s) @ EvWrite i (text @ [newline]) # rest \<and>
    read_json (text @ [newline]) = Some (JObj (map (\<lambda>(k, v). (to_valid k, json_of v)) (sort_key fst entry))) \<and>
    newline \<notin> set text \<and> (\<forall>e \<in> set rest. \<forall>j line. e \<noteq> EvWrite j line)"
  by (rule logged_line [OF assms])

theorem logged_line_reads_back_witness:
  "\<exists>s' text rest. internalLog quiet_sinks plain_env 0 INFO ''hi'' [(''n'', VInt 3)] hooked_system = Some s' \<and>
     io (the_world s') = io (the_world hooked_system) @ EvWrite 1 (text @ [newline]) # rest \<and>
     newline \<notin> set text"
proof -
  let ?l = "logger_at hooked_system 0"
  have l: "?l = zero_logger\<lparr>lg_out := Sink 1 True None, lg_hooks := [9]\<rparr>" by (simp add: hooked_system_def)
  have fields: "final_fields (mergeFields (lg_fields ?l) [(''n'', VInt 3)]) = [(''n'', VInt 3)]"
    by (simp add: l zero_logger_def mergeFields_def final_fields_def resolveLogValuers_def enrichErrors_def)
  have "\<exists>s' text rest entry seen c. internalLog quiet_sinks plain_env 0 INFO ''hi'' [(''n'', VInt 3)] hooked_system = Some s' \<and>
    assemble plain_env ?l INFO ''hi'' (mergeFields (lg_fields ?l) [(''n'', VInt 3)]) (eventCounter hooked_system) = (entry, seen, c) \<and>
    io (the_world s') = io (the_world hooked_system) @ EvWrite 1 (text @ [newline]) # rest \<and>
    read_json (text @ [newline]) = Some (JObj (map (\<lambda>(k, v). (to_valid k, json_of v)) (sort_key fst entry))) \<and>
    newline \<notin> set text \<and> (\<forall>e \<in> set rest. \<forall>j line. e \<noteq> EvWrite j line)"
  proof (rule logged_line_reads_back)
    show "0 < length (loggers hooked_system)" by (simp add: hooked_system_def)
    show "lg_parent ?l = None" "lg_out ?l = Sink 1 True None" "lg_fallbackWriter ?l = None"
      "lg_formatter ?l = JSONFormatter []" "lg_middleware ?l = []"
      by (simp_all add: l zero_logger_def)
    show "admit plain_env ?l INFO ''hi'' = Some (True, ?l)"
      by (simp add: admit_def l zero_logger_def int32_level_def level_consts)
    show "all_values json_ok (final_fields (mergeFields (lg_fields ?l) [(''n'', VInt 3)]))"
      "all_values json_clean (final_fields (mergeFields (lg_fields ?l) [(''n'', VInt 3)]))"
      unfolding fields by (simp_all add: all_values_def)
  qed
  then show ?thesis by blast
qed

section \<open>Errors of Sync\<close>

lemma fanout_Sync:
  assumes "lg_out (root_logger s a) = FanOutWriter (map (\<lambda>(i, sy). Sink i sy None) sinks)"
    and "root s a < length (loggers s)" and "lg_parent (root_logger s a) = None"
  shows "fst (Sync env a s) =
    (let err = errors_Join (sync_errors env (map fst (filter snd sinks)) (io (the_world s)))
     in if isBenignSyncError err then None else err)"
proof -
  have "root (close_root a s) a = root s a"
    using assms(2,3)
    by (auto simp: close_root_def update_root_def root_def nth_list_update' split: option.split)
  then have "lg_out (root_logger (close_root a s) a) = FanOutWriter (map (\<lambda>(i, sy). Sink i sy None) sinks)"
    using assms(1,2) by (simp add: close_root_def update_root_def)
  moreover have "the_world (close_root a s) = the_world s"
    by (simp add: close_root_def update_root_def)
  ultimately show ?thesis
    using sync_loop_sinks [of env sinks "[]" "the_world s"]
    by (simp add: Sync_def Let_def)
qed

lemma sublist_join: "x \<in> set xs \<Longrightarrow> sublist p x \<Longrightarrow> sublist p (join sep xs)"
proof -
  assume x: "x \<in> set xs" "sublist p x"
  have "sublist x (join sep xs)"
  proof (cases xs)
    case (Cons y r)
    show ?thesis
    proof (cases "x = y")
      case True
      then show ?thesis by (simp add: Cons join_def)
    next
      case False
      then have "x \<in> set r" using x(1) Cons by simp
      then obtain u v where "r = u @ x # v" by (meson split_list)
      then have "join sep xs = (y @ concat (map (\<lambda>z. sep @ z) u) @ sep) @ x @ concat (map (\<lambda>z. sep @ z) v)"
        by (simp add: Cons join_def)
      then show ?thesis by (metis sublist_appendI)
    qed
  qed (use x in simp)
  with x(2) show ?thesis by (rule sublist_order.order_trans)
qed

text \<open>A harmless error of one sink hides the errors of all others: when a fan-out syncs and the error
  of any sink contains "invalid argument", as for a standard output that is a pipe, \<open>Sync\<close> reports
  success, whatever the other sinks answered.\<close>

theorem Sync_hides_real_errors:
  assumes "lg_out (root_logger s a) = FanOutWriter (map (\<lambda>(i, sy). Sink i sy None) sinks)"
    and "root s a < length (loggers s)" and "lg_parent (root_logger s a) = None"
    and "e \<in> set (sync_errors env (map fst (filter snd sinks)) (io (the_world s)))"
    and "contains_str (err_Error e) ''invalid argument''"
  shows "fst (Sync env a s) = None"
proof -
  let ?es = "sync_errors env (map fst (filter snd sinks)) (io (the_world s))"
  have "contains_str (join [newline] (map err_Error ?es)) ''invalid argument''"
    using assms(4,5) sublist_join [of "err_Error e" "map err_Error ?es"]
    by (simp add: contains_str_iff)
  moreover have "?es \<noteq> []" using assms(4) by auto
  ultimately have "isBenignSyncError (errors_Join ?es)"
    by (simp add: isBenignSyncError_def errors_Join_def)
  then show ?thesis using fanout_Sync [OF assms(1-3), of env] by (simp add: Let_def)
qed

text \<open>Two sinks: a terminal that cannot be synced, and a connection that lost data.\<close>

definition lossy_sinks :: sinks where
  "lossy_sinks = \<lparr>on_Write = \<lambda>i h. (0, None),
     on_Sync = \<lambda>i h. Some (if i = 0 then GoErr ''*fs.PathError'' ''sync /dev/stdout: invalid argument'' None
                       else GoErr ''*net.OpError'' ''connection reset: 40 entries lost'' None)\<rparr>"

definition lossy_system :: system where
  "lossy_system = empty_system\<lparr>loggers :=
     [zero_logger\<lparr>lg_out := FanOutWriter (map (\<lambda>(i, sy). Sink i sy None) [(0, True), (1, True)])\<rparr>]\<rparr>"

theorem Sync_hides_real_errors_witness:
  "fst (Sync lossy_sinks 0 lossy_system) = None \<and>
   on_Sync lossy_sinks 1 [EvSync 0, EvSync 1] = Some (GoErr ''*net.OpError'' ''connection reset: 40 entries lost'' None)"
proof -
  have root: "root lossy_system 0 = 0" by (simp add: root_def lossy_system_def zero_logger_def)
  have "contains_str ''sync /dev/stdout: invalid argument'' ''invalid argument''" by code_simp
  then show ?thesis
    using Sync_hides_real_errors [of lossy_system 0 "[(0, True), (1, True)]"
        "GoErr ''*fs.PathError'' ''sync /dev/stdout: invalid argument'' None" lossy_sinks]
    by (simp add: root) (simp add: lossy_system_def zero_logger_def lossy_sinks_def)
qed

end
