(* ===== verification/LogConcurrent.thy ===== *)
theory LogConcurrent
  imports CallCorrect
begin

text \<open>
  Concurrent calls on one family of loggers. The guards of \<open>internalLog\<close> read the root's closed flag,
  level and sampler one after another and without the mutex; the entry is assembled and rendered
  without it too; then \<open>writeEntry\<close> holds the mutex for the write, the hooks and the exit. \<open>Sync\<close> sets
  the closed flag first and takes the mutex then. Each thread is a program counter, a step is one
  atomic action of one thread, and every interleaving is a sequence of steps. Hooks do not log here;
  \<open>LogReentrant\<close> has those that do. A flush of an asynchronous writer is one step here, and \<open>LogPipeline\<close> has the
  writer's own steps.
\<close>

section \<open>Threads\<close>

text \<open>A logging call: the fields of the logger that it is made on, which never change, and its own.\<close>

record log_call =
  lc_env :: call_env
  lc_level :: level
  lc_message :: string
  lc_own :: fields
  lc_fields :: fields

text \<open>An entry ready to be written: its level, message, the fields for the hooks, and the line.\<close>

record ready_entry =
  re_level :: level
  re_message :: string
  re_seen :: fields
  re_line :: string

datatype pc =
    Idle
  | Panicked
  | Called log_call
  | NotClosed log_call
  | Enabled log_call
  | Sampled log_call
  | Ready ready_entry
  | Writing ready_entry
  | Hooking ready_entry "nat list"
  | Exiting
  | Closing
  | Waiting
  | Flushing
  | Leaving

text \<open>What the threads share: the root logger, the sinks, the event counter and the mutex.\<close>

record shared =
  root_lg :: logger
  sinks_world :: world
  counter :: "64 word"
  mutex :: "nat option"
  pcs :: "nat \<Rightarrow> pc"

definition goto :: "nat \<Rightarrow> pc \<Rightarrow> shared \<Rightarrow> shared" where
  "goto t p s = s\<lparr>pcs := (pcs s)(t := p)\<rparr>"

lemma goto_simps [simp]:
  "root_lg (goto t p s) = root_lg s" "sinks_world (goto t p s) = sinks_world s"
  "counter (goto t p s) = counter s" "mutex (goto t p s) = mutex s"
  "pcs (goto t p s) = (pcs s)(t := p)"
  by (simp_all add: goto_def)

definition sample_guard :: "call_env \<Rightarrow> logger \<Rightarrow> level \<Rightarrow> string \<Rightarrow> (bool \<times> logger) option" where
  "sample_guard ce r level message =
     (case lg_sampler r of
        None \<Rightarrow> Some (True, r)
      | Some sm \<Rightarrow>
          if level < ERROR then
            map_option (\<lambda>(ok, sm). (ok, r\<lparr>lg_sampler := Some sm\<rparr>))
              (sampler_Sample (ce_clock ce) sm level message)
          else Some (True, r))"

text \<open>Merging, assembling, middleware and rendering: \<open>None\<close> when the middleware drops the entry.\<close>

definition prepare :: "logger \<Rightarrow> log_call \<Rightarrow> 64 word \<Rightarrow> ready_entry option \<times> 64 word" where
  "prepare r c n =
     (let (entry, seen, n) = assemble (lc_env c) r (lc_level c) (lc_message c)
            (mergeFields (lc_own c) (lc_fields c)) n
      in (map_option (\<lambda>entry. \<lparr>re_level = lc_level c, re_message = lc_message c, re_seen = seen,
              re_line = render (lc_env c) r entry\<rparr>)
            (run_middleware (lg_middleware r) entry), n))"

text \<open>The next action of thread \<open>t\<close>; \<open>None\<close> when it has none or is blocked on the mutex.\<close>

definition advance :: "sinks \<Rightarrow> nat \<Rightarrow> shared \<Rightarrow> shared option" where
  "advance env t s =
     (let r = root_lg s
      in case pcs s t of
           Idle \<Rightarrow> None
         | Panicked \<Rightarrow> None
         | Called c \<Rightarrow> Some (goto t (if lg_closed r then Idle else NotClosed c) s)
         | NotClosed c \<Rightarrow>
             Some (goto t (if lc_level c < int32_level (lg_minLevel r) then Idle else Enabled c) s)
         | Enabled c \<Rightarrow>
             Some (case sample_guard (lc_env c) r (lc_level c) (lc_message c) of
                     None \<Rightarrow> goto t Panicked s
                   | Some (ok, r) \<Rightarrow> goto t (if ok then Sampled c else Idle) (s\<lparr>root_lg := r\<rparr>))
         | Sampled c \<Rightarrow>
             (let (e, n) = prepare r c (counter s)
              in Some (goto t (case e of None \<Rightarrow> Idle | Some e \<Rightarrow> Ready e) (s\<lparr>counter := n\<rparr>)))
         | Ready e \<Rightarrow> if mutex s = None then Some (goto t (Writing e) (s\<lparr>mutex := Some t\<rparr>)) else None
         | Writing e \<Rightarrow>
             (let (r, w) = write_line env r (re_line e) (sinks_world s)
              in Some (goto t (Hooking e (lg_hooks r)) (s\<lparr>root_lg := r, sinks_world := w\<rparr>)))
         | Hooking e [] \<Rightarrow> Some (goto t (if re_level e = FATAL then Exiting else Leaving) s)
         | Hooking e (h # hs) \<Rightarrow>
             Some (goto t (Hooking e hs) (s\<lparr>sinks_world :=
               log_event (EvHook h (re_level e) (re_message e) (re_seen e)) (sinks_world s)\<rparr>))
         | Exiting \<Rightarrow> Some (goto t Leaving (s\<lparr>sinks_world := exit_fatal env r (sinks_world s)\<rparr>))
         | Closing \<Rightarrow> Some (goto t Waiting (s\<lparr>root_lg := r\<lparr>lg_closed := True\<rparr>\<rparr>))
         | Waiting \<Rightarrow> if mutex s = None then Some (goto t Flushing (s\<lparr>mutex := Some t\<rparr>)) else None
         | Flushing \<Rightarrow>
             Some (goto t Leaving (s\<lparr>sinks_world :=
               if is_Syncer (lg_out r) then snd (writer_Sync env (lg_out r) (sinks_world s)) else sinks_world s\<rparr>))
         | Leaving \<Rightarrow> Some (goto t Idle (s\<lparr>mutex := None\<rparr>)))"

text \<open>The steps: a thread begins a call or a \<open>Sync\<close>, goes on, or sets the level.\<close>

datatype label = Begin nat log_call | BeginSync nat | Run nat pc | SetLvl level

definition begin_with :: "nat \<Rightarrow> pc \<Rightarrow> shared \<Rightarrow> shared option" where
  "begin_with t p s = (if pcs s t = Idle then Some (goto t p s) else None)"

inductive cstep :: "sinks \<Rightarrow> shared \<Rightarrow> label \<Rightarrow> shared \<Rightarrow> bool" for env where
  call: "begin_with t (Called c) s = Some s' \<Longrightarrow> cstep env s (Begin t c) s'"
| sync: "begin_with t Closing s = Some s' \<Longrightarrow> cstep env s (BeginSync t) s'"
| run: "advance env t s = Some s' \<Longrightarrow> cstep env s (Run t (pcs s t)) s'"
| set_level: "cstep env s (SetLvl l) (s\<lparr>root_lg := (root_lg s)\<lparr>lg_minLevel := level_int32 l\<rparr>\<rparr>)"

inductive_cases cstepE: "cstep env s (Begin t c) s'" "cstep env s (BeginSync t) s'"
  "cstep env s (Run t p) s'" "cstep env s (SetLvl l) s'"

section \<open>One holder of the mutex\<close>

fun in_section :: "pc \<Rightarrow> bool" where
  "in_section (Writing e) \<longleftrightarrow> True"
| "in_section (Hooking e hs) \<longleftrightarrow> True"
| "in_section Exiting \<longleftrightarrow> True"
| "in_section Flushing \<longleftrightarrow> True"
| "in_section Leaving \<longleftrightarrow> True"
| "in_section _ \<longleftrightarrow> False"

definition lock_inv :: "shared \<Rightarrow> bool" where
  "lock_inv s \<longleftrightarrow> (\<forall>t. in_section (pcs s t) \<longleftrightarrow> mutex s = Some t)"

lemma lock_invD: "lock_inv s \<Longrightarrow> in_section (pcs s t) \<longleftrightarrow> mutex s = Some t"
  by (simp add: lock_inv_def)

text \<open>A step of a thread moves that thread only, and takes or releases the mutex for it only.\<close>

definition moves :: "nat \<Rightarrow> shared \<Rightarrow> shared \<Rightarrow> bool" where
  "moves t s s' \<longleftrightarrow>
     pcs s' = (pcs s)(t := pcs s' t) \<and> (in_section (pcs s' t) \<longleftrightarrow> mutex s' = Some t) \<and>
     (mutex s' = mutex s \<or> mutex s = None \<and> mutex s' = Some t \<or> mutex s = Some t \<and> mutex s' = None)"

lemma advance_moves:
  assumes "lock_inv s" and "advance env t s = Some s'"
  shows "moves t s s'"
  using assms(2) lock_invD [OF assms(1), of t] unfolding moves_def advance_def Let_def
  by (cases "pcs s t") (auto split: if_splits option.splits list.splits prod.splits)

lemma begin_moves:
  assumes "lock_inv s" and "begin_with t p s = Some s'" and "\<not> in_section p"
  shows "moves t s s'"
  using assms(2,3) lock_invD [OF assms(1), of t] by (auto simp: moves_def begin_with_def split: if_splits)

lemma lock_inv_moves:
  assumes "lock_inv s" and "moves t s s'"
  shows "lock_inv s'"
proof -
  have "in_section (pcs s' u) \<longleftrightarrow> mutex s' = Some u" for u
  proof (cases "u = t")
    case True
    then show ?thesis using assms(2) by (simp add: moves_def)
  next
    case False
    then have "pcs s' u = pcs s u" using assms(2) unfolding moves_def by (metis fun_upd_apply)
    then show ?thesis using lock_invD [OF assms(1), of u] assms(2) False by (auto simp: moves_def)
  qed
  then show ?thesis by (simp add: lock_inv_def)
qed

lemma lock_inv_step:
  assumes "cstep env s l s'" and "lock_inv s"
  shows "lock_inv s'"
  using assms
proof (cases rule: cstep.cases)
  case (call t c)
  show ?thesis by (rule lock_inv_moves [OF assms(2) begin_moves [OF assms(2) call(2)]]) simp
next
  case (sync t)
  show ?thesis by (rule lock_inv_moves [OF assms(2) begin_moves [OF assms(2) sync(2)]]) simp
next
  case (run t)
  then show ?thesis by (intro lock_inv_moves [OF assms(2)] advance_moves [OF assms(2)])
next
  case (set_level l)
  then show ?thesis using assms(2) by (simp add: lock_inv_def)
qed

section \<open>The output of a critical section\<close>

text \<open>The fields of the root that the output depends on; no step changes them.\<close>

definition same_output :: "logger \<Rightarrow> logger \<Rightarrow> bool" where
  "same_output r r' \<longleftrightarrow>
     lg_out r = lg_out r' \<and> lg_fallbackWriter r = lg_fallbackWriter r' \<and> lg_hooks r = lg_hooks r' \<and>
     lg_exitFunc r = lg_exitFunc r'"

definition after_hooks :: "sinks \<Rightarrow> logger \<Rightarrow> ready_entry \<Rightarrow> nat list \<Rightarrow> world \<Rightarrow> world" where
  "after_hooks env r e hs w =
     (let w = run_hooks hs (re_level e) (re_message e) (re_seen e) w
      in if re_level e = FATAL then exit_fatal env r w else w)"

definition commit_entry :: "sinks \<Rightarrow> logger \<Rightarrow> ready_entry \<Rightarrow> world \<Rightarrow> world" where
  "commit_entry env r e w = after_hooks env r e (lg_hooks r) (snd (write_line env r (re_line e) w))"

definition flush_out :: "sinks \<Rightarrow> logger \<Rightarrow> world \<Rightarrow> world" where
  "flush_out env r w = (if is_Syncer (lg_out r) then snd (writer_Sync env (lg_out r) w) else w)"

text \<open>What the holder of the mutex still has to do to the sinks.\<close>

fun complete :: "sinks \<Rightarrow> logger \<Rightarrow> pc \<Rightarrow> world \<Rightarrow> world" where
  "complete env r (Writing e) w = commit_entry env r e w"
| "complete env r (Hooking e hs) w = after_hooks env r e hs w"
| "complete env r Exiting w = exit_fatal env r w"
| "complete env r Flushing w = flush_out env r w"
| "complete env r _ w = w"

definition settled :: "sinks \<Rightarrow> shared \<Rightarrow> world" where
  "settled env s =
     (case mutex s of None \<Rightarrow> sinks_world s | Some t \<Rightarrow> complete env (root_lg s) (pcs s t) (sinks_world s))"

text \<open>The steps that take the mutex, with what the section they open does.\<close>

fun commit_label :: "sinks \<Rightarrow> logger \<Rightarrow> label \<Rightarrow> world \<Rightarrow> world" where
  "commit_label env r (Run t (Ready e)) w = commit_entry env r e w"
| "commit_label env r (Run t Waiting) w = flush_out env r w"
| "commit_label env r _ w = w"

lemma same_output_write_line: "same_output (fst (write_line env r line w)) r"
  by (simp add: write_line_def same_output_def split: prod.split option.split)

lemma write_line_same_output:
  "same_output r r' \<Longrightarrow> snd (write_line env r line w) = snd (write_line env r' line w)"
  by (simp add: write_line_def same_output_def split: prod.split option.split)

lemma same_output_sample: "sample_guard ce r l m = Some (ok, r') \<Longrightarrow> same_output r' r"
  by (auto simp: sample_guard_def same_output_def split: option.splits if_splits)

lemma exit_fatal_same_output: "same_output r r' \<Longrightarrow> exit_fatal env r = exit_fatal env r'"
  by (simp add: exit_fatal_def same_output_def fun_eq_iff)

lemma after_hooks_same_output: "same_output r r' \<Longrightarrow> after_hooks env r = after_hooks env r'"
  using exit_fatal_same_output [of r r'] by (simp add: after_hooks_def fun_eq_iff Let_def)

lemma commit_entry_same_output: "same_output r r' \<Longrightarrow> commit_entry env r = commit_entry env r'"
  using write_line_same_output [of r r'] after_hooks_same_output [of r r']
  by (simp add: commit_entry_def fun_eq_iff same_output_def)

lemma flush_out_same_output: "same_output r r' \<Longrightarrow> flush_out env r = flush_out env r'"
  by (simp add: flush_out_def same_output_def fun_eq_iff)

lemmas same_outputs = exit_fatal_same_output after_hooks_same_output commit_entry_same_output
  flush_out_same_output

lemma complete_same_output: "same_output r r' \<Longrightarrow> complete env r p w = complete env r' p w"
  by (cases p) (simp_all add: same_outputs [of r r'])

lemma commit_label_same_output: "same_output r r' \<Longrightarrow> commit_label env r l w = commit_label env r' l w"
  by (cases "(env, r, l, w)" rule: commit_label.cases) (simp_all add: same_outputs [of r r'])

lemma complete_outside: "\<not> in_section p \<Longrightarrow> complete env r p w = w"
  by (cases p) simp_all

lemma advance_root:
  assumes "advance env t s = Some s'"
  shows "same_output (root_lg s') (root_lg s)"
proof (cases "pcs s t")
  case (Enabled c)
  then show ?thesis
    using assms same_output_sample by (auto simp: advance_def same_output_def split: option.splits prod.splits)
next
  case (Writing e)
  then show ?thesis
    using assms same_output_write_line [of env "root_lg s" "re_line e" "sinks_world s"]
    by (auto simp: advance_def split: prod.splits)
next
  case (Hooking e hs)
  then show ?thesis using assms by (cases hs) (auto simp: advance_def same_output_def)
qed (use assms in \<open>auto simp: advance_def same_output_def Let_def split: if_splits prod.splits\<close>)

lemma advance_outside:
  assumes "advance env t s = Some s'" and "\<not> in_section (pcs s t)"
  shows "sinks_world s' = sinks_world s \<and>
    (if in_section (pcs s' t)
     then mutex s = None \<and> complete env r (pcs s' t) w = commit_label env r (Run t (pcs s t)) w
     else commit_label env r (Run t (pcs s t)) w = w \<and> mutex s' = mutex s)"
  using assms unfolding advance_def Let_def
  by (cases "pcs s t") (auto split: if_splits option.splits prod.splits)

lemma advance_inside:
  assumes "advance env t s = Some s'" and "in_section (pcs s t)"
  shows "complete env (root_lg s) (pcs s' t) (sinks_world s') = complete env (root_lg s) (pcs s t) (sinks_world s) \<and>
    commit_label env r (Run t (pcs s t)) w = w"
proof (cases "pcs s t")
  case (Writing e)
  obtain r' w' where w: "write_line env (root_lg s) (re_line e) (sinks_world s) = (r', w')" by force
  then have same: "same_output r' (root_lg s)"
    using same_output_write_line [of env "root_lg s" "re_line e" "sinks_world s"] by simp
  show ?thesis
    using assms(1) Writing w same
    by (auto simp: advance_def commit_entry_def same_output_def)
next
  case (Hooking e hs)
  then show ?thesis using assms(1)
    by (cases hs) (auto simp: advance_def after_hooks_def Let_def)
qed (use assms in \<open>auto simp: advance_def flush_out_def\<close>)

lemma settled_other:
  assumes "moves t s s'" and "mutex s = Some u" and "u \<noteq> t"
  shows "mutex s' = Some u \<and> pcs s' u = pcs s u"
  using assms unfolding moves_def by (metis fun_upd_apply option.distinct(1) option.inject)

lemma settled_advance:
  assumes "advance env t s = Some s'" and "lock_inv s"
  shows "settled env s' = commit_label env (root_lg s) (Run t (pcs s t)) (settled env s)"
proof (cases "in_section (pcs s t)")
  case True
  then have m: "mutex s = Some t" using assms(2) by (simp add: lock_invD)
  have "settled env s' = complete env (root_lg s') (pcs s' t) (sinks_world s')"
  proof (cases "mutex s'")
    case None
    then have "\<not> in_section (pcs s' t)" using advance_moves [OF assms(2,1)] by (simp add: moves_def)
    then show ?thesis by (simp add: settled_def None complete_outside)
  next
    case (Some u)
    then have "u = t" using advance_moves [OF assms(2,1)] m by (auto simp: moves_def)
    then show ?thesis by (simp add: settled_def Some)
  qed
  then show ?thesis
    using advance_inside [OF assms(1) True] complete_same_output [OF advance_root [OF assms(1)]] m
    by (simp add: settled_def)
next
  case out: False
  show ?thesis
  proof (cases "mutex s")
    case None
    then show ?thesis
      using advance_outside [OF assms(1) out, of "root_lg s" "sinks_world s"] advance_moves [OF assms(2,1)]
        complete_same_output [OF advance_root [OF assms(1)]]
      by (cases "in_section (pcs s' t)") (auto simp: settled_def moves_def)
  next
    case (Some u)
    then have "u \<noteq> t" using out assms(2) by (auto simp: lock_invD)
    then have "mutex s' = Some u \<and> pcs s' u = pcs s u"
      using settled_other [OF advance_moves [OF assms(2,1)] Some] by simp
    moreover have "\<not> in_section (pcs s' t)"
      using advance_moves [OF assms(2,1)] calculation \<open>u \<noteq> t\<close> by (simp add: moves_def)
    ultimately show ?thesis
      using advance_outside [OF assms(1) out, of "root_lg s"] Some
        complete_same_output [OF advance_root [OF assms(1)]]
      by (simp add: settled_def)
  qed
qed

lemma settled_step:
  assumes "cstep env s l s'" and "lock_inv s"
  shows "settled env s' = commit_label env (root_lg s) l (settled env s) \<and> same_output (root_lg s') (root_lg s)"
  using assms(1)
proof (cases rule: cstep.cases)
  case (call t c)
  then have m: "moves t s s'" using begin_moves [OF assms(2) call(2)] by simp
  have "pcs s t = Idle" "sinks_world s' = sinks_world s" "root_lg s' = root_lg s" "mutex s' = mutex s"
    using call(2) by (auto simp: begin_with_def split: if_splits)
  then show ?thesis
    using settled_other [OF m] lock_invD [OF assms(2), of t] call(1)
    by (cases "mutex s") (auto simp: settled_def same_output_def)
next
  case (sync t)
  then have m: "moves t s s'" using begin_moves [OF assms(2) sync(2)] by simp
  have "pcs s t = Idle" "sinks_world s' = sinks_world s" "root_lg s' = root_lg s" "mutex s' = mutex s"
    using sync(2) by (auto simp: begin_with_def split: if_splits)
  then show ?thesis
    using settled_other [OF m] lock_invD [OF assms(2), of t] sync(1)
    by (cases "mutex s") (auto simp: settled_def same_output_def)
next
  case (run t)
  then show ?thesis using settled_advance [OF run(2) assms(2)] advance_root [OF run(2)] by simp
next
  case (set_level l)
  have same: "same_output ((root_lg s)\<lparr>lg_minLevel := level_int32 l\<rparr>) (root_lg s)"
    by (simp add: same_output_def)
  then show ?thesis
    using complete_same_output [OF same, of env] set_level by (simp add: settled_def split: option.split)
qed

section \<open>The specification: one section at a time\<close>

text \<open>
  The part of the root logger that the output depends on, and the specification: the sinks change
  only when the mutex is taken, and then by the whole section at once.
\<close>

definition output_of :: "logger \<Rightarrow> logger" where
  "output_of r =
     zero_logger\<lparr>lg_out := lg_out r, lg_fallbackWriter := lg_fallbackWriter r, lg_hooks := lg_hooks r,
       lg_exitFunc := lg_exitFunc r\<rparr>"

definition serial_of :: "sinks \<Rightarrow> shared \<Rightarrow> logger \<times> world" where
  "serial_of env s = (output_of (root_lg s), settled env s)"

inductive serial_step :: "sinks \<Rightarrow> logger \<times> world \<Rightarrow> label \<Rightarrow> logger \<times> world \<Rightarrow> bool" for env where
  "serial_step env (r, w) l (r, commit_label env r l w)"

inductive_simps serial_step_simps: "serial_step env (r, w) l a"

lemma same_output_output_of: "same_output (output_of r) r"
  by (simp add: same_output_def output_of_def)

lemma output_of_same: "same_output r r' \<Longrightarrow> output_of r = output_of r'"
  by (simp add: same_output_def output_of_def)

interpretation concurrent_calls: simulation "cstep env" lock_inv "serial_of env" "serial_step env" for env
proof
  fix s l s'
  assume inv: "lock_inv s" and step: "cstep env s l s'"
  show "lock_inv s'" by (rule lock_inv_step [OF step inv])
  show "serial_step env (serial_of env s) l (serial_of env s')"
    using settled_step [OF step inv] output_of_same [of "root_lg s'" "root_lg s"]
      commit_label_same_output [OF same_output_output_of]
    by (simp add: serial_of_def serial_step_simps)
qed

lemma serial_trace:
  "trace (serial_step env) a es b \<Longrightarrow> b = (fst a, fold (commit_label env (fst a)) es (snd a))"
proof (induction rule: trace.induct)
  case (trace_snoc es t l u)
  then show ?case by (cases t) (simp add: serial_step_simps)
qed simp

lemma settled_trace:
  assumes "trace (cstep env) s es s'" and "lock_inv s"
  shows "settled env s' = fold (commit_label env (root_lg s)) es (settled env s)"
    and "same_output (root_lg s') (root_lg s)" and "lock_inv s'"
proof -
  have tr: "serial_of env s' = (fst (serial_of env s),
      fold (commit_label env (fst (serial_of env s))) es (snd (serial_of env s)))"
    by (rule serial_trace [OF concurrent_calls.trace_refines [OF assms]])
  have "commit_label env (output_of (root_lg s)) = commit_label env (root_lg s)"
    using commit_label_same_output [OF same_output_output_of] by (simp add: fun_eq_iff)
  then show "settled env s' = fold (commit_label env (root_lg s)) es (settled env s)"
    using tr by (simp add: serial_of_def)
  show "same_output (root_lg s') (root_lg s)"
    using tr by (simp add: serial_of_def output_of_def same_output_def zero_logger_def)
  show "lock_inv s'" by (rule concurrent_calls.trace_inv [OF assms])
qed

section \<open>Runs of one thread\<close>

text \<open>A schedule lists the threads in the order in which they act.\<close>

fun schedule :: "sinks \<Rightarrow> nat list \<Rightarrow> shared \<Rightarrow> shared option" where
  "schedule env [] s = Some s"
| "schedule env (t # ts) s = (case advance env t s of None \<Rightarrow> None | Some s \<Rightarrow> schedule env ts s)"

text \<open>The thread \<open>t\<close> gets from one state to another by its own steps, while no other thread acts.\<close>

definition alone :: "sinks \<Rightarrow> nat \<Rightarrow> shared \<Rightarrow> shared \<Rightarrow> bool" where
  "alone env t s u \<longleftrightarrow> (\<exists>n. schedule env (replicate n t) s = Some u)"

lemma alone_refl [simp, intro]: "alone env t s s"
  unfolding alone_def by (rule exI [of _ 0]) simp

lemma alone_advance:
  assumes "advance env t s = Some s'" and "alone env t s' u"
  shows "alone env t s u"
proof -
  obtain n where "schedule env (replicate n t) s' = Some u" using assms(2) by (auto simp: alone_def)
  then show ?thesis unfolding alone_def using assms(1) by (intro exI [of _ "Suc n"]) simp
qed

lemma schedule_append:
  "schedule env (ts @ us) s = (case schedule env ts s of None \<Rightarrow> None | Some s \<Rightarrow> schedule env us s)"
  by (induction env ts s rule: schedule.induct) (simp_all split: option.split)

lemma schedule_alone: "schedule env ts s = Some u \<Longrightarrow> set ts \<subseteq> {t} \<Longrightarrow> alone env t s u"
  by (metis alone_def replicate_length_same singletonD subsetD)

fun labels :: "sinks \<Rightarrow> nat list \<Rightarrow> shared \<Rightarrow> label list" where
  "labels env [] s = []"
| "labels env (t # ts) s =
     Run t (pcs s t) # (case advance env t s of None \<Rightarrow> [] | Some s \<Rightarrow> labels env ts s)"

lemma labels_append:
  "schedule env ts s = Some u \<Longrightarrow> labels env (ts @ us) s = labels env ts s @ labels env us u"
  by (induction env ts s rule: schedule.induct) (simp_all split: option.splits)

lemma schedule_trace: "schedule env ts s = Some u \<Longrightarrow> trace (cstep env) s (labels env ts s) u"
proof (induction env ts s rule: schedule.induct)
  case (2 env t ts s)
  then obtain s' where s': "advance env t s = Some s'" "schedule env ts s' = Some u"
    by (auto split: option.splits)
  then have "trace (cstep env) s [Run t (pcs s t)] s'"
    using trace.trace_snoc [OF trace.trace_nil, of "cstep env" s _ s'] cstep.run [OF s'(1)] by simp
  then show ?case using trace_append [OF "2.IH" [OF s'], of s] s'(1) by fastforce
qed (simp add: trace.trace_nil)

section \<open>A call without interference\<close>

lemma hooks_run:
  assumes "pcs s t = Hooking e hs"
  shows "alone env t s (goto t Idle (s\<lparr>sinks_world := after_hooks env (root_lg s) e hs (sinks_world s), mutex := None\<rparr>))"
  using assms
proof (induction hs arbitrary: s)
  case Nil
  show ?case
  proof (cases "re_level e = FATAL")
    case True
    have "schedule env [t, t, t] s = Some (goto t Idle (s\<lparr>sinks_world := after_hooks env (root_lg s) e [] (sinks_world s), mutex := None\<rparr>))"
      using Nil True by (simp add: advance_def goto_def after_hooks_def)
    then show ?thesis by (rule schedule_alone) simp
  next
    case False
    have "schedule env [t, t] s = Some (goto t Idle (s\<lparr>sinks_world := after_hooks env (root_lg s) e [] (sinks_world s), mutex := None\<rparr>))"
      using Nil False by (simp add: advance_def goto_def after_hooks_def)
    then show ?thesis by (rule schedule_alone) simp
  qed
next
  case (Cons h hs)
  let ?s = "goto t (Hooking e hs) (s\<lparr>sinks_world :=
      log_event (EvHook h (re_level e) (re_message e) (re_seen e)) (sinks_world s)\<rparr>)"
  have step: "advance env t s = Some ?s" using Cons.prems by (simp add: advance_def)
  have "pcs ?s t = Hooking e hs" by simp
  note Cons.IH [OF this]
  moreover have "goto t Idle (?s\<lparr>sinks_world := after_hooks env (root_lg ?s) e hs (sinks_world ?s), mutex := None\<rparr>) =
      goto t Idle (s\<lparr>sinks_world := after_hooks env (root_lg s) e (h # hs) (sinks_world s), mutex := None\<rparr>)"
    by (simp add: goto_def after_hooks_def)
  ultimately show ?case using alone_advance [OF step] by simp
qed

lemma write_run:
  assumes "pcs s t = Ready e" and "mutex s = None"
  shows "alone env t s (goto t Idle (s\<lparr>root_lg := fst (write_line env (root_lg s) (re_line e) (sinks_world s)),
    sinks_world := commit_entry env (root_lg s) e (sinks_world s)\<rparr>))"
proof -
  obtain r w where w: "write_line env (root_lg s) (re_line e) (sinks_world s) = (r, w)" by force
  have same: "same_output r (root_lg s)"
    using same_output_write_line [of env "root_lg s" "re_line e" "sinks_world s"] w by simp
  let ?s1 = "goto t (Writing e) (s\<lparr>mutex := Some t\<rparr>)"
  let ?s2 = "goto t (Hooking e (lg_hooks r)) (?s1\<lparr>root_lg := r, sinks_world := w\<rparr>)"
  have "advance env t s = Some ?s1" using assms by (simp add: advance_def)
  moreover have "advance env t ?s1 = Some ?s2" using w by (simp add: advance_def)
  moreover have "pcs ?s2 t = Hooking e (lg_hooks r)" by simp
  note hooks_run [OF this, of env]
  moreover have "goto t Idle (?s2\<lparr>sinks_world := after_hooks env (root_lg ?s2) e (lg_hooks r) (sinks_world ?s2), mutex := None\<rparr>) =
      goto t Idle (s\<lparr>root_lg := r, sinks_world := commit_entry env (root_lg s) e (sinks_world s)\<rparr>)"
    using w same after_hooks_same_output [OF same, of env] assms(2)
    by (simp add: goto_def commit_entry_def same_output_def)
  ultimately show ?thesis using w alone_advance by simp
qed

lemma admit_guards:
  "admit ce r level message =
     (if lg_closed r then Some (False, r)
      else if level < int32_level (lg_minLevel r) then Some (False, r)
      else sample_guard ce r level message)"
  by (simp add: admit_def sample_guard_def)

text \<open>The state of the system that the threads of the family of root \<open>ra\<close> share.\<close>

definition share :: "nat \<Rightarrow> system \<Rightarrow> (nat \<Rightarrow> pc) \<Rightarrow> shared" where
  "share ra s p =
     \<lparr>root_lg = logger_at s ra, sinks_world = the_world s, counter = eventCounter s, mutex = None, pcs = p\<rparr>"

lemma writeEntry_prepared:
  assumes "ra < length (loggers s)" and "c = \<lparr>lc_env = ce, lc_level = level, lc_message = message, lc_own = own, lc_fields = fs\<rparr>"
    and "prepare (logger_at s ra) c (eventCounter s) = (e, n)"
  shows "share ra (writeEntry env ce ra level message (mergeFields own fs) s) p =
    (case e of
       None \<Rightarrow> (share ra s p)\<lparr>counter := n\<rparr>
     | Some e \<Rightarrow> (share ra s p)\<lparr>root_lg := fst (write_line env (logger_at s ra) (re_line e) (the_world s)),
         sinks_world := commit_entry env (logger_at s ra) e (the_world s), counter := n\<rparr>)"
proof -
  obtain entry seen m where a: "assemble ce (logger_at s ra) level message (mergeFields own fs) (eventCounter s) = (entry, seen, m)"
    by (rule prod_cases3)
  show ?thesis
  proof (cases "run_middleware (lg_middleware (logger_at s ra)) entry")
    case None
    then show ?thesis using assms a by (simp add: share_def writeEntry_def prepare_def Let_def)
  next
    case (Some out)
    obtain r w where w: "write_line env (logger_at s ra) (render ce (logger_at s ra) out) (the_world s) = (r, w)" by force
    then have same: "same_output r (logger_at s ra)"
      using same_output_write_line [of env "logger_at s ra" "render ce (logger_at s ra) out" "the_world s"] by simp
    then have "exit_fatal env r = exit_fatal env (logger_at s ra)" "lg_hooks r = lg_hooks (logger_at s ra)"
      using exit_fatal_same_output [OF same, of env] same by (simp_all add: same_output_def)
    moreover have "e = Some \<lparr>re_level = level, re_message = message, re_seen = seen,
        re_line = render ce (logger_at s ra) out\<rparr>" "n = m"
      using assms(3) by (simp_all add: assms(2) prepare_def a Some)
    ultimately show ?thesis
      by (simp add: share_def writeEntry_def a Some w commit_entry_def after_hooks_def Let_def assms(1))
  qed
qed

lemma share_update_root:
  "root s a < length (loggers s) \<Longrightarrow>
     share (root s a) (update_root a (\<lambda>_. r) s) p = (share (root s a) s p)\<lparr>root_lg := r\<rparr>"
  by (simp add: share_def update_root_def)

lemma sampled_run:
  assumes "pcs u t = Sampled \<lparr>lc_env = ce, lc_level = level, lc_message = message, lc_own = own, lc_fields = fs\<rparr>"
    and "u = share ra s p" and "ra < length (loggers s)"
  shows "alone env t u (goto t Idle (share ra (writeEntry env ce ra level message (mergeFields own fs) s) p))"
proof -
  let ?c = "\<lparr>lc_env = ce, lc_level = level, lc_message = message, lc_own = own, lc_fields = fs\<rparr>"
  obtain e n where prep: "prepare (logger_at s ra) ?c (eventCounter s) = (e, n)" by force
  note result = writeEntry_prepared [OF assms(3) refl prep, of env p]
  have root: "root_lg u = logger_at s ra" "counter u = eventCounter s" "mutex u = None"
    "sinks_world u = the_world s" using assms(2) by (simp_all add: share_def)
  show ?thesis
  proof (cases e)
    case None
    have "advance env t u = Some (goto t Idle (u\<lparr>counter := n\<rparr>))"
      using assms(1) prep root None by (simp add: advance_def)
    then show ?thesis unfolding result using None assms(2) by (auto intro: alone_advance)
  next
    case (Some e')
    let ?u = "goto t (Ready e') (u\<lparr>counter := n\<rparr>)"
    have step: "advance env t u = Some ?u"
      using assms(1) prep root Some by (simp add: advance_def)
    have "alone env t ?u (goto t Idle (?u\<lparr>root_lg := fst (write_line env (root_lg ?u) (re_line e') (sinks_world ?u)),
        sinks_world := commit_entry env (root_lg ?u) e' (sinks_world ?u)\<rparr>))"
      by (rule write_run) (simp_all add: root)
    moreover have "goto t Idle (?u\<lparr>root_lg := fst (write_line env (root_lg ?u) (re_line e') (sinks_world ?u)),
        sinks_world := commit_entry env (root_lg ?u) e' (sinks_world ?u)\<rparr>) =
      goto t Idle (share ra (writeEntry env ce ra level message (mergeFields own fs) s) p)"
      unfolding result using assms(2) Some root by (simp add: goto_def)
    ultimately show ?thesis using alone_advance [OF step] by simp
  qed
qed

lemma goto_goto [simp]: "goto t p (goto t q s) = goto t p s"
  by (simp add: goto_def)

lemma goto_share: "goto t q (share ra s p) = share ra s (p(t := q))"
  by (simp add: goto_def share_def)

text \<open>The guards as steps of thread \<open>t\<close> on the shared state.\<close>

lemma guard_steps:
  "advance env t (share ra s (p(t := Called c))) =
     Some (share ra s (p(t := if lg_closed (logger_at s ra) then Idle else NotClosed c)))"
  "advance env t (share ra s (p(t := NotClosed c))) =
     Some (share ra s (p(t := if lc_level c < int32_level (lg_minLevel (logger_at s ra)) then Idle else Enabled c)))"
  "advance env t (share ra s (p(t := Enabled c))) =
     Some (case sample_guard (lc_env c) (logger_at s ra) (lc_level c) (lc_message c) of
        None \<Rightarrow> share ra s (p(t := Panicked))
      | Some (ok, r) \<Rightarrow> (share ra s (p(t := if ok then Sampled c else Idle)))\<lparr>root_lg := r\<rparr>)"
  by (simp_all add: advance_def share_def goto_def split: option.split prod.split)

lemma guarded_run:
  assumes "lg_closed (logger_at s ra) \<or> lc_level c < int32_level (lg_minLevel (logger_at s ra))"
  shows "alone env t (share ra s (p(t := Called c))) (share ra s (p(t := Idle)))"
proof (cases "lg_closed (logger_at s ra)")
  case True
  show ?thesis by (rule alone_advance [OF guard_steps(1)]) (simp add: True)
next
  case False
  have "alone env t (share ra s (p(t := NotClosed c))) (share ra s (p(t := Idle)))"
    by (rule alone_advance [OF guard_steps(2)]) (use assms False in simp)
  then show ?thesis by (intro alone_advance [OF guard_steps(1)]) (simp add: False)
qed

lemma unguarded_run:
  assumes "\<not> lg_closed (logger_at s ra)" and "\<not> lc_level c < int32_level (lg_minLevel (logger_at s ra))"
    and "alone env t (share ra s (p(t := Enabled c))) u"
  shows "alone env t (share ra s (p(t := Called c))) u"
  by (rule alone_advance [OF guard_steps(1)])
    (use assms alone_advance [OF guard_steps(2)] in simp)

lemma sample_run:
  assumes "sample_guard ce (root_logger s a) level message = Some (ok, r)"
    and "root s a < length (loggers s)" and "lc_env c = ce" "lc_level c = level" "lc_message c = message"
    and "alone env t (share (root s a) (update_root a (\<lambda>_. r) s) (p(t := (if ok then Sampled c else Idle)))) u"
  shows "alone env t (share (root s a) s (p(t := Enabled c))) u"
  by (rule alone_advance [OF guard_steps(3)])
    (use assms in \<open>simp add: share_update_root [OF assms(2)] split: if_splits\<close>)

text \<open>What a call leaves behind, according to \<open>internalLog\<close>.\<close>

definition after_call :: "nat \<Rightarrow> nat \<Rightarrow> (nat \<Rightarrow> pc) \<Rightarrow> system \<Rightarrow> system option \<Rightarrow> shared" where
  "after_call ra t p s result =
     (case result of
        None \<Rightarrow> share ra s (p(t := Panicked))
      | Some s' \<Rightarrow> share ra s' (p(t := Idle)))"

lemma call_runs:
  assumes "root s a < length (loggers s)"
    and "c = \<lparr>lc_env = ce, lc_level = level, lc_message = message, lc_own = lg_fields (logger_at s a), lc_fields = fs\<rparr>"
  shows "alone env t (share (root s a) s (p(t := Called c)))
    (after_call (root s a) t p s (internalLog env ce a level message fs s))"
proof (cases "lg_closed (root_logger s a) \<or> level < int32_level (lg_minLevel (root_logger s a))")
  case True
  then have adm: "admit ce (root_logger s a) level message = Some (False, root_logger s a)"
    by (auto simp: admit_guards)
  show ?thesis using guarded_run True by (simp add: after_call_def internalLog_admitted [OF adm] assms(2))
next
  case False
  then have upto: "alone env t (share (root s a) s (p(t := Called c))) u"
    if "alone env t (share (root s a) s (p(t := Enabled c))) u" for u
    using unguarded_run [OF _ _ that] assms(2) by simp
  show ?thesis
  proof (cases "sample_guard ce (root_logger s a) level message")
    case None
    then have "internalLog env ce a level message fs s = None"
      using False by (simp add: internalLog_def admit_guards)
    moreover have "alone env t (share (root s a) s (p(t := Enabled c))) (share (root s a) s (p(t := Panicked)))"
      by (rule alone_advance [OF guard_steps(3)]) (simp add: None assms(2))
    ultimately show ?thesis using upto by (simp add: after_call_def)
  next
    case (Some res)
    obtain ok r where res: "res = (ok, r)" by force
    then have adm: "admit ce (root_logger s a) level message = Some (ok, r)"
      using Some False by (simp add: admit_guards)
    let ?s = "update_root a (\<lambda>_. r) s"
    note go = upto [OF sample_run [OF Some [unfolded res] assms(1)]]
    show ?thesis
    proof (cases ok)
      case True
      have len: "root s a < length (loggers ?s)" using assms(1) by (simp add: update_root_def)
      have "alone env t (share (root s a) ?s (p(t := Sampled c)))
          (goto t Idle (share (root s a) (writeEntry env ce (root s a) level message
            (mergeFields (lg_fields (logger_at s a)) fs) ?s) (p(t := Sampled c))))"
        by (rule sampled_run [OF _ refl len]) (simp add: share_def assms(2))
      then show ?thesis using go True assms(2) by (simp add: after_call_def internalLog_admitted [OF adm] goto_share)
    next
      case False
      then show ?thesis using go assms(2) by (simp add: after_call_def internalLog_admitted [OF adm])
    qed
  qed
qed

text \<open>C28: A call that no other thread disturbs ends, and does, step by step, what \<open>internalLog\<close> does as one function: its
  thread, acting alone, comes after some number of its steps to a state in which it has nothing left to do, which is the
  final state of \<open>internalLog\<close> with the mutex free, or, when the sampler panics there, the state before with the
  thread panicked. The steps of one thread are a function of the state, so there is no other end.\<close>

theorem undisturbed_call:
  assumes "root s a < length (loggers s)"
    and "c = \<lparr>lc_env = ce, lc_level = level, lc_message = message, lc_own = lg_fields (logger_at s a), lc_fields = fs\<rparr>"
  shows "\<exists>n. schedule env (replicate n t) (share (root s a) s (p(t := Called c))) =
      Some (case internalLog env ce a level message fs s of
        None \<Rightarrow> share (root s a) s (p(t := Panicked))
      | Some s' \<Rightarrow> share (root s a) s' (p(t := Idle))) \<and>
    schedule env (replicate (Suc n) t) (share (root s a) s (p(t := Called c))) = None"
proof -
  let ?u = "after_call (root s a) t p s (internalLog env ce a level message fs s)"
  obtain n where n: "schedule env (replicate n t) (share (root s a) s (p(t := Called c))) = Some ?u"
    using call_runs [OF assms, of env t p] by (auto simp: alone_def)
  moreover have "advance env t ?u = None" by (simp add: after_call_def advance_def share_def split: option.split)
  then have "schedule env (replicate n t @ [t]) (share (root s a) s (p(t := Called c))) = None"
    using n by (simp add: schedule_append)
  ultimately show ?thesis unfolding replicate_append_same by (auto simp: after_call_def)
qed

theorem undisturbed_call_witness:
  "\<exists>s' n. internalLog quiet_sinks plain_env 0 INFO ''hi'' [] hooked_system = Some s' \<and>
     schedule quiet_sinks (replicate n 1)
       (share 0 hooked_system ((\<lambda>_. Idle)(1 := Called \<lparr>lc_env = plain_env, lc_level = INFO, lc_message = ''hi'',
          lc_own = [], lc_fields = []\<rparr>))) = Some (share 0 s' (\<lambda>_. Idle))"
proof -
  let ?l = "logger_at hooked_system 0"
  have l: "?l = zero_logger\<lparr>lg_out := Sink 1 True None, lg_hooks := [9]\<rparr>" by (simp add: hooked_system_def)
  have root: "root hooked_system 0 = 0" by (simp add: root_def l zero_logger_def)
  have "admit plain_env ?l INFO ''hi'' = Some (True, ?l)"
    by (simp add: admit_def l zero_logger_def int32_level_def level_consts)
  then obtain s' where s': "internalLog quiet_sinks plain_env 0 INFO ''hi'' [] hooked_system = Some s'"
    using internalLog_admitted [of plain_env hooked_system 0 INFO "''hi''" True ?l quiet_sinks "[]"]
    by (simp add: root)
  have "0 < length (loggers hooked_system)" "lg_fields ?l = []"
    by (simp_all add: hooked_system_def zero_logger_def)
  then show ?thesis
    using undisturbed_call [of hooked_system 0 _ plain_env INFO "''hi''" "[]" quiet_sinks 1 "\<lambda>_. Idle", OF _ refl] s'
    by (auto simp: root fun_upd_idem)
qed

section \<open>Serialisation\<close>

text \<open>C2: The mutex makes concurrent calls serial: in any interleaving of any number of calls, level changes and
  \<open>Sync\<close>s that starts and ends with the mutex free, the sinks end up as if the whole sections, each with its
  write, fallback, hooks and exit, had run one after another in the order in which the threads took the mutex.\<close>

theorem calls_serialise:
  assumes "trace (cstep env) s es s'" and "lock_inv s" and "mutex s = None" and "mutex s' = None"
  shows "sinks_world s' = fold (commit_label env (root_lg s)) es (sinks_world s)"
  using settled_trace [OF assms(1,2)] assms(3,4) by (simp add: settled_def)

text \<open>Two threads with an entry ready, and an interleaving of them.\<close>

definition two_ready :: shared where
  "two_ready =
     \<lparr>root_lg = zero_logger\<lparr>lg_out := Sink 0 True None\<rparr>, sinks_world = empty_world, counter = 0, mutex = None,
      pcs = (\<lambda>_. Idle)
        (1 := Ready \<lparr>re_level = INFO, re_message = ''a'', re_seen = [], re_line = ''a''\<rparr>,
         2 := Ready \<lparr>re_level = INFO, re_message = ''b'', re_seen = [], re_line = ''b''\<rparr>)\<rparr>"

definition two_written :: shared where
  "two_written = two_ready\<lparr>sinks_world := empty_world\<lparr>io := [EvWrite 0 ''b'', EvWrite 0 ''a'']\<rparr>, pcs := \<lambda>_. Idle\<rparr>"

lemma two_ready_run: "schedule quiet_sinks [2, 2, 2, 2, 1, 1, 1, 1] two_ready = Some two_written"
  by (simp add: two_ready_def two_written_def advance_def goto_def write_line_def zero_logger_def sink_write_def
      quiet_sinks_def empty_world_def level_consts fun_eq_iff)

lemma two_ready_inv: "lock_inv two_ready" "mutex two_ready = None" "mutex two_written = None"
  by (simp_all add: lock_inv_def two_ready_def two_written_def)

theorem calls_serialise_witness:
  "fold (commit_label quiet_sinks (root_lg two_ready))
     (labels quiet_sinks [2, 2, 2, 2, 1, 1, 1, 1] two_ready) (sinks_world two_ready) =
   empty_world\<lparr>io := [EvWrite 0 ''b'', EvWrite 0 ''a'']\<rparr>"
  using calls_serialise [OF schedule_trace [OF two_ready_run] two_ready_inv] by (simp add: two_written_def)

text \<open>The events of a section when the logger writes to one sink and has no fallback.\<close>

fun section_events :: "nat \<Rightarrow> bool \<Rightarrow> exit_func \<Rightarrow> nat list \<Rightarrow> label \<Rightarrow> io_event list" where
  "section_events i sy ef hooks (Run t (Ready e)) =
     EvWrite i (re_line e) # map (\<lambda>h. EvHook h (re_level e) (re_message e) (re_seen e)) hooks @
     (if re_level e = FATAL then (if sy then [EvSync i] else []) @ [EvExit ef 1] else [])"
| "section_events i sy ef hooks (Run t Waiting) = (if sy then [EvSync i] else [])"
| "section_events i sy ef hooks _ = []"

lemma commit_label_events:
  assumes "lg_out r = Sink i sy fd" and "lg_fallbackWriter r = None"
  shows "io (commit_label env r l w) = io w @ section_events i sy (lg_exitFunc r) (lg_hooks r) l"
proof -
  have "simple_fallback (lg_fallbackWriter r)" by (simp add: simple_fallback_def assms(2))
  note line = write_line_sink [OF assms(1) this]
  show ?thesis
    by (cases "(i, sy, lg_exitFunc r, lg_hooks r, l)" rule: section_events.cases)
      (simp_all add: commit_entry_def line after_hooks_def run_hooks_io exit_fatal_def flush_out_def
        sink_sync_def log_event_def write_events_def assms Let_def)
qed

lemma fold_events:
  assumes "lg_out r = Sink i sy fd" and "lg_fallbackWriter r = None"
  shows "io (fold (commit_label env r) es w) = io w @ concat (map (section_events i sy (lg_exitFunc r) (lg_hooks r)) es)"
  by (induction es arbitrary: w) (simp_all add: commit_label_events [OF assms])

text \<open>Lines are never torn or mixed: under any interleaving, the calls that a sink sees are the sections of
  the entries in the order of the mutex, each line written once and whole, with its hooks right behind it.\<close>

theorem lines_whole:
  assumes "trace (cstep env) s es s'" and "lock_inv s" and "mutex s = None" and "mutex s' = None"
    and "lg_out (root_lg s) = Sink i sy fd" and "lg_fallbackWriter (root_lg s) = None"
  shows "io (sinks_world s') = io (sinks_world s) @ concat (map (section_events i sy (lg_exitFunc (root_lg s)) (lg_hooks (root_lg s))) es)"
  using settled_trace(1) [OF assms(1,2)] assms(3,4) fold_events [OF assms(5,6)] by (simp add: settled_def)

theorem lines_whole_witness:
  "concat (map (section_events 0 True OsExit []) (labels quiet_sinks [2, 2, 2, 2, 1, 1, 1, 1] two_ready)) =
     [EvWrite 0 ''b'', EvWrite 0 ''a'']"
  using lines_whole [OF schedule_trace [OF two_ready_run] two_ready_inv, of 0 True None]
  by (simp add: two_written_def two_ready_def zero_logger_def empty_world_def)

section \<open>Progress\<close>

text \<open>An upper bound of the steps that a thread has left, for a number of hooks.\<close>

fun todo :: "nat \<Rightarrow> pc \<Rightarrow> nat" where
  "todo k (Called c) = 9 + k"
| "todo k (NotClosed c) = 8 + k"
| "todo k (Enabled c) = 7 + k"
| "todo k (Sampled c) = 6 + k"
| "todo k (Ready e) = 5 + k"
| "todo k (Writing e) = 4 + k"
| "todo k (Hooking e hs) = 3 + length hs"
| "todo k Exiting = 2"
| "todo k Closing = 4"
| "todo k Waiting = 3"
| "todo k Flushing = 2"
| "todo k Leaving = 1"
| "todo k Idle = 0"
| "todo k Panicked = 0"

abbreviation hook_count :: "shared \<Rightarrow> nat" where
  "hook_count s \<equiv> length (lg_hooks (root_lg s))"

lemma advance_hooks: "advance env t s = Some s' \<Longrightarrow> lg_hooks (root_lg s') = lg_hooks (root_lg s)"
  by (drule advance_root) (simp add: same_output_def)

lemma advance_todo:
  assumes "advance env t s = Some s'"
  shows "todo (hook_count s) (pcs s' t) < todo (hook_count s) (pcs s t)"
proof (cases "pcs s t")
  case (Writing e)
  obtain r w where w: "write_line env (root_lg s) (re_line e) (sinks_world s) = (r, w)" by force
  then have "lg_hooks r = lg_hooks (root_lg s)"
    using same_output_write_line [of env "root_lg s" "re_line e" "sinks_world s"] by (simp add: same_output_def)
  then show ?thesis using assms Writing w by (auto simp: advance_def)
next
  case (Hooking e hs)
  then show ?thesis using assms by (cases hs) (auto simp: advance_def)
qed (use assms in \<open>auto simp: advance_def Let_def split: if_splits option.splits prod.splits\<close>)

lemma advance_others:
  assumes "advance env t s = Some s'" and "u \<noteq> t"
  shows "pcs s' u = pcs s u"
proof (cases "pcs s t")
  case (Hooking e hs)
  then show ?thesis using assms by (cases hs) (auto simp: advance_def)
qed (use assms in \<open>auto simp: advance_def Let_def split: if_splits option.splits prod.splits\<close>)

lemma stuck_idle:
  assumes "lock_inv s" and "\<forall>t. advance env t s = None"
  shows "pcs s t = Idle \<or> pcs s t = Panicked"
proof -
  have free: "mutex s = None"
  proof (rule ccontr)
    assume "mutex s \<noteq> None"
    then obtain u where "in_section (pcs s u)" using assms(1) by (auto simp: lock_inv_def)
    moreover have "advance env u s = None" using assms(2) by blast
    ultimately show False
      by (cases "pcs s u") (auto simp: advance_def Let_def split: list.splits prod.splits)
  qed
  have "advance env t s = None" using assms(2) by blast
  then show ?thesis using free
    by (cases "pcs s t") (auto simp: advance_def Let_def split: list.splits prod.splits)
qed

lemma schedule_lock_inv: "schedule env ts s = Some u \<Longrightarrow> lock_inv s \<Longrightarrow> lock_inv u"
  using settled_trace(3) [OF schedule_trace] by blast

lemma schedule_todo:
  assumes "schedule env ts s = Some u" and "finite A" and "\<forall>t. t \<notin> A \<longrightarrow> pcs s t = Idle \<or> pcs s t = Panicked"
  shows "length ts \<le> (\<Sum>t\<in>A. todo (hook_count s) (pcs s t))"
  using assms(1,3)
proof (induction env ts s rule: schedule.induct)
  case (2 env t ts s)
  then obtain s' where s': "advance env t s = Some s'" "schedule env ts s' = Some u"
    by (auto split: option.splits)
  have tA: "t \<in> A" using s'(1) "2.prems"(2) by (auto simp: advance_def Let_def)
  have others: "pcs s' v = pcs s v" if "v \<noteq> t" for v using advance_others [OF s'(1) that] .
  then have "\<forall>v. v \<notin> A \<longrightarrow> pcs s' v = Idle \<or> pcs s' v = Panicked" using "2.prems"(2) tA by metis
  then have IH: "length ts \<le> (\<Sum>v\<in>A. todo (hook_count s) (pcs s' v))"
    using "2.IH" [OF s'] advance_hooks [OF s'(1)] by simp
  have "(\<Sum>v\<in>A - {t}. todo (hook_count s) (pcs s' v)) = (\<Sum>v\<in>A - {t}. todo (hook_count s) (pcs s v))"
    by (intro sum.cong) (simp_all add: others)
  then have "(\<Sum>v\<in>A. todo (hook_count s) (pcs s' v)) < (\<Sum>v\<in>A. todo (hook_count s) (pcs s v))"
    using advance_todo [OF s'(1)] sum.remove [OF assms(2) tA, of "\<lambda>v. todo (hook_count s) (pcs s' v)"]
      sum.remove [OF assms(2) tA, of "\<lambda>v. todo (hook_count s) (pcs s v)"] by simp
  then show ?case using IH by simp
qed simp

text \<open>C19: Calls end and never deadlock: whatever the scheduler does, the calls under way take no more steps than
  a fixed number for each, and when no thread can go on, every call has returned (or panicked in the
  sampler); in particular no thread waits for the mutex for ever.\<close>

theorem calls_finish:
  assumes "schedule env ts s = Some u" and "lock_inv s" and "finite A"
    and "\<forall>t. t \<notin> A \<longrightarrow> pcs s t = Idle \<or> pcs s t = Panicked"
  shows "length ts \<le> (\<Sum>t\<in>A. todo (hook_count s) (pcs s t)) \<and>
    ((\<forall>t. advance env t u = None) \<longrightarrow> (\<forall>t. pcs u t = Idle \<or> pcs u t = Panicked))"
  using schedule_todo [OF assms(1,3,4)] stuck_idle [OF schedule_lock_inv [OF assms(1,2)], of env] by simp

theorem calls_finish_witness:
  "length [2, 2, 2, 2, 1, 1, 1, 1 :: nat] \<le> (\<Sum>t\<in>{1, 2}. todo (hook_count two_ready) (pcs two_ready t))"
  using calls_finish [OF two_ready_run two_ready_inv(1), of "{1, 2}"] by (simp add: two_ready_def)

section \<open>Closing\<close>

fun past_guard :: "pc \<Rightarrow> bool" where
  "past_guard (NotClosed c) \<longleftrightarrow> True"
| "past_guard (Enabled c) \<longleftrightarrow> True"
| "past_guard (Sampled c) \<longleftrightarrow> True"
| "past_guard (Ready e) \<longleftrightarrow> True"
| "past_guard _ \<longleftrightarrow> False"

fun is_commit :: "nat \<Rightarrow> label \<Rightarrow> bool" where
  "is_commit t (Run u (Ready e)) \<longleftrightarrow> u = t"
| "is_commit t _ \<longleftrightarrow> False"

lemma sample_guard_closed: "sample_guard ce r l m = Some (ok, r') \<Longrightarrow> lg_closed r' = lg_closed r"
  by (auto simp: sample_guard_def split: option.splits if_splits)

lemma write_line_closed: "lg_closed (fst (write_line env r line w)) = lg_closed r"
  by (simp add: write_line_def split: prod.split option.split)

lemma advance_closed:
  assumes "advance env t s = Some s'" and "lg_closed (root_lg s)"
  shows "lg_closed (root_lg s') \<and>
    (if is_commit t (Run t (pcs s t)) then 1 else 0) + (if past_guard (pcs s' t) then 1 else 0) \<le>
    (if past_guard (pcs s t) then 1 else (0 :: nat))"
proof (cases "pcs s t")
  case (Enabled c)
  then show ?thesis
    using assms sample_guard_closed by (auto simp: advance_def Let_def split: option.splits prod.splits)
next
  case (Writing e)
  then show ?thesis
    using assms write_line_closed [of env "root_lg s" "re_line e" "sinks_world s"]
    by (auto simp: advance_def Let_def split: prod.splits)
next
  case (Hooking e hs)
  then show ?thesis using assms by (cases hs) (auto simp: advance_def split: if_splits)
qed (use assms in \<open>auto simp: advance_def Let_def split: if_splits option.splits prod.splits\<close>)

lemma cstep_closed:
  assumes "cstep env s l s'" and "lg_closed (root_lg s)"
  shows "lg_closed (root_lg s') \<and>
    (if is_commit t l then 1 else 0) + (if past_guard (pcs s' t) then 1 else 0) \<le>
    (if past_guard (pcs s t) then 1 else (0 :: nat))"
  using assms(1)
proof (cases rule: cstep.cases)
  case (run u)
  show ?thesis
  proof (cases "u = t")
    case True
    then show ?thesis using advance_closed [OF run(2) assms(2)] run(1) by simp
  next
    case False
    then have "\<not> is_commit t l" by (cases "pcs s u") (simp_all add: run(1))
    then show ?thesis using advance_closed [OF run(2) assms(2)] advance_others [OF run(2), of t] False by simp
  qed
qed (use assms(2) in \<open>auto simp: begin_with_def split: if_splits\<close>)

text \<open>C18: Closing seals the family under concurrency too: once the closed flag is set it stays, and afterwards a
  thread takes the mutex to write at most once more, and only if it had passed the check of the flag before; calls that
  begin later do not come to the mutex.\<close>

theorem closed_family_drains:
  assumes "trace (cstep env) s es s'" and "lg_closed (root_lg s)"
  shows "lg_closed (root_lg s') \<and>
    length (filter (is_commit t) es) \<le> (if past_guard (pcs s t) then 1 else 0)"
proof -
  have "lg_closed (root_lg s') \<and>
    length (filter (is_commit t) es) + (if past_guard (pcs s' t) then 1 else 0) \<le>
      (if past_guard (pcs s t) then 1 else 0)"
    using assms(1)
  proof (induction rule: trace.induct)
    case trace_nil
    then show ?case using assms(2) by simp
  next
    case (trace_snoc es u l v)
    then have "lg_closed (root_lg u)" by simp
    from cstep_closed [OF trace_snoc.hyps(2) this, of t] trace_snoc.IH show ?case
      by (cases "is_commit t l") (simp_all split: if_splits)
  qed
  then show ?thesis by simp
qed

definition closed_ready :: shared where
  "closed_ready = two_ready\<lparr>root_lg := (root_lg two_ready)\<lparr>lg_closed := True\<rparr>, pcs := (pcs two_ready)(2 := Idle)\<rparr>"

theorem closed_family_drains_witness:
  "length (filter (is_commit 1) (labels quiet_sinks [1, 1, 1, 1] closed_ready)) = 1"
proof -
  obtain u where run: "schedule quiet_sinks [1, 1, 1, 1] closed_ready = Some u"
    by (simp add: closed_ready_def two_ready_def advance_def goto_def write_line_def zero_logger_def
        sink_write_def quiet_sinks_def level_consts)
  have "length (filter (is_commit 1) (labels quiet_sinks [1, 1, 1, 1] closed_ready)) \<le> 1"
    using closed_family_drains [OF schedule_trace [OF run], of 1]
    by (simp add: closed_ready_def two_ready_def)
  moreover have "is_commit 1 (hd (labels quiet_sinks [1, 1, 1, 1] closed_ready))"
    by (simp add: closed_ready_def two_ready_def)
  ultimately show ?thesis by (simp add: closed_ready_def two_ready_def)
qed

text \<open>
  A logger on an asynchronous writer, with one thread about to log at \<open>INFO\<close> and one about to \<open>Sync\<close>.
\<close>

definition racing_call :: "call_env \<Rightarrow> string \<Rightarrow> fields \<Rightarrow> log_call" where
  "racing_call ce message fs =
     \<lparr>lc_env = ce, lc_level = INFO, lc_message = message, lc_own = [], lc_fields = fs\<rparr>"

definition racing :: "call_env \<Rightarrow> string \<Rightarrow> fields \<Rightarrow> shared" where
  "racing ce message fs =
     \<lparr>root_lg = zero_logger\<lparr>lg_out := AsyncWriter 0 (Sink 0 True None)\<rparr>, sinks_world = empty_world,
      counter = 0, mutex = None,
      pcs = (\<lambda>_. Idle)(1 := Called (racing_call ce message fs), 2 := Closing)\<rparr>"

text \<open>C29: \<open>Sync\<close> can lose an entry without a trace. Thread 1 logs and thread 2 syncs a logger on an asynchronous
  writer. In the first schedule the call passes its guards, then \<open>Sync\<close> runs from the closed flag to the end, and then the call
  takes the mutex, writes its line and returns as usual: the line is in no sink, and neither the write
  errors nor the dropped messages count it. In the second schedule the same two calls run one after
  the other, and the line is in the sink. This is so whatever is logged.\<close>

theorem Sync_race_loses_entry:
  "\<exists>e lost kept.
     fst (prepare (root_lg (racing ce message fs)) (racing_call ce message fs) 0) = Some e \<and>
     schedule quiet_sinks [1, 1, 1, 1, 2, 2, 2, 2, 1, 1, 1, 1] (racing ce message fs) = Some lost \<and>
     labels quiet_sinks [1, 1, 1, 1, 2, 2, 2, 2, 1, 1, 1, 1] (racing ce message fs) =
       map (\<lambda>p. Run 1 (p (racing_call ce message fs))) [Called, NotClosed, Enabled, Sampled] @
       map (Run 2) [Closing, Waiting, Flushing, Leaving] @
       map (Run 1) [Ready e, Writing e, Hooking e [], Leaving] \<and>
     (\<forall>t. pcs lost t = Idle) \<and> io (sinks_world lost) = [EvSync 0] \<and> pending (asyncs (sinks_world lost) 0) = [] \<and>
     lg_writeErrors (root_lg lost) = 0 \<and> DroppedCount (asyncs (sinks_world lost) 0) = 0 \<and>
     schedule quiet_sinks [1, 1, 1, 1, 1, 1, 1, 1, 2, 2, 2, 2] (racing ce message fs) = Some kept \<and>
     (\<forall>t. pcs kept t = Idle) \<and> io (sinks_world kept) = [EvWrite 0 (re_line e), EvSync 0]"
proof -
  let ?r = "zero_logger\<lparr>lg_out := AsyncWriter 0 (Sink 0 True None)\<rparr>"
  let ?c = "racing_call ce message fs"
  let ?w = "set_async 0 (Close_call True (NewAsyncWriter 1)) (empty_world\<lparr>io := [EvSync 0]\<rparr>)"
  obtain e n where e: "prepare ?r ?c 0 = (Some e, n)" "re_level e = INFO"
    by (cases "assemble ce ?r INFO message (mergeFields [] fs) 0") (simp add: prepare_def racing_call_def zero_logger_def)
  define s where "s = goto 1 (Ready e) ((racing ce message fs)\<lparr>counter := n\<rparr>)"
  have ready: "schedule quiet_sinks [1, 1, 1, 1] (racing ce message fs) = Some s"
    "labels quiet_sinks [1, 1, 1, 1] (racing ce message fs) =
       map (\<lambda>p. Run 1 (p ?c)) [Called, NotClosed, Enabled, Sampled]"
    using e(1) by (simp_all add: s_def racing_def racing_call_def advance_def goto_def sample_guard_def zero_logger_def
        int32_level_def level_consts)
  have closed: "writer_Sync quiet_sinks (AsyncWriter 0 (Sink 0 True None)) empty_world = (None, ?w)"
    by (simp add: empty_world_def NewAsyncWriter_def pending_def write_all_def sink_sync_def
        set_async_def quiet_sinks_def Let_def)
  define r' where "r' = ?r\<lparr>lg_closed := True\<rparr>"
  have r': "lg_out r' = AsyncWriter 0 (Sink 0 True None)" "lg_hooks r' = []" "lg_writeErrors r' = 0"
    by (simp_all add: r'_def zero_logger_def)
  have zero_hooks: "lg_hooks zero_logger = []" by (simp add: zero_logger_def)
  have lost: "write_line quiet_sinks r' (re_line e) ?w = (r', ?w)"
    by (simp add: write_line_def r' async_Write_def Close_call_def NewAsyncWriter_def set_async_def fun_upd_idem)
  let ?lost = "\<lparr>root_lg = r', sinks_world = ?w, counter = n, mutex = None, pcs = \<lambda>_. Idle\<rparr>"
  have first: "schedule quiet_sinks [2, 2, 2, 2, 1, 1, 1, 1] s = Some ?lost"
    "labels quiet_sinks [2, 2, 2, 2, 1, 1, 1, 1] s =
       map (Run 2) [Closing, Waiting, Flushing, Leaving] @ map (Run 1) [Ready e, Writing e, Hooking e [], Leaving]"
    using e(2) closed lost
    by (simp_all add: s_def racing_def advance_def goto_def r' fun_eq_iff level_consts r'_def [symmetric])
  let ?v = "set_async 0 ((NewAsyncWriter 1)\<lparr>ch := [re_line e]\<rparr>) empty_world"
  have kept: "write_line quiet_sinks ?r (re_line e) empty_world = (?r, ?v)"
    by (simp add: write_line_def async_Write_def NewAsyncWriter_def empty_world_def)
  obtain w where w: "writer_Sync quiet_sinks (AsyncWriter 0 (Sink 0 True None)) ?v = (None, w)"
      "io w = [EvWrite 0 (re_line e), EvSync 0]"
    by (simp add: empty_world_def NewAsyncWriter_def pending_def write_all_def sink_sync_def sink_write_def
        set_async_def quiet_sinks_def Let_def)
  have "schedule quiet_sinks [1, 1, 1, 1, 2, 2, 2, 2] s =
      Some \<lparr>root_lg = r', sinks_world = w, counter = n, mutex = None, pcs = \<lambda>_. Idle\<rparr>"
    using e(2) kept w(1)
    by (simp add: s_def racing_def advance_def goto_def r' fun_eq_iff level_consts r'_def [symmetric] zero_hooks)
  note second = schedule_append [of quiet_sinks "[1, 1, 1, 1]" "[1, 1, 1, 1, 2, 2, 2, 2]" "racing ce message fs",
      unfolded ready(1) option.case this]
  note all = schedule_append [of quiet_sinks "[1, 1, 1, 1]" "[2, 2, 2, 2, 1, 1, 1, 1]" "racing ce message fs",
      unfolded ready(1) option.case first(1)]
  have "pending (asyncs ?w 0) = []" "DroppedCount (asyncs ?w 0) = 0" "io ?w = [EvSync 0]"
    by (simp_all add: set_async_def empty_world_def NewAsyncWriter_def Close_call_def DroppedCount_def pending_def)
  moreover have "labels quiet_sinks ([1, 1, 1, 1] @ [2, 2, 2, 2, 1, 1, 1, 1]) (racing ce message fs) =
       map (\<lambda>p. Run 1 (p ?c)) [Called, NotClosed, Enabled, Sampled] @
       map (Run 2) [Closing, Waiting, Flushing, Leaving] @ map (Run 1) [Ready e, Writing e, Hooking e [], Leaving]"
    unfolding labels_append [OF ready(1)] ready(2) first(2) by simp
  ultimately show ?thesis
    using e(1) all second w(2) r' by (intro exI [of _ e] exI [of _ ?lost] exI) (auto simp: racing_def)
qed

end
