(* ===== verification/LogDeliver.thy ===== *)
theory LogDeliver
  imports CallCorrect WritersCorrect
begin

text \<open>
  What the logger needs of the writer it has, as an interface: which events on the sinks one write adds,
  when it fails, and which events a flush adds. The effects of a log call follow from it once and for
  all; sinks, the discarding writer and a fan-out of filtered sinks provide it.
\<close>

section \<open>What a call adds to the history\<close>

lemma adds_only_line:
  assumes "\<And>i p. P (EvWrite i p)"
  shows "adds_only P w (snd (write_line env r line w))"
proof -
  obtain n err v where res: "writer_Write env (lg_out r) line w = ((n, err), v)" by (metis surj_pair)
  then have "adds_only P w v" using adds_only_write(1) [of P w env "lg_out r" line] assms by simp
  then show ?thesis
    using res adds_only_trans [OF _ adds_only_write(1)] assms by (simp add: write_line_def split: option.split)
qed

lemma adds_only_hooks:
  assumes "\<And>h l m fs. P (EvHook h l m fs)"
  shows "adds_only P w (run_hooks hs level message fs w)"
proof (induction hs arbitrary: w)
  case (Cons h hs)
  have "adds_only P w (log_event (EvHook h level message fs) w)" by (simp add: adds_only_def log_event_def assms)
  then show ?case using Cons.IH adds_only_trans by simp
qed simp

section \<open>The interface\<close>

locale delivery =
  fixes out :: writer
    and sent :: "sinks \<Rightarrow> string \<Rightarrow> io_event list \<Rightarrow> io_event list"
    and accepted :: "sinks \<Rightarrow> string \<Rightarrow> io_event list \<Rightarrow> bool"
    and flushed :: "io_event list"
  assumes write_io: "io (snd (writer_Write env out p w)) = io w @ sent env p (io w)"
    and write_ok: "snd (fst (writer_Write env out p w)) = None \<longleftrightarrow> accepted env p (io w)"
    and sync_io: "io (snd (writer_Sync env out w)) = io w @ flushed"
begin

lemma line_io:
  assumes "lg_out r = out" and "lg_fallbackWriter r = None"
  shows "io (snd (write_line env r line w)) = io w @ sent env line (io w)"
    and "fst (write_line env r line w) =
      (if accepted env line (io w) then r else r\<lparr>lg_writeErrors := lg_writeErrors r + 1\<rparr>)"
proof -
  obtain n err w' where w: "writer_Write env out line w = ((n, err), w')" by (metis surj_pair)
  then have "io w' = io w @ sent env line (io w)" "err = None \<longleftrightarrow> accepted env line (io w)"
    using write_io [of env line w] write_ok [of env line w] by simp_all
  then show "io (snd (write_line env r line w)) = io w @ sent env line (io w)"
    "fst (write_line env r line w) =
      (if accepted env line (io w) then r else r\<lparr>lg_writeErrors := lg_writeErrors r + 1\<rparr>)"
    using assms w by (auto simp: write_line_def split: option.split)
qed

lemma exit_io:
  "lg_out r = out \<Longrightarrow> io (exit_fatal env r w) = io w @ (if is_Syncer out then flushed else []) @ [EvExit (lg_exitFunc r) 1]"
  using sync_io [of env w] by (simp add: exit_fatal_def log_event_def)

lemma call_io:
  assumes "ra < length (loggers s)" and "lg_out (logger_at s ra) = out"
    and "lg_fallbackWriter (logger_at s ra) = None"
    and "assemble ce (logger_at s ra) level message fs (eventCounter s) = (entry, seen, c)"
    and "run_middleware (lg_middleware (logger_at s ra)) entry = Some e"
  shows "let r = logger_at s ra; line = render ce r e; h = io (the_world s);
      s' = writeEntry env ce ra level message fs s
    in io (the_world s') = h @ sent env line h @ map (\<lambda>k. EvHook k level message seen) (lg_hooks r) @
         (if level = FATAL then (if is_Syncer out then flushed else []) @ [EvExit (lg_exitFunc r) 1] else []) \<and>
       logger_at s' ra = (if accepted env line h then r else r\<lparr>lg_writeErrors := lg_writeErrors r + 1\<rparr>)"
proof -
  let ?r = "logger_at s ra"
  obtain r' w' where wr: "write_line env ?r (render ce ?r e) (the_world s) = (r', w')" by force
  note line = line_io [OF assms(2,3), of env "render ce ?r e" "the_world s", unfolded wr fst_conv snd_conv]
  then have "lg_hooks r' = lg_hooks ?r" "lg_out r' = out" "lg_exitFunc r' = lg_exitFunc ?r" using assms(2) by simp_all
  then show ?thesis
    using assms(1,4,5) line exit_io [of r']
    by (simp add: writeEntry_def wr run_hooks_io Let_def)
qed

end

section \<open>Providers\<close>

interpretation sink: delivery "Sink i sy fd" "\<lambda>env p h. [EvWrite i p]"
  "\<lambda>env p h. snd (on_Write env i (h @ [EvWrite i p])) = None" "[EvSync i]" for i sy fd
  by unfold_locales (simp_all add: sink_write_def sink_sync_def)

interpretation discard: delivery Discard "\<lambda>env p h. []" "\<lambda>env p h. True" "[]"
  by unfold_locales simp_all

text \<open>The events of a write to a fan-out of filtered sinks, which stops at the first sink that fails.\<close>

fun fan_sent :: "string \<Rightarrow> (nat \<times> level) list \<Rightarrow> sinks \<Rightarrow> string \<Rightarrow> io_event list \<Rightarrow> io_event list" where
  "fan_sent key [] env p h = []"
| "fan_sent key ((i, minLevel) # r) env p h =
     (if extractLevel p key < minLevel then fan_sent key r env p h
      else EvWrite i p #
        (if snd (on_Write env i (h @ [EvWrite i p])) = None then fan_sent key r env p (h @ [EvWrite i p]) else []))"

fun fan_accepted :: "string \<Rightarrow> (nat \<times> level) list \<Rightarrow> sinks \<Rightarrow> string \<Rightarrow> io_event list \<Rightarrow> bool" where
  "fan_accepted key [] env p h \<longleftrightarrow> True"
| "fan_accepted key ((i, minLevel) # r) env p h \<longleftrightarrow>
     (if extractLevel p key < minLevel then fan_accepted key r env p h
      else snd (on_Write env i (h @ [EvWrite i p])) = None \<and> fan_accepted key r env p (h @ [EvWrite i p]))"

abbreviation routes :: "string \<Rightarrow> bool \<Rightarrow> nat option \<Rightarrow> (nat \<times> level) list \<Rightarrow> writer list" where
  "routes key sy fd xs \<equiv> map (\<lambda>(i, minLevel). NewFilteredWriter (Sink i sy fd) minLevel [WithLevelKey key]) xs"

lemma fan_write:
  "io (snd (fanout_loop env (routes key sy fd xs) p w)) = io w @ fan_sent key xs env p (io w) \<and>
   (snd (fst (fanout_loop env (routes key sy fd xs) p w)) = None \<longleftrightarrow> fan_accepted key xs env p (io w))"
proof (induction xs arbitrary: w)
  case (Cons x xs)
  obtain i l where x: "x = (i, l)" by force
  obtain n err where res: "on_Write env i (io w @ [EvWrite i p]) = (n, err)" by force
  show ?case
    using Cons.IH [of w] Cons.IH [of "w\<lparr>io := io w @ [EvWrite i p]\<rparr>"] res
    by (cases err) (simp_all add: x NewFilteredWriter_def sink_write_def)
qed simp

lemma fan_sync:
  "io (snd (sync_loop env (routes key sy fd xs) errs w)) = io w @ (if sy then map (\<lambda>(i, l). EvSync i) xs else [])"
proof (induction xs arbitrary: w errs)
  case (Cons x xs)
  then show ?case by (cases x; cases sy) (simp_all add: NewFilteredWriter_def sink_sync_def)
qed simp

interpretation router: delivery "NewFanOutWriter (routes key sy fd xs)" "fan_sent key xs" "fan_accepted key xs"
  "if sy then map (\<lambda>(i, l). EvSync i) xs else []" for key sy fd xs
  by unfold_locales (use fan_write fan_sync in \<open>simp_all add: NewFanOutWriter_def\<close>)

lemma fan_sent_all:
  assumes "\<forall>i h. snd (on_Write env i h) = None" and "extractLevel p key = l"
  shows "fan_sent key xs env p h = routed l p xs" and "fan_accepted key xs env p h"
  using assms by (induction xs arbitrary: h) (auto simp: routed_def not_less)

section \<open>A log call through routes by level\<close>

lemma reserved_plain: "k \<in> set reservedKeys \<Longrightarrow> plain_name k \<and> plain_name (''fields.'' @ k)"
proof -
  have "list_all (\<lambda>k. plain_name k \<and> plain_name (''fields.'' @ k)) reservedKeys" by code_simp
  then show "k \<in> set reservedKeys \<Longrightarrow> plain_name k \<and> plain_name (''fields.'' @ k)" by (simp add: list_all_iff)
qed

lemma plain_put:
  "plain_fields key m \<Longrightarrow> plain_name k \<Longrightarrow> flat_value v \<Longrightarrow> plain_fields key (put k v m)"
  using set_put [of k v m] by (fastforce simp: plain_fields_def list_all_iff)

lemma plain_put_core: "plain_fields key m \<Longrightarrow> k \<in> set reservedKeys \<Longrightarrow> plain_fields key (put k (VString x) m)"
  using reserved_plain [of k] by (simp add: plain_put)

lemma plain_start: "plain_fields key (start_entry ce r level message counter)"
proof -
  have reserved: "''time'' \<in> set reservedKeys" "''level'' \<in> set reservedKeys" "''message'' \<in> set reservedKeys"
    "''file'' \<in> set reservedKeys" "''service'' \<in> set reservedKeys" "''version'' \<in> set reservedKeys"
    "''env'' \<in> set reservedKeys" "''host'' \<in> set reservedKeys" "''event_id'' \<in> set reservedKeys"
    by (simp_all add: reservedKeys_def)
  have "plain_fields key []" by (simp add: plain_fields_def)
  then have "plain_fields key (core_entry ce r level message)"
    unfolding core_entry_def Let_def by (cases "lg_identity r"; cases "lg_caller r")
      (simp_all only: option.case if_True if_False plain_put_core reserved)
  then show ?thesis by (simp only: start_entry_def plain_put_core reserved if_split) simp
qed

lemma plain_add_fields:
  "\<forall>(k, v) \<in> set fs. plain_name k \<and> flat_value v \<Longrightarrow> plain_fields key entry \<Longrightarrow>
     plain_fields key (add_fields fs entry)"
proof (induction fs entry rule: add_fields.induct)
  case (2 k v r entry)
  then have "plain_name k" "flat_value v" "\<forall>(k, v) \<in> set r. plain_name k \<and> flat_value v" by simp_all
  then have "plain_fields key (if k \<in> set reservedKeys then put (''fields.'' @ k) v entry else put k v entry)"
    using reserved_plain [of k] "2.prems"(2) by (simp add: plain_put)
  then show ?case using "2.IH" "2.prems"(1) by simp
qed simp

lemma plain_assemble:
  assumes "assemble ce r level message fs counter = (entry, seen, c)"
    and "\<forall>(k, v) \<in> set (final_fields fs). plain_name k \<and> flat_value v"
  shows "plain_fields key entry"
proof -
  have "plain_fields key (add_fields (final_fields fs) (start_entry ce r level message counter))"
    by (rule plain_add_fields [OF assms(2) plain_start])
  moreover have "''stacktrace'' \<in> set reservedKeys" by (simp add: reservedKeys_def)
  ultimately show ?thesis
    unfolding assembleD(1) [OF assms(1)] finish_entry_def by (simp only: plain_put_core if_split) simp
qed


text \<open>Everything to sink 0, errors to sink 1, with one hook.\<close>

definition routed_system :: system where
  "routed_system = empty_system\<lparr>loggers :=
     [zero_logger\<lparr>lg_out := NewFanOutWriter (routes ''level'' True None [(0, TRACE), (1, ERROR)]), lg_hooks := [9]\<rparr>]\<rparr>"


end
