(* ===== verification/LogAlias.thy ===== *)
theory LogAlias
  imports LogRedact LogEnrich
begin

text \<open>
  Maps that several parts of a program share. A Go map is a reference: \<open>mergeFields\<close> may give back the
  caller's own map, an entry holds the same nested maps as the fields that were passed, and
  \<open>redactMap\<close> changes maps in place. Here maps live in a store by address, so that what another holder of
  a map sees can be stated; \<open>LogRedact\<close> and \<open>LogEnrich\<close> have the same functions on values.
\<close>

section \<open>The store\<close>

text \<open>A value in a map is a reference to a map, or a value without shared maps in it.\<close>

datatype hval = HMap nat | HVal gval

type_synonym store = "nat \<Rightarrow> hval gomap"

definition store_ok :: "store \<Rightarrow> bool" where
  "store_ok h \<longleftrightarrow> (\<forall>a. gomap_ok (h a))"

text \<open>The value of a map, down to a depth of nesting, and a rank that bounds the depth.\<close>

fun view :: "nat \<Rightarrow> store \<Rightarrow> nat \<Rightarrow> fields" where
  "view 0 h a = []"
| "view (Suc n) h a =
     map (\<lambda>(k, v). (k, case v of HMap b \<Rightarrow> VMap (view n h b) | HVal x \<Rightarrow> x)) (h a)"

definition ranked :: "(nat \<Rightarrow> nat) \<Rightarrow> store \<Rightarrow> bool" where
  "ranked rk h \<longleftrightarrow> (\<forall>a k b. map_of (h a) k = Some (HMap b) \<longrightarrow> rk b < rk a)"

section \<open>Redaction in place\<close>

text \<open>
  \<open>redactMap\<close> on the store; the loop runs over the keys and reads the map as it is then. The number is the
  depth of calls that the stack allows, \<open>None\<close> is the overflow.
\<close>

function redact_at :: "nat \<Rightarrow> string list \<Rightarrow> string \<Rightarrow> nat \<Rightarrow> store \<Rightarrow> store option"
  and redact_keys :: "nat \<Rightarrow> string list \<Rightarrow> string \<Rightarrow> nat \<Rightarrow> string list \<Rightarrow> store \<Rightarrow> store option" where
  "redact_at 0 fs repl a h = None"
| "redact_at (Suc n) fs repl a h = redact_keys n fs repl a (keys (h a)) h"
| "redact_keys n fs repl a [] h = Some h"
| "redact_keys n fs repl a (k # ks) h =
     (if k \<in> set fs then redact_keys n fs repl a ks (h(a := put k (HVal (VString repl)) (h a)))
      else case map_of (h a) k of
             Some (HMap b) \<Rightarrow>
               (case redact_at n fs repl b h of
                  None \<Rightarrow> None
                | Some h \<Rightarrow> redact_keys n fs repl a ks h)
           | Some (HVal v) \<Rightarrow>
               redact_keys n fs repl a ks (h(a := put k (HVal (redact_value fs repl v)) (h a)))
           | None \<Rightarrow> redact_keys n fs repl a ks h)"
  by pat_completeness auto
termination
  by (relation "measures [\<lambda>x. case x of Inl (n, _) \<Rightarrow> n | Inr (n, _) \<Rightarrow> n,
      \<lambda>x. case x of Inl _ \<Rightarrow> 0 | Inr (_, _, _, _, ks, _) \<Rightarrow> Suc (length ks)]") auto

text \<open>What becomes of one field.\<close>

definition redact_field :: "string list \<Rightarrow> string \<Rightarrow> string \<Rightarrow> hval \<Rightarrow> hval" where
  "redact_field fs repl k v =
     (if k \<in> set fs then HVal (VString repl)
      else case v of HMap b \<Rightarrow> HMap b | HVal x \<Rightarrow> HVal (redact_value fs repl x))"

lemma redactMap_again: "redactMap fs r (redactMap fs r m) = redactMap fs r m"
proof (induction m rule: exposed.induct)
  case (2 k v m)
  then show ?case by (cases v) auto
qed simp

lemma redact_field_simps [simp]:
  "redact_field fs repl k (redact_field fs repl k v) = redact_field fs repl k v"
  "k \<notin> set fs \<Longrightarrow> redact_field fs repl k (HMap b) = HMap b"
  "redact_field fs repl k v = HMap b \<longleftrightarrow> k \<notin> set fs \<and> v = HMap b"
  "k \<in> set fs \<Longrightarrow> redact_field fs repl k v = HVal (VString repl)"
  "k \<notin> set fs \<Longrightarrow> redact_field fs repl k (HVal x) = HVal (redact_value fs repl x)"
  by (auto simp: redact_field_def redact_value_def redactMap_again split: hval.split gval.split)

text \<open>Some fields of some maps redacted, and all fields of one map.\<close>

definition partly :: "string list \<Rightarrow> string \<Rightarrow> store \<Rightarrow> store \<Rightarrow> bool" where
  "partly fs repl h h' \<longleftrightarrow>
     (\<forall>c. keys (h' c) = keys (h c) \<and>
        (\<forall>k. map_of (h' c) k = map_of (h c) k \<or>
             map_of (h' c) k = map_option (redact_field fs repl k) (map_of (h c) k)))"

definition redacted_at :: "string list \<Rightarrow> string \<Rightarrow> store \<Rightarrow> nat \<Rightarrow> string \<Rightarrow> bool" where
  "redacted_at fs repl h c k \<longleftrightarrow> map_option (redact_field fs repl k) (map_of (h c) k) = map_of (h c) k"

lemma partly_refl [simp]: "partly fs repl h h"
  by (simp add: partly_def)

lemma partly_keys: "partly fs repl h h' \<Longrightarrow> keys (h' c) = keys (h c)"
  by (simp add: partly_def)

lemma partly_lookup:
  "partly fs repl h h' \<Longrightarrow> map_of (h' c) k = map_of (h c) k \<or>
     map_of (h' c) k = map_option (redact_field fs repl k) (map_of (h c) k)"
  by (simp add: partly_def)

lemma partly_trans:
  assumes "partly fs repl h h'" and "partly fs repl h' h''"
  shows "partly fs repl h h''"
proof -
  have "map_of (h'' c) k = map_of (h c) k \<or>
      map_of (h'' c) k = map_option (redact_field fs repl k) (map_of (h c) k)" for c k
    using partly_lookup [OF assms(1), of c k] partly_lookup [OF assms(2), of c k]
    by (auto simp: option.map_comp comp_def)
  then show ?thesis using assms by (simp add: partly_def)
qed

lemma partly_put:
  assumes "map_of (h a) k = Some v"
  shows "partly fs repl h (h(a := put k (redact_field fs repl k v) (h a)))"
proof -
  have "k \<in> set (keys (h a))" using map_of_SomeD [OF assms] by force
  then show ?thesis using assms by (simp add: partly_def update_keys)
qed

lemma redacted_partly: "partly fs repl h h' \<Longrightarrow> redacted_at fs repl h c k \<Longrightarrow> redacted_at fs repl h' c k"
  using partly_lookup [of fs repl h h' c k] by (auto simp: redacted_at_def option.map_comp comp_def)

lemma redacted_put:
  "map_of (h a) k = Some v \<Longrightarrow> redacted_at fs repl (h(a := put k (redact_field fs repl k v) (h a))) a k"
  by (simp add: redacted_at_def)

lemma redacted_lookup:
  assumes "partly fs repl h h'" and "redacted_at fs repl h' c k"
  shows "map_of (h' c) k = map_option (redact_field fs repl k) (map_of (h c) k)"
  using partly_lookup [OF assms(1), of c k] assms(2) by (auto simp: redacted_at_def)

lemma partly_HMap:
  assumes "partly fs repl h h'" and "k \<notin> set fs"
  shows "map_of (h' c) k = Some (HMap b) \<longleftrightarrow> map_of (h c) k = Some (HMap b)"
proof (cases "map_of (h c) k")
  case None
  then show ?thesis using partly_lookup [OF assms(1), of c k] by simp
next
  case (Some v)
  then show ?thesis using partly_lookup [OF assms(1), of c k] assms(2) by (cases v) auto
qed

text \<open>The maps that the redaction of one map comes to: through fields that it does not replace.\<close>

inductive reached :: "string list \<Rightarrow> store \<Rightarrow> nat \<Rightarrow> nat \<Rightarrow> bool" for fs :: "string list" and h :: store where
  here: "reached fs h a a"
| nested: "map_of (h a) k = Some (HMap b) \<Longrightarrow> k \<notin> set fs \<Longrightarrow> reached fs h b c \<Longrightarrow> reached fs h a c"

lemma reached_partly:
  assumes "partly fs repl h h'"
  shows "reached fs h' a c \<longleftrightarrow> reached fs h a c"
proof
  show "reached fs h' a c \<Longrightarrow> reached fs h a c"
    by (induction rule: reached.induct) (use partly_HMap [OF assms] reached.intros in blast)+
  show "reached fs h a c \<Longrightarrow> reached fs h' a c"
    by (induction rule: reached.induct) (use partly_HMap [OF assms] reached.intros in blast)+
qed

text \<open>What a loop over some keys of a map leaves behind.\<close>

definition loop_done :: "string list \<Rightarrow> string \<Rightarrow> nat \<Rightarrow> string list \<Rightarrow> store \<Rightarrow> store \<Rightarrow> bool" where
  "loop_done fs repl a ks h h' \<longleftrightarrow>
     partly fs repl h h' \<and> (\<forall>c. \<not> reached fs h a c \<longrightarrow> h' c = h c) \<and>
     (\<forall>k \<in> set ks. redacted_at fs repl h' a k \<and>
        (\<forall>b c k'. map_of (h a) k = Some (HMap b) \<longrightarrow> k \<notin> set fs \<longrightarrow> reached fs h b c \<longrightarrow>
           redacted_at fs repl h' c k'))"

definition map_done :: "string list \<Rightarrow> string \<Rightarrow> nat \<Rightarrow> store \<Rightarrow> store \<Rightarrow> bool" where
  "map_done fs repl a h h' \<longleftrightarrow>
     partly fs repl h h' \<and>
     (\<forall>c. \<not> reached fs h a c \<longrightarrow> h' c = h c) \<and>
     (\<forall>c k. reached fs h a c \<longrightarrow> redacted_at fs repl h' c k)"

lemma loop_done_Cons:
  assumes "partly fs repl h h1" and "redacted_at fs repl h1 a k"
    and "\<And>b c k'. map_of (h a) k = Some (HMap b) \<Longrightarrow> k \<notin> set fs \<Longrightarrow> reached fs h b c \<Longrightarrow>
      redacted_at fs repl h1 c k'"
    and "\<And>c. \<not> reached fs h a c \<Longrightarrow> h1 c = h c" and "loop_done fs repl a ks h1 h'"
  shows "loop_done fs repl a (k # ks) h h'"
proof -
  have p: "partly fs repl h1 h'" using assms(5) by (simp add: loop_done_def)
  have "redacted_at fs repl h' c k'"
    if "k2 \<in> set ks" "map_of (h a) k2 = Some (HMap b)" "k2 \<notin> set fs" "reached fs h b c" for k2 b c k'
    using that assms(5) partly_HMap [OF assms(1), of k2 a b] reached_partly [OF assms(1), of b c]
    by (auto simp: loop_done_def)
  moreover have "h' c = h c" if "\<not> reached fs h a c" for c
    using that assms(4) [OF that] assms(5) reached_partly [OF assms(1), of a c] by (simp add: loop_done_def)
  ultimately show ?thesis
    using assms redacted_partly [OF p] partly_trans [OF assms(1) p] by (auto simp: loop_done_def)
qed

lemma map_done_keys:
  assumes "loop_done fs repl a (keys (h a)) h h'"
  shows "map_done fs repl a h h'"
proof -
  have p: "partly fs repl h h'" using assms by (simp add: loop_done_def)
  have "redacted_at fs repl h' c k" if "reached fs h a c" for c k
    using that
  proof (cases rule: reached.cases)
    case here
    show ?thesis
    proof (cases "k \<in> set (keys (h a))")
      case True
      then show ?thesis using assms here by (auto simp: loop_done_def)
    next
      case False
      then have "map_of (h' a) k = None" using partly_keys [OF p, of a] by (metis map_of_eq_None_iff list.set_map)
      then show ?thesis using here by (simp add: redacted_at_def)
    qed
  next
    case (nested k2 b)
    then have "k2 \<in> set (keys (h a))" using map_of_SomeD by force
    then show ?thesis using assms nested by (auto simp: loop_done_def)
  qed
  then show ?thesis using assms p by (auto simp: map_done_def loop_done_def)
qed

lemma redact_done:
  "redact_at n fs repl a h = Some h' \<Longrightarrow> map_done fs repl a h h'"
  "redact_keys n fs repl a ks h = Some h' \<Longrightarrow> set ks \<subseteq> set (keys (h a)) \<Longrightarrow> loop_done fs repl a ks h h'"
proof (induction n fs repl a h and n fs repl a ks h arbitrary: h' and h' rule: redact_at_redact_keys.induct)
  case (1 fs repl a h)
  then show ?case by simp
next
  case (2 n fs repl a h)
  then show ?case using map_done_keys by simp
next
  case (3 n fs repl a h)
  then show ?case by (simp add: loop_done_def)
next
  case (4 n fs repl a k ks h)
  have "k \<in> set (keys (h a))" using "4.prems"(2) by simp
  then obtain v where v: "map_of (h a) k = Some v" by (metis list.set_map map_of_eq_None_iff not_None_eq)
  consider (nested) b where "v = HMap b" "k \<notin> set fs" | (leaf) "k \<in> set fs \<or> (\<exists>x. v = HVal x)"
    by (cases v) auto
  then show ?case
  proof cases
    case nested
    then obtain h1 where h1: "redact_at n fs repl b h = Some h1" "redact_keys n fs repl a ks h1 = Some h'"
      using "4.prems"(1) v by (auto split: option.splits)
    have done1: "map_done fs repl b h h1" using "4.IH"(3) [OF nested(2) v nested(1)] h1(1) by simp
    then have p: "partly fs repl h h1" by (simp add: map_done_def)
    have "loop_done fs repl a ks h1 h'"
      using "4.IH"(4) [OF nested(2) v nested(1) h1(1) h1(2)] "4.prems"(2) partly_keys [OF p, of a] by simp
    moreover have "redacted_at fs repl h1 a k"
      using v nested partly_HMap [OF p nested(2), of a b] by (simp add: redacted_at_def)
    moreover have "h1 c = h c" if "\<not> reached fs h a c" for c
      using that done1 reached.nested [OF _ nested(2), of h a b c] v nested(1) by (auto simp: map_done_def)
    ultimately show ?thesis using done1 v nested(1) by (intro loop_done_Cons [OF p]) (auto simp: map_done_def)
  next
    case leaf
    let ?h = "h(a := put k (redact_field fs repl k v) (h a))"
    have p: "partly fs repl h ?h" by (rule partly_put [of h a k v, OF v])
    have rest: "redact_keys n fs repl a ks ?h = Some h'" using "4.prems"(1) v leaf by (auto simp: redact_field_def split: if_splits)
    have sub: "set ks \<subseteq> set (keys (?h a))" using "4.prems"(2) partly_keys [OF p, of a] by simp
    have "loop_done fs repl a ks ?h h'"
    proof (cases "k \<in> set fs")
      case True
      then show ?thesis using "4.IH"(1) [OF True, of h'] rest sub by (simp only: redact_field_simps(4))
    next
      case False
      then obtain x where x: "v = HVal x" using leaf by blast
      show ?thesis
        using "4.IH"(5) [OF False v x, of h'] rest sub by (simp only: redact_field_simps(5) [OF False] x)
    qed
    moreover have "?h c = h c" if "\<not> reached fs h a c" for c
      using that reached.here [of fs h a] by auto
    ultimately show ?thesis
      using v leaf by (intro loop_done_Cons [OF p redacted_put [of h a k v, OF v]]) auto
  qed
qed

section \<open>Depth\<close>

lemma ranked_partly:
  assumes "partly fs repl h h'" and "ranked rk h"
  shows "ranked rk h'"
proof -
  have "map_of (h a) k = Some (HMap b)" if "map_of (h' a) k = Some (HMap b)" for a k b
  proof (cases "map_of (h a) k")
    case None
    then show ?thesis using that partly_lookup [OF assms(1), of a k] by simp
  next
    case (Some v)
    then show ?thesis using that partly_lookup [OF assms(1), of a k]
      by (metis option.inject option.map(2) redact_field_simps(3))
  qed
  then show ?thesis using assms(2) unfolding ranked_def by metis
qed

lemma redact_returns:
  "ranked rk h \<Longrightarrow> rk a < n \<Longrightarrow> \<exists>h'. redact_at n fs repl a h = Some h'"
  "ranked rk h \<Longrightarrow> rk a \<le> n \<Longrightarrow> set ks \<subseteq> set (keys (h a)) \<Longrightarrow> \<exists>h'. redact_keys n fs repl a ks h = Some h'"
proof (induction n fs repl a h and n fs repl a ks h rule: redact_at_redact_keys.induct)
  case (4 n fs repl a k ks h)
  have "k \<in> set (keys (h a))" using "4.prems"(3) by simp
  then obtain v where v: "map_of (h a) k = Some v" by (metis list.set_map map_of_eq_None_iff not_None_eq)
  let ?h = "h(a := put k (redact_field fs repl k v) (h a))"
  have p: "partly fs repl h ?h" by (rule partly_put [of h a k v, OF v])
  note leaf = ranked_partly [OF p "4.prems"(1)] "4.prems"(2)
  have sub: "set ks \<subseteq> set (keys (?h a))" using "4.prems"(3) partly_keys [OF p, of a] by simp
  show ?case
  proof (cases "k \<in> set fs")
    case True
    have "\<exists>h'. redact_keys n fs repl a ks ?h = Some h'"
      using "4.IH"(1) [OF True] leaf sub unfolding redact_field_simps(4) [OF True] by blast
    then show ?thesis using True by simp
  next
    case False
    show ?thesis
    proof (cases v)
      case (HMap b)
      have "rk b < n" using "4.prems"(1,2) v HMap by (auto simp: ranked_def intro: less_le_trans)
      then obtain h1 where h1: "redact_at n fs repl b h = Some h1"
        using "4.IH"(3) [OF False v HMap] "4.prems"(1) by blast
      have p1: "partly fs repl h h1" using redact_done(1) [OF h1] by (simp add: map_done_def)
      then show ?thesis
        using "4.IH"(4) [OF False v HMap h1 ranked_partly [OF p1 "4.prems"(1)] "4.prems"(2)] "4.prems"(3)
          partly_keys [OF p1, of a] h1 False v HMap by simp
    next
      case (HVal x)
      have "\<exists>h'. redact_keys n fs repl a ks ?h = Some h'"
        using "4.IH"(5) [OF False v HVal] leaf sub unfolding HVal redact_field_simps(5) [OF False] by blast
      then show ?thesis using False v HVal by simp
    qed
  qed
qed simp_all

lemma map_of_pointwise:
  assumes "keys m' = keys m" and "gomap_ok m" and "\<And>k. k \<in> set (keys m) \<Longrightarrow> map_of m' k = map_option (f k) (map_of m k)"
  shows "m' = map (\<lambda>(k, v). (k, f k v)) m"
  using assms
proof (induction m arbitrary: m')
  case (Cons p m)
  obtain k v where p: "p = (k, v)" by force
  obtain v' r where m': "m' = (k, v') # r" "keys r = keys m" using Cons.prems(1) p by (cases m') auto
  have "v' = f k v" using Cons.prems(3) [of k] m'(1) p by simp
  moreover have "r = map (\<lambda>(k, v). (k, f k v)) m"
  proof (rule Cons.IH)
    show "map_of r j = map_option (f j) (map_of m j)" if "j \<in> set (keys m)" for j
    proof -
      have "j \<noteq> k" using that Cons.prems(2) p by auto
      then show ?thesis using Cons.prems(3) [of j] that m'(1) p by simp
    qed
  qed (use m'(2) Cons.prems(2) p in simp_all)
  ultimately show ?case using m'(1) p by simp
qed simp

lemma view_redacted:
  assumes "partly fs repl h h'" and "store_ok h" and "ranked rk h" and "rk c < n"
    and "\<And>d k. reached fs h c d \<Longrightarrow> redacted_at fs repl h' d k"
  shows "view n h' c = redactMap fs repl (view n h c)"
  using assms(4,5)
proof (induction n arbitrary: c)
  case (Suc n)
  have ok: "gomap_ok (h c)" using assms(2) by (simp add: store_ok_def)
  have "h' c = map (\<lambda>(k, v). (k, redact_field fs repl k v)) (h c)"
    using redacted_lookup [OF assms(1) Suc.prems(2) [OF reached.here]]
    by (intro map_of_pointwise partly_keys [OF assms(1)] ok)
  moreover have "(case redact_field fs repl k v of HMap b \<Rightarrow> VMap (view n h' b) | HVal x \<Rightarrow> x) =
      (if k \<in> set fs then VString repl
       else redact_value fs repl (case v of HMap b \<Rightarrow> VMap (view n h b) | HVal x \<Rightarrow> x))"
    if kv: "(k, v) \<in> set (h c)" for k v
  proof (cases "k \<in> set fs")
    case False
    show ?thesis
    proof (cases v)
      case (HMap b)
      have at: "map_of (h c) k = Some (HMap b)" using kv ok HMap by (simp add: gomap_ok_def map_of_eq_Some_iff)
      then have "rk b < rk c" using assms(3) by (simp add: ranked_def)
      then have "rk b < n" using Suc.prems(1) by simp
      then have "view n h' b = redactMap fs repl (view n h b)"
        using Suc.IH [of b] Suc.prems(2) reached.nested [of h c k b, OF at False] by blast
      then show ?thesis using HMap False by (simp add: redact_value_def)
    qed (use False in simp)
  qed simp
  ultimately show ?case by (auto simp: redactMap_map)
qed simp

section \<open>What redaction does to shared maps\<close>

text \<open>C16: In place and on values, redaction is the same function: for maps that are nested to a finite depth,
  shared or not, \<open>redactMap\<close> on the store returns, and the map then has the value that the redaction of
  its value has.\<close>

theorem redaction_in_place:
  assumes "store_ok h" and "ranked rk h" and "rk a < n"
  shows "\<exists>h'. redact_at n fs repl a h = Some h' \<and> view n h' a = redactMap fs repl (view n h a)"
proof -
  obtain h' where h': "redact_at n fs repl a h = Some h'" using redact_returns(1) [OF assms(2,3)] by blast
  then have "partly fs repl h h'" "\<And>d k. reached fs h a d \<Longrightarrow> redacted_at fs repl h' d k"
    using redact_done(1) by (auto simp: map_done_def)
  then show ?thesis using view_redacted [OF _ assms] h' by blast
qed

text \<open>The caller's fields at 2 hold a nested map at 1; the entry, at 3, holds the same nested map.\<close>

definition shared_fields :: store where
  "shared_fields = (\<lambda>_. [])
     (1 := [(''pin'', HVal (VInt 7))], 2 := [(''user'', HMap 1)],
      3 := [(''level'', HVal (VString ''INFO'')), (''user'', HMap 1)])"

lemma shared_fields_ok: "store_ok shared_fields" "ranked (\<lambda>a. if a = 1 then 0 else 1) shared_fields"
  by (auto simp: store_ok_def ranked_def shared_fields_def split: if_splits)

theorem redaction_in_place_witness:
  "\<exists>h'. redact_at 2 [''pin''] ''***'' 3 shared_fields = Some h' \<and>
     view 2 h' 3 = [(''level'', VString ''INFO''), (''user'', VMap [(''pin'', VString ''***'')])]"
  using redaction_in_place [OF shared_fields_ok, of 3 2 "[''pin'']" "''***''"]
  by (simp add: shared_fields_def eval_nat_numeral)

text \<open>C17: Redaction reaches the caller's own data: for maps that are nested to a finite depth, with a stack deeper
  than that, \<open>redactMap\<close> returns, and every map in the store that the entry reaches through fields that are not replaced has its named fields overwritten, for
  all who hold it, its other values redacted and its keys kept, while the maps that it does not reach are as before. A
  program that logs a nested map under redaction loses the secret in its map. (For a map that contains itself the
  recursion does not end, which is a separate result.)\<close>

theorem redaction_reaches_callers:
  assumes "ranked rk h" and "rk a < n"
  shows "\<exists>h'. redact_at n fs repl a h = Some h' \<and>
    (\<forall>c. if reached fs h a c
      then keys (h' c) = keys (h c) \<and>
        (\<forall>k. map_of (h' c) k = map_option (redact_field fs repl k) (map_of (h c) k))
      else h' c = h c)"
proof -
  obtain h' where h': "redact_at n fs repl a h = Some h'" using redact_returns(1) [OF assms] by blast
  have "map_done fs repl a h h'" by (rule redact_done(1) [OF h'])
  then show ?thesis using h' redacted_lookup partly_keys by (auto simp: map_done_def)
qed

theorem redaction_reaches_callers_witness:
  "\<exists>h'. redact_at 2 [''pin''] ''***'' 3 shared_fields = Some h' \<and>
     map_of (shared_fields 1) ''pin'' = Some (HVal (VInt 7)) \<and>
     map_of (h' 1) ''pin'' = Some (HVal (VString ''***'')) \<and> h' 2 = shared_fields 2"
proof -
  have r: "reached [''pin''] shared_fields 3 1"
    by (rule reached.nested [of _ _ "''user''" 1]) (simp_all add: shared_fields_def reached.here)
  have "a \<in> {1, 3} \<Longrightarrow> c \<in> {1, 3}" if "reached [''pin''] shared_fields a c" for a c
    using that by (induction rule: reached.induct) (auto simp: shared_fields_def split: if_splits)
  then have no: "\<not> reached [''pin''] shared_fields 3 2" by force
  obtain h' where h': "redact_at 2 [''pin''] ''***'' 3 shared_fields = Some h'"
    "\<forall>c. if reached [''pin''] shared_fields 3 c
      then keys (h' c) = keys (shared_fields c) \<and>
        (\<forall>k. map_of (h' c) k = map_option (redact_field [''pin''] ''***'' k) (map_of (shared_fields c) k))
      else h' c = shared_fields c"
    using redaction_reaches_callers [OF shared_fields_ok(2), of 3 2 "[''pin'']" "''***''"] by auto
  then have "h' 2 = shared_fields 2" using no by metis
  moreover have at: "map_of (shared_fields 1) ''pin'' = Some (HVal (VInt 7))" by (simp add: shared_fields_def)
  moreover have "map_of (h' 1) ''pin'' = map_option (redact_field [''pin''] ''***'' ''pin'') (map_of (shared_fields 1) ''pin'')"
    using h'(2) r by metis
  ultimately show ?thesis using h'(1) by (simp add: at)
qed

section \<open>Cyclic maps\<close>

lemma keys_visit:
  "redact_keys n fs repl a ks h = Some h' \<Longrightarrow> set ks \<subseteq> set (keys (h a)) \<Longrightarrow> k \<in> set ks \<Longrightarrow> k \<notin> set fs \<Longrightarrow>
     map_of (h a) k = Some (HMap b) \<Longrightarrow> \<exists>h1 h2. partly fs repl h h1 \<and> redact_at n fs repl b h1 = Some h2"
proof (induction ks arbitrary: h)
  case (Cons j ks)
  have "j \<in> set (keys (h a))" using Cons.prems(2) by simp
  then obtain v where v: "map_of (h a) j = Some v" by (metis list.set_map map_of_eq_None_iff not_None_eq)
  show ?case
  proof (cases "j = k")
    case True
    then obtain h2 where "redact_at n fs repl b h = Some h2"
      using Cons.prems(1,4,5) by (auto split: option.splits)
    then show ?thesis using partly_refl by blast
  next
    case False
    then have k: "k \<in> set ks" using Cons.prems(3) by simp
    obtain h1 where h1: "partly fs repl h h1" "redact_keys n fs repl a ks h1 = Some h'"
    proof (cases "j \<in> set fs")
      case True
      then show ?thesis
        using that [OF partly_put [of h a j v, OF v]] Cons.prems(1) by simp
    next
      case False
      show ?thesis
      proof (cases v)
        case (HMap c)
        then obtain h1 where "redact_at n fs repl c h = Some h1" "redact_keys n fs repl a ks h1 = Some h'"
          using Cons.prems(1) False v by (auto split: option.splits)
        moreover have "partly fs repl h h1"
          using redact_done(1) [OF calculation(1)] by (simp add: map_done_def)
        ultimately show ?thesis using that by blast
      next
        case (HVal x)
        then show ?thesis
          using that [OF partly_put [of h a j v, OF v]] Cons.prems(1) False v by simp
      qed
    qed
    have "set ks \<subseteq> set (keys (h1 a))" using Cons.prems(2) partly_keys [OF h1(1), of a] by simp
    moreover have "map_of (h1 a) k = Some (HMap b)"
      using partly_HMap [OF h1(1) Cons.prems(4)] Cons.prems(5) by blast
    ultimately obtain g1 g2 where "partly fs repl h1 g1" "redact_at n fs repl b g1 = Some g2"
      using Cons.IH [OF h1(2) _ k Cons.prems(4)] by blast
    then show ?thesis using partly_trans [OF h1(1)] by blast
  qed
qed simp

lemma reached_visit:
  assumes "reached fs h a c" and "partly fs repl h h0" and "redact_at n fs repl a h0 = Some h'"
  shows "\<exists>m h1 h2. m \<le> n \<and> partly fs repl h h1 \<and> redact_at m fs repl c h1 = Some h2"
  using assms
proof (induction arbitrary: n h0 h' rule: reached.induct)
  case (here a)
  then show ?case by blast
next
  case (nested a k b c)
  then obtain m where n: "n = Suc m" by (cases n) simp_all
  have at: "map_of (h0 a) k = Some (HMap b)" using partly_HMap [OF nested.prems(1) nested.hyps(2)] nested.hyps(1) by blast
  have "k \<in> set (keys (h0 a))" using map_of_SomeD [OF at] by force
  then obtain h1 h2 where h1: "partly fs repl h0 h1" "redact_at m fs repl b h1 = Some h2"
    using keys_visit [of m fs repl a "keys (h0 a)" h0 h' k b] nested.prems(2) nested.hyps(2) at n by auto
  then obtain m' g1 g2 where "m' \<le> m" "partly fs repl h g1" "redact_at m' fs repl c g1 = Some g2"
    using nested.IH [OF partly_trans [OF nested.prems(1) h1(1)] h1(2)] by blast
  then show ?case using n le_SucI by blast
qed

text \<open>A map that contains itself, directly or through others, makes redaction recurse without end:
  whatever depth of calls is allowed it overflows, so logging such a map with redaction crashes.\<close>

theorem redaction_of_cycle_overflows:
  assumes "map_of (h a) k = Some (HMap b)" and "k \<notin> set fs" and "reached fs h b a"
  shows "redact_at n fs repl a h = None"
proof -
  have "redact_at n fs repl a h0 = None" if "partly fs repl h h0" for h0
    using that
  proof (induction n arbitrary: h0 rule: less_induct)
    case (less n)
    show ?case
    proof (cases "redact_at n fs repl a h0")
      case (Some h')
      then obtain m where n: "n = Suc m" by (cases n) simp_all
      have at: "map_of (h0 a) k = Some (HMap b)" using partly_HMap [OF less.prems assms(2)] assms(1) by blast
      have "k \<in> set (keys (h0 a))" using map_of_SomeD [OF at] by force
      then obtain h1 h2 where h1: "partly fs repl h0 h1" "redact_at m fs repl b h1 = Some h2"
        using keys_visit [of m fs repl a "keys (h0 a)" h0 h' k b] Some assms(2) at n by auto
      then obtain m' g1 g2 where g: "m' \<le> m" "partly fs repl h g1" "redact_at m' fs repl a g1 = Some g2"
        using reached_visit [OF assms(3) partly_trans [OF less.prems h1(1)] h1(2)] by blast
      then show ?thesis using less.IH [of m' g1] n by simp
    qed
  qed
  then show ?thesis using partly_refl by blast
qed

theorem redaction_of_cycle_overflows_witness:
  "redact_at 100 [''pin''] ''***'' 1 ((\<lambda>_. [])(1 := [(''self'', HMap 1)])) = None"
  by (rule redaction_of_cycle_overflows [of _ _ "''self''" 1]) (simp_all add: reached.here)

section \<open>Fields of a child logger\<close>

text \<open>\<open>mergeFields\<close> on the store, as \<open>With\<close> uses it: nil or a map, and a fresh address if it makes a map.\<close>

definition contents :: "store \<Rightarrow> nat option \<Rightarrow> hval gomap" where
  "contents h p = (case p of None \<Rightarrow> [] | Some a \<Rightarrow> h a)"

definition mergeFields_at :: "nat option \<Rightarrow> nat option \<Rightarrow> nat \<Rightarrow> store \<Rightarrow> nat option \<times> store" where
  "mergeFields_at base overlay new h =
     (if length (contents h base) = 0 then (overlay, h)
      else if length (contents h overlay) = 0 then (base, h)
      else (Some new, h(new :=
        fold (\<lambda>(k, v). put k v) (contents h overlay) (fold (\<lambda>(k, v). put k v) (contents h base) []))))"

text \<open>The fields that \<open>With\<close> gives a child are the logger's with the caller's on top. Whether the child keeps them
  as they are depends on the parent: a logger without fields hands the caller's own map on, so a later
  write of the caller to that map shows in the child's lines; a logger with fields makes a copy.\<close>

theorem With_aliases_first_map:
  assumes "store_ok h" and "new \<noteq> m" and "base \<noteq> Some m" and "h m \<noteq> []"
    and "mergeFields_at base (Some m) new h = (child, h')"
  shows "map_of (contents h' child) = map_of (contents h base) ++ map_of (h m) \<and>
    contents (h'(m := put k v (h' m))) child =
      (if contents h base = [] then put k v (h m) else contents h' child)"
proof (cases "contents h base = []")
  case True
  then show ?thesis using assms(5) by (auto simp: mergeFields_at_def contents_def)
next
  case False
  have "gomap_ok (contents h base)" "gomap_ok (h m)"
    using assms(1) by (cases base; simp add: contents_def store_ok_def)+
  then have "map_of (fold (\<lambda>(k, v). put k v) (h m) (fold (\<lambda>(k, v). put k v) (contents h base) [])) =
      map_of (contents h base) ++ map_of (h m)"
    by (simp add: fold_put_lookup)
  then show ?thesis using assms(2,4,5) False by (auto simp: mergeFields_at_def contents_def)
qed

theorem With_aliases_first_map_witness:
  "let h = (\<lambda>_. [])(1 := [(''a'', HVal (VInt 1))]); (child, h') = mergeFields_at None (Some 1) 2 h
   in contents (h'(1 := put ''a'' (HVal (VInt 9)) (h' 1))) child = [(''a'', HVal (VInt 9))]"
proof -
  let ?h = "(\<lambda>_. [])(1 := [(''a'', HVal (VInt 1))])"
  obtain child h' where m: "mergeFields_at None (Some 1) 2 ?h = (child, h')" by force
  have "store_ok ?h" by (simp add: store_ok_def)
  from With_aliases_first_map [OF this _ _ _ m, of "''a''" "HVal (VInt 9)"]
  have "contents (h'(1 := put ''a'' (HVal (VInt 9)) (h' 1))) child = [(''a'', HVal (VInt 9))]"
    by (simp add: contents_def)
  then show ?thesis unfolding Let_def m by simp
qed

end
