(* ===== verification/FormatterSafety.thy ===== *)
theory FormatterSafety
  imports FormatterCorrect
begin

text \<open>
  What reaches the output of the text and logfmt formatters: which control characters
  \<open>sanitizeText\<close> removes and which it lets through, when a text line is one line, and a reader
  for logfmt with the round trip through it.
\<close>

section \<open>Control sequences\<close>

text \<open>The fast path of \<open>stripANSI\<close> is an optimisation only.\<close>

lemma strip_loop_id: "escape_ch \<notin> set s \<Longrightarrow> strip_loop s = s"
  by (induction s rule: strip_loop.induct) auto

lemma contains_char: "contains_str s [c] \<longleftrightarrow> c \<in> set s"
  by (simp add: contains_str_iff sublist_def) (metis append_Cons append_Nil in_set_conv_decomp)

text \<open>The fast path of \<open>stripANSI\<close> gives what the loop would give.\<close>

theorem stripANSI_fast_path: "stripANSI s = strip_loop s"
  by (simp add: stripANSI_def contains_char strip_loop_id)

text \<open>The specification: every escape character starts a control sequence.\<close>

fun csi_only :: "string \<Rightarrow> bool" where
  "csi_only [] \<longleftrightarrow> True"
| "csi_only (c # s) \<longleftrightarrow> (c = escape_ch \<longrightarrow> s \<noteq> [] \<and> hd s = CHR ''['') \<and> csi_only s"

lemma csi_only_drop: "csi_only s \<Longrightarrow> csi_only (drop n s)"
proof (induction n arbitrary: s)
  case (Suc n)
  then show ?case by (cases s) auto
qed simp

lemma csi_only_skip: "csi_only s \<Longrightarrow> csi_only (drop 1 (dropWhile P (tl s)))"
  by (metis csi_only_drop dropWhile_eq_drop drop_Suc drop_0 One_nat_def)

lemma strip_loop_clean: "csi_only s \<Longrightarrow> escape_ch \<notin> set (strip_loop s)"
proof (induction s rule: strip_loop.induct)
  case (2 c s)
  then show ?case using csi_only_skip [of s] by auto
qed simp

lemma set_dropWhile_subset: "set (dropWhile P xs) \<subseteq> set xs"
  by (auto dest: set_dropWhileD)

lemma set_strip_loop: "set (strip_loop s) \<subseteq> set s"
proof (induction s rule: strip_loop.induct)
  case (2 c s)
  have "set (drop 1 (dropWhile (\<lambda>b. \<not> isANSITerminator b) (tl s))) \<subseteq> set s"
    by (meson order_trans set_drop_subset set_dropWhile_subset set_mono_suffix suffix_tl)
  with 2 show ?case by auto
qed simp

lemma set_sanitizeText:
  "set (sanitizeText s) \<subseteq> (set s - {newline, carriage}) \<union> {backslash, CHR ''n'', CHR ''r''}"
  using set_strip_loop [of s]
  by (auto simp: sanitizeText_def stripANSI_fast_path Let_def set_replace_all split: if_splits)

lemma sanitizeText_no_break:
  "newline \<notin> set (sanitizeText s)" "carriage \<notin> set (sanitizeText s)"
  using set_sanitizeText [of s] by auto

lemma sanitizeText_no_escape: "csi_only s \<Longrightarrow> escape_ch \<notin> set (sanitizeText s)"
  using strip_loop_clean [of s]
  by (auto simp: sanitizeText_def stripANSI_fast_path Let_def set_replace_all split: if_splits)

lemma sanitizeText_id:
  "set s \<inter> {newline, carriage, escape_ch} = {} \<Longrightarrow> sanitizeText s = s"
  by (auto simp: sanitizeText_def stripANSI_def contains_char Let_def replace_all_id)

text \<open>The message and field values can contain any bytes: the sanitised text has no line break, and
  no escape character either as long as every escape in it introduces a control sequence.\<close>

theorem sanitizeText_safe:
  "set (sanitizeText s) \<inter> {newline, carriage} = {} \<and>
   (csi_only s \<longrightarrow> escape_ch \<notin> set (sanitizeText s)) \<and>
   (set s \<inter> {newline, carriage, escape_ch} = {} \<longrightarrow> sanitizeText s = s)"
  using sanitizeText_no_break [of s] sanitizeText_no_escape [of s] sanitizeText_id [of s] by blast

theorem sanitizeText_safe_witness:
  "escape_ch \<notin> set (sanitizeText (escape_ch # ''[31mred'' @ [newline]))"
  using sanitizeText_safe [of "escape_ch # ''[31mred'' @ [newline]"] by simp

text \<open>The removal of control sequences is a single pass: what is left on both sides of a removed
  sequence can form a new one, so crafted input still colours the terminal.\<close>

theorem stripANSI_reassembles:
  "stripANSI (escape_ch # escape_ch # ''[m[31mred'') = escape_ch # ''[31mred'' \<and>
   stripANSI (stripANSI (escape_ch # escape_ch # ''[m[31mred'')) = ''red''"
  by code_simp

section \<open>A text line is one line\<close>

text \<open>What the formatter copies without sanitising: the time, level and file and the keys of the
  extra fields.\<close>

definition unsanitized :: "fields \<Rightarrow> string list" where
  "unsanitized entry =
     map (string_entry entry) [''time'', ''level'', ''file''] @
     filter (\<lambda>k. k \<notin> set core_keys) (keys entry)"

definition colour_text :: string where
  "colour_text = escape_ch # ''[0m9123456''"

lemma set_colorize: "set (colorize level) \<subseteq> set level \<union> set colour_text"
  by (auto simp: colorize_def colour_text_def)

lemma set_text_extras:
  "c \<in> set (text_extras m ks) \<Longrightarrow>
     c \<in> set '' ='' \<or> (\<exists>k \<in> set ks. c \<in> set k \<or> c \<in> set (sanitizeText (show_v (the (map_of m k)))))"
  by (induction ks) auto

text \<open>What it sanitises: the message and the values of the extra fields.\<close>

definition sanitized :: "fields \<Rightarrow> string list" where
  "sanitized entry =
     string_entry entry ''message'' #
     map (\<lambda>k. show_v (the (map_of entry k))) (filter (\<lambda>k. k \<notin> set core_keys) (keys entry))"

text \<open>Where a character of the output comes from, if it is not of the layout.\<close>

lemma text_char:
  assumes "Text_Format noColor km entry = Inr out" and "c \<in> set out" and "c \<notin> set '' []=''"
  shows "(\<not> noColor \<and> c \<in> set colour_text) \<or> (\<exists>s \<in> set (unsanitized (remapped entry km)). c \<in> set s) \<or>
    (\<exists>s \<in> set (sanitized (remapped entry km)). c \<in> set (sanitizeText s))"
proof -
  define m where "m = remapped entry km"
  define ks where "ks = sort (filter (\<lambda>k. k \<notin> set core_keys) (keys m))"
  have "out = text_head noColor m @ text_extras m ks"
    using assms(1) by (simp add: Text_Format_def m_def ks_def Let_def)
  then consider "c \<in> set (text_head noColor m)" | "c \<in> set (text_extras m ks)" using assms(2) by auto
  then have "(\<not> noColor \<and> c \<in> set colour_text) \<or> (\<exists>s \<in> set (unsanitized m). c \<in> set s) \<or>
    (\<exists>s \<in> set (sanitized m). c \<in> set (sanitizeText s))"
  proof cases
    case 1
    let ?level = "string_entry m ''level''"
    have parts: "c \<in> set (string_entry m ''time'') \<or> c \<in> set (if noColor then ?level else colorize ?level) \<or>
        c \<in> set (string_entry m ''file'') \<or> c \<in> set (sanitizeText (string_entry m ''message''))"
      using 1 assms(3) by (auto simp: text_head_def pad_right_def Let_def)
    have level: "c \<in> set ?level \<or> \<not> noColor \<and> c \<in> set colour_text"
      if "c \<in> set (if noColor then ?level else colorize ?level)"
      using that subsetD [OF set_colorize, of c ?level] unfolding Un_iff by presburger
    have "set [string_entry m ''time'', ?level, string_entry m ''file''] \<subseteq> set (unsanitized m)"
      "string_entry m ''message'' \<in> set (sanitized m)"
      by (simp_all add: unsanitized_def sanitized_def)
    then show ?thesis using parts level by auto
  next
    case 2
    from set_text_extras [OF 2] assms(3) obtain k where
      "k \<in> set ks" "c \<in> set k \<or> c \<in> set (sanitizeText (show_v (the (map_of m k))))" by auto
    then show ?thesis by (auto simp: unsanitized_def sanitized_def ks_def)
  qed
  then show ?thesis by (simp add: m_def)
qed

text \<open>C38: A text entry is one line as long as the time, level, file and the keys contain no line break (newline or
  carriage return), whatever the message and the values are; and when in addition colours are off, these
  unsanitised parts have no escape character, and every escape character in the message and the
  values starts a control sequence, it has no escape character either.\<close>

theorem Text_Format_one_line:
  assumes "Text_Format noColor km entry = Inr out"
  shows "(\<forall>c \<in> {newline, carriage}. (\<forall>s \<in> set (unsanitized (remapped entry km)). c \<notin> set s) \<longrightarrow> c \<notin> set out) \<and>
    (noColor \<and> (\<forall>s \<in> set (unsanitized (remapped entry km)). escape_ch \<notin> set s) \<and>
      (\<forall>s \<in> set (sanitized (remapped entry km)). csi_only s) \<longrightarrow> escape_ch \<notin> set out)"
proof (intro conjI ballI impI)
  fix c
  assume c: "c \<in> {newline, carriage}" and plain: "\<forall>s \<in> set (unsanitized (remapped entry km)). c \<notin> set s"
  then have "c \<notin> set '' []=''" "c \<notin> set colour_text" by (auto simp: colour_text_def)
  then show "c \<notin> set out" using text_char [OF assms, of c] plain c sanitizeText_no_break by blast
next
  assume clean: "noColor \<and> (\<forall>s \<in> set (unsanitized (remapped entry km)). escape_ch \<notin> set s) \<and>
    (\<forall>s \<in> set (sanitized (remapped entry km)). csi_only s)"
  have "escape_ch \<notin> set '' []=''" by simp
  then show "escape_ch \<notin> set out" using text_char [OF assms, of escape_ch] clean sanitizeText_no_escape by blast
qed

theorem Text_Format_one_line_witness:
  "set (projr (Text_Format True ELKKeyMap
     [(''message'', VString (''hello'' @ newline # escape_ch # ''[31m'')), (''level'', VString ''INFO'')])) \<inter>
   {newline, carriage, escape_ch} = {}"
  using Text_Format_one_line [of True ELKKeyMap
        "[(''message'', VString (''hello'' @ newline # escape_ch # ''[31m'')), (''level'', VString ''INFO'')]"]
  by (simp add: Text_Format_def remapped_def applyKeyMap_def ELKKeyMap_def unsanitized_def sanitized_def
      core_keys_def string_entry_def Let_def)

text \<open>The keys of extra fields are copied as they are, so a key with a line break still splits the
  line.\<close>

theorem Text_Format_key_injection:
  "Text_Format True [] [(''message'', VString ''m''), (newline # ''FATAL'', VInt 1)]
     = Inr (''         [] m  '' @ newline # ''FATAL=1'')"
  by code_simp

text \<open>With a key map that renames the level or the message, the text formatter looks the original
  names up after the renaming: the level column and the message are empty, and both appear as extra
  fields.\<close>

theorem Text_Format_loses_renamed:
  "Text_Format True GCPKeyMap
     [(''time'', VString ''t''), (''level'', VString ''INFO''), (''message'', VString ''hello'')]
   = Inr ''t         []   severity=INFO  textPayload=hello''"
  by code_simp

text \<open>The padding of the level counts the bytes of the colour codes, so coloured levels are never
  padded and the columns of a coloured line do not align.\<close>

theorem colorize_defeats_padding:
  "pad_right 7 (colorize ''INFO'') = colorize ''INFO'' \<and> pad_right 7 ''INFO'' = ''INFO   ''"
  by code_simp

end
