(* ===== verification/LogfmtCorrect.thy ===== *)
theory LogfmtCorrect
  imports FormatterSafety
begin

text \<open>
  A reader for logfmt, as the consumers that the source names have it (a key up to the equals sign, a
  quoted value in which a backslash makes the next character literal, one space between pairs), and
  the round trip of \<open>LogfmtFormatter.Format\<close> through it.
\<close>

section \<open>The reader\<close>

fun read_quoted :: "string \<Rightarrow> (string \<times> string) option" where
  "read_quoted [] = None"
| "read_quoted (c # s) =
     (if c = quote_ch then Some ([], s)
      else if c = backslash then
        (case s of
           [] \<Rightarrow> None
         | d # s' \<Rightarrow> map_option (\<lambda>(v, r). (d # v, r)) (read_quoted s'))
      else map_option (\<lambda>(v, r). (c # v, r)) (read_quoted s))"

definition read_logfmt_value :: "string \<Rightarrow> string \<times> string \<Rightarrow> (string \<times> string) option" where
  "read_logfmt_value s split_at_space =
     (case s of
        c # t \<Rightarrow> if c = quote_ch then read_quoted t else Some split_at_space
      | [] \<Rightarrow> Some split_at_space)"

definition plain_key :: "string \<Rightarrow> bool" where
  "plain_key k \<longleftrightarrow> k \<noteq> [] \<and> list_all (\<lambda>c. 0x20 < bval c \<and> c \<noteq> CHR ''='' \<and> c \<noteq> quote_ch) k"

definition read_pair :: "string \<Rightarrow> ((string \<times> string) \<times> string) option" where
  "read_pair s =
     (let k = takeWhile (\<lambda>c. c \<noteq> CHR ''='') s; rest = dropWhile (\<lambda>c. c \<noteq> CHR ''='') s
      in if plain_key k \<and> rest \<noteq> [] then
           (let t = tl rest; blank = (\<lambda>c. c \<noteq> CHR '' '')
            in map_option (\<lambda>(v, r). ((k, v), r))
                 (read_logfmt_value t (takeWhile blank t, dropWhile blank t)))
         else None)"

lemma read_quoted_shrinks: "read_quoted s = Some (v, r) \<Longrightarrow> length r < length s"
  by (induction s arbitrary: v r rule: read_quoted.induct)
    (fastforce split: if_splits list.splits)+

lemma read_pair_shrinks:
  assumes "read_pair s = Some (kv, r)"
  shows "length r < length s"
proof -
  let ?rest = "dropWhile (\<lambda>c. c \<noteq> CHR ''='') s"
  have rest: "?rest \<noteq> []" using assms by (auto simp: read_pair_def Let_def split: if_splits)
  then have small: "length (tl ?rest) < length s"
    by (metis length_dropWhile_le length_tl diff_less le_less_trans length_greater_0_conv
        less_le_trans zero_less_one)
  have "length r \<le> length (tl ?rest)"
  proof (cases "\<exists>t. tl ?rest = quote_ch # t")
    case True
    then obtain t where t: "tl ?rest = quote_ch # t" by blast
    then show ?thesis
      using assms rest read_quoted_shrinks [of t _ r]
      by (auto simp: read_pair_def read_logfmt_value_def Let_def split: if_splits)
  next
    case False
    then have "r = dropWhile (\<lambda>c. c \<noteq> CHR '' '') (tl ?rest)"
      using assms rest
      by (auto simp: read_pair_def read_logfmt_value_def Let_def split: if_splits list.splits)
    then show ?thesis using length_dropWhile_le [of _ "tl ?rest"] by simp
  qed
  with small show ?thesis by simp
qed

function read_logfmt :: "string \<Rightarrow> (string \<times> string) list option" where
  "read_logfmt s =
     (case read_pair s of
        None \<Rightarrow> None
      | Some (kv, r) \<Rightarrow>
          (case r of
             [] \<Rightarrow> Some [kv]
           | c # t \<Rightarrow> if c = CHR '' '' then map_option (Cons kv) (read_logfmt t) else None))"
  by pat_completeness auto
termination
  by (relation "measure length") (auto dest!: read_pair_shrinks)

declare read_logfmt.simps [simp del]

section \<open>Round trip\<close>

lemma read_quoted_escaped:
  "backslash \<notin> set s \<Longrightarrow>
     read_quoted (replace_all quote_ch [backslash, quote_ch] s @ quote_ch # r) = Some (s, r)"
  by (induction s) auto

definition ends_value :: "string \<Rightarrow> bool" where
  "ends_value r \<longleftrightarrow> (case r of [] \<Rightarrow> True | c # _ \<Rightarrow> c = CHR '' '')"

lemma read_pair_written:
  assumes k: "plain_key k" and v: "backslash \<notin> set v" and r: "ends_value r"
  shows "read_pair (k @ ''='' @ logfmt_value v @ r) = Some ((k, v), r)"
proof -
  have no_eq: "c \<noteq> CHR ''=''" if "c \<in> set k" for c
    using k that by (auto simp: plain_key_def list_all_iff)
  then have split: "takeWhile (\<lambda>c. c \<noteq> CHR ''='') (k @ CHR ''='' # t) = k"
      "dropWhile (\<lambda>c. c \<noteq> CHR ''='') (k @ CHR ''='' # t) = CHR ''='' # t" for t
    by (simp_all add: takeWhile_append2 dropWhile_append2)
  show ?thesis
  proof (cases "needsLogfmtQuoting v")
    case True
    then have "logfmt_value v @ r = quote_ch # replace_all quote_ch [backslash, quote_ch] v @ quote_ch # r"
      by (simp add: logfmt_value_def)
    then show ?thesis
      using read_quoted_escaped [OF v, of r] k split
      by (simp add: read_pair_def read_logfmt_value_def Let_def)
  next
    case False
    then have none: "v \<noteq> []" "\<And>c. c \<in> set v \<Longrightarrow> \<not> bval c \<le> 0x20 \<and> c \<noteq> quote_ch"
      unfolding needsLogfmtQuoting_def list_ex_iff by blast+
    have "bval (CHR '' '') \<le> 0x20" by simp
    with none have plain: "v \<noteq> []" "\<And>c. c \<in> set v \<Longrightarrow> c \<noteq> CHR '' '' \<and> c \<noteq> quote_ch"
      by metis+
    from plain(2) have "\<forall>c \<in> set v. c \<noteq> CHR '' ''" by blast
    then have all: "takeWhile (\<lambda>c. c \<noteq> CHR '' '') (v @ r) = v"
        "dropWhile (\<lambda>c. c \<noteq> CHR '' '') (v @ r) = r"
      using r by (cases r; simp add: ends_value_def takeWhile_append2 dropWhile_append2)+
    from plain(1) obtain c v' where cv: "v = c # v'" by (cases v) simp_all
    with plain(2) [of c] have "c \<noteq> quote_ch" by simp
    then show ?thesis
      using k split all False cv
      by (simp add: read_pair_def read_logfmt_value_def Let_def logfmt_value_def)
  qed
qed

text \<open>The pairs as the formatter writes them, and its buffer-passing loop in terms of them.\<close>

definition pair_text :: "fields \<Rightarrow> string \<Rightarrow> string" where
  "pair_text m k = k @ ''='' @ logfmt_value (show_v (the (map_of m k)))"

definition present :: "fields \<Rightarrow> string list \<Rightarrow> string list" where
  "present m ks = filter (\<lambda>k. map_of m k \<noteq> None) ks"

lemma logfmt_pairs_text:
  "logfmt_pairs m ks buf =
     (if buf = [] then join '' '' (map (pair_text m) (present m ks))
      else buf @ concat (map (\<lambda>k. '' '' @ pair_text m k) (present m ks)))"
  by (induction ks arbitrary: buf)
    (auto simp: present_def join_def appendLogfmtPair_def pair_text_def comp_def split: option.split)

lemma logfmt_pairs_append:
  "logfmt_pairs m (ks @ ls) buf = logfmt_pairs m ls (logfmt_pairs m ks buf)"
  by (induction ks arbitrary: buf) (auto split: option.split)

definition extra_keys :: "fields \<Rightarrow> string list" where
  "extra_keys m = sort (filter (\<lambda>k. k \<notin> set core_keys) (keys m))"

definition logfmt_order :: "fields \<Rightarrow> string list" where
  "logfmt_order m = present m core_keys @ extra_keys m"

lemma present_keys: "set ks \<subseteq> set (keys m) \<Longrightarrow> present m ks = ks"
  by (auto simp: present_def filter_id_conv map_of_eq_None_iff)

lemma Logfmt_Format_text:
  "Logfmt_Format [] m = Inr (join '' '' (map (pair_text m) (logfmt_order m)))"
proof -
  have "filter (\<lambda>k. k \<notin> set (filter (\<lambda>k. map_of m k \<noteq> None) core_keys)) (keys m)
      = filter (\<lambda>k. k \<notin> set core_keys) (keys m)"
    by (rule filter_cong) (auto simp: map_of_eq_None_iff)
  then have "Logfmt_Format [] m = Inr (logfmt_pairs m (core_keys @ extra_keys m) [])"
    by (simp add: Logfmt_Format_def remapped_def Let_def logfmt_pairs_append extra_keys_def)
  moreover have "present m (core_keys @ extra_keys m) = logfmt_order m"
    using present_keys [of "extra_keys m" m]
    by (auto simp: logfmt_order_def extra_keys_def present_def)
  ultimately show ?thesis by (simp add: logfmt_pairs_text)
qed

lemma join_Cons_Cons: "join sep (x # y # r) = x @ sep @ join sep (y # r)"
  by (simp add: join_def)

lemma read_pair_text:
  "plain_key k \<Longrightarrow> backslash \<notin> set (show_v (the (map_of m k))) \<Longrightarrow> ends_value r \<Longrightarrow>
     read_pair (pair_text m k @ r) = Some ((k, show_v (the (map_of m k))), r)"
  using read_pair_written [of k "show_v (the (map_of m k))" r] by (simp add: pair_text_def)

lemma read_logfmt_join:
  assumes "ks \<noteq> []" and "\<forall>k \<in> set ks. plain_key k \<and> backslash \<notin> set (show_v (the (map_of m k)))"
  shows "read_logfmt (join '' '' (map (pair_text m) ks)) =
    Some (map (\<lambda>k. (k, show_v (the (map_of m k)))) ks)"
  using assms
proof (induction ks rule: induct_list012)
  case 1
  then show ?case by simp
next
  case (2 k)
  then show ?case
    using read_pair_text [of k m "[]"]
    by (simp add: read_logfmt.simps join_def ends_value_def)
next
  case (3 k l ks)
  then show ?case
    using read_pair_text [of k m "'' '' @ join '' '' (map (pair_text m) (l # ks))"]
    by (simp add: read_logfmt.simps [of "_ @ _"] join_Cons_Cons ends_value_def)
qed

text \<open>C32: What the logfmt formatter writes without a key map is read back as every field of the entry exactly once, the
  core fields first and the others sorted, provided that keys are plain words and no value
  contains a backslash. Quotes, spaces, equals signs and empty values are all handled.\<close>

theorem Logfmt_Format_reads_back:
  assumes "gomap_ok m" and "m \<noteq> []"
    and "\<forall>(k, v) \<in> set m. plain_key k \<and> backslash \<notin> set (show_v v)"
  shows "\<exists>out. Logfmt_Format [] m = Inr out \<and>
    read_logfmt out = Some (map (\<lambda>k. (k, show_v (the (map_of m k)))) (logfmt_order m)) \<and>
    mset (logfmt_order m) = mset (keys m)"
proof -
  have member: "set (logfmt_order m) = set (keys m)"
    by (auto simp: logfmt_order_def present_def extra_keys_def map_of_eq_None_iff)
  have "distinct (logfmt_order m)"
    using assms(1)
    by (auto simp: gomap_ok_def logfmt_order_def present_def extra_keys_def core_keys_def)
  then have perm: "mset (logfmt_order m) = mset (keys m)"
    using assms(1) member set_eq_iff_mset_eq_distinct [of "logfmt_order m" "keys m"]
    by (simp only: gomap_ok_def)
  have "logfmt_order m \<noteq> []" using member assms(2) by (metis set_empty map_is_Nil_conv)
  moreover have "plain_key k \<and> backslash \<notin> set (show_v (the (map_of m k)))"
    if "k \<in> set (logfmt_order m)" for k
  proof -
    from that member obtain v where "(k, v) \<in> set m" by auto
    with assms(1) have "map_of m k = Some v" by (simp add: gomap_ok_def)
    with \<open>(k, v) \<in> set m\<close> assms(3) show ?thesis by auto
  qed
  ultimately show ?thesis
    using read_logfmt_join [of "logfmt_order m" m] perm by (simp add: Logfmt_Format_text)
qed

theorem Logfmt_Format_reads_back_witness:
  "\<exists>out. Logfmt_Format [] [(''user'', VString ''a b''), (''level'', VString ''INFO'')] = Inr out \<and>
     read_logfmt out = Some [(''level'', ''INFO''), (''user'', ''a b'')]"
  using Logfmt_Format_reads_back [of "[(''user'', VString ''a b''), (''level'', VString ''INFO'')]"]
  by (simp add: plain_key_def logfmt_order_def present_def extra_keys_def core_keys_def)

text \<open>Only quotes are escaped inside a quoted value: a value that ends in a backslash gives an
  unterminated quote, and a line break is copied, so one entry becomes two lines of the log.\<close>

theorem Logfmt_Format_unescaped:
  "Logfmt_Format [] [(''path'', VString [CHR ''C'', backslash])]
     = Inr (''path='' @ [quote_ch, CHR ''C'', backslash, quote_ch]) \<and>
   read_logfmt (''path='' @ [quote_ch, CHR ''C'', backslash, quote_ch]) = None \<and>
   newline \<in> set (projr (Logfmt_Format [] [(''message'', VString (''a'' @ newline # ''level=FATAL''))]))"
  by code_simp

end
