(* ===== verification/LogSlog.thy ===== *)
theory LogSlog
  imports CallCorrect "HOL-Library.Monad_Syntax"
begin

text \<open>
  \<open>slog_handler.go\<close>: the bridge from Go's structured logging to a logger. An attribute is its key
  and what \<open>Value.Any()\<close> gives; a record has the level as slog's integer, the message, the
  attributes, the program counter and the frame that \<open>runtime.CallersFrames\<close> finds for it. A handler can be
  made of a nil logger (\<open>None\<close>); using it dereferences nil, which is a panic.
\<close>

type_synonym slog_level = "64 word"

definition slog_LevelDebug :: slog_level where "slog_LevelDebug = - 4"
definition slog_LevelInfo :: slog_level where "slog_LevelInfo = 0"
definition slog_LevelWarn :: slog_level where "slog_LevelWarn = 4"
definition slog_LevelError :: slog_level where "slog_LevelError = 8"

lemmas slog_levels = slog_LevelDebug_def slog_LevelInfo_def slog_LevelWarn_def slog_LevelError_def

type_synonym slog_attr = "string \<times> gval"

record slog_record =
  sr_Level :: slog_level
  sr_Message :: string
  sr_Attrs :: "slog_attr list"
  sr_PC :: "64 word"
  sr_frame :: "string \<times> 64 word"

record slog_handler =
  sh_logger :: "nat option"
  sh_attrs :: "slog_attr list"
  sh_group :: string

definition NewSlogHandler :: "nat option \<Rightarrow> slog_handler" where
  "NewSlogHandler l = \<lparr>sh_logger = l, sh_attrs = [], sh_group = []\<rparr>"

section \<open>Levels\<close>

definition slogLevelToLevel :: "slog_level \<Rightarrow> level" where
  "slogLevelToLevel l =
     (if sint l < sint slog_LevelDebug then TRACE
      else if sint l < sint slog_LevelInfo then DEBUG
      else if sint l < sint slog_LevelWarn then INFO
      else if sint l < sint slog_LevelError then WARNING
      else ERROR)"

definition levelToSlogLevel :: "level \<Rightarrow> slog_level" where
  "levelToSlogLevel l =
     (if l = TRACE then slog_LevelDebug - 4
      else if l = DEBUG then slog_LevelDebug
      else if l = INFO then slog_LevelInfo
      else if l = WARNING then slog_LevelWarn
      else if l = ERROR then slog_LevelError
      else if l = FATAL then slog_LevelError + 4
      else slog_LevelInfo)"

definition slog_Enabled :: "slog_handler \<Rightarrow> slog_level \<Rightarrow> system \<Rightarrow> bool option" where
  "slog_Enabled h level s = map_option (\<lambda>a. GetLevel a s \<le> slogLevelToLevel level) (sh_logger h)"

text \<open>
  \<open>itoa\<close> on a 64-bit integer. Negating the least integer gives itself, so the recursion need not
  end: \<open>None\<close> is the call that never returns.
\<close>

partial_function (option) itoa :: "64 word \<Rightarrow> string option" where
  "itoa i =
     (if sint i < 0 then do { r \<leftarrow> itoa (- i); Some (CHR ''-'' # r) }
      else if sint i < 10 then Some [byte (48 + nat (sint i))]
      else do { r \<leftarrow> itoa (i div 10); Some (r @ [byte (48 + nat (sint (i mod 10)))]) })"

section \<open>Handling a record\<close>

definition prefixKey :: "slog_handler \<Rightarrow> string \<Rightarrow> string" where
  "prefixKey h key = (if sh_group h = [] then key else sh_group h @ ''.'' @ key)"

fun put_attrs :: "slog_handler \<Rightarrow> slog_attr list \<Rightarrow> fields \<Rightarrow> fields" where
  "put_attrs h [] fs = fs"
| "put_attrs h ((k, v) # r) fs = put_attrs h r (put (prefixKey h k) v fs)"

definition slog_fields :: "slog_handler \<Rightarrow> slog_record \<Rightarrow> fields option" where
  "slog_fields h rec =
     (let fs = put_attrs h (sr_Attrs rec) (put_attrs h (sh_attrs h) []);
          (file, line) = sr_frame rec
      in if sr_PC rec \<noteq> 0 \<and> file \<noteq> [] then
           map_option (\<lambda>n. put ''slog_source'' (VString (file @ '':'' @ n)) fs) (itoa line)
         else Some fs)"

definition slog_Handle ::
  "sinks \<Rightarrow> call_env \<Rightarrow> slog_handler \<Rightarrow> slog_record \<Rightarrow> system \<Rightarrow> system option" where
  "slog_Handle env ce h rec s =
     (case slog_fields h rec of
        None \<Rightarrow> None
      | Some fs \<Rightarrow>
          (let level = slogLevelToLevel (sr_Level rec)
           in case sh_logger h of
                None \<Rightarrow> None
              | Some a \<Rightarrow>
                  if lg_closed (root_logger s a) then Some s
                  else Some (writeEntry env ce (root s a) level (sr_Message rec)
                               (mergeFields (lg_fields (logger_at s a)) fs) s)))"

definition slog_WithAttrs :: "slog_attr list \<Rightarrow> slog_handler \<Rightarrow> slog_handler" where
  "slog_WithAttrs attrs h = h\<lparr>sh_attrs := sh_attrs h @ attrs\<rparr>"

definition slog_WithGroup :: "string \<Rightarrow> slog_handler \<Rightarrow> slog_handler" where
  "slog_WithGroup name h =
     h\<lparr>sh_group := (if sh_group h \<noteq> [] then sh_group h @ ''.'' @ name else name)\<rparr>"

text \<open>\<open>slog.NewLogLogger\<close> is the library's: what the code passes it.\<close>

definition StdLogger :: "nat \<Rightarrow> level \<Rightarrow> slog_handler \<times> slog_level" where
  "StdLogger l level = (NewSlogHandler (Some l), levelToSlogLevel level)"

section \<open>Properties of the level maps\<close>

text \<open>Mapping a level to slog and back gives the level, except that \<open>FATAL\<close> comes back as \<open>ERROR\<close>:
  nothing logged through slog or a standard logger ends the process. The map from slog is monotone and
  sends every integer to one of the five lower levels.\<close>

theorem slog_levels_round_trip:
  "(l \<in> set named_levels \<longrightarrow> slogLevelToLevel (levelToSlogLevel l) = min l ERROR) \<and>
   (sint x \<le> sint y \<longrightarrow> slogLevelToLevel x \<le> slogLevelToLevel y) \<and>
   slogLevelToLevel x \<in> {TRACE, DEBUG, INFO, WARNING, ERROR}"
proof -
  have "slogLevelToLevel (levelToSlogLevel l) = min l ERROR" if "l \<in> set named_levels"
    using that
    by (auto simp: named_levels_def slogLevelToLevel_def levelToSlogLevel_def slog_levels level_consts)
  moreover have "slogLevelToLevel x \<le> slogLevelToLevel y" if "sint x \<le> sint y"
    using that by (auto simp: slogLevelToLevel_def level_consts)
  ultimately show ?thesis by (auto simp: slogLevelToLevel_def)
qed

theorem slog_levels_round_trip_witness:
  "slogLevelToLevel (levelToSlogLevel FATAL) = ERROR"
  using slog_levels_round_trip [of FATAL 0 0] by (simp add: named_levels_def level_consts min_def)

section \<open>itoa\<close>

lemma uint_take_sint: "uint (i :: 64 word) = take_bit 64 (sint i)"
  by transfer (simp add: take_bit_signed_take_bit)

lemma sint_word64_lt: "sint (i :: 64 word) < 2 ^ 63" "- (2 ^ 63) \<le> sint (i :: 64 word)"
  using sint_range_size [of i] by (simp_all add: word_size)

lemma uint_sint: "0 \<le> sint i \<Longrightarrow> uint i = sint (i :: 64 word)"
  using sint_word64_lt [of i] by (simp add: uint_take_sint take_bit_int_eq_self)

lemma sint_of_uint: "uint (i :: 64 word) < 2 ^ 63 \<Longrightarrow> sint i = uint i"
  using signed_take_bit_int_eq_self [of 63 "uint i"] uint_ge_0 [of i] by (simp only: sint_uint) simp

lemma sint_div_mod_10:
  assumes "0 \<le> sint (i :: 64 word)"
  shows "sint (i div 10) = sint i div 10" "sint (i mod 10) = sint i mod 10"
proof -
  have u: "uint (i div 10) = sint i div 10" "uint (i mod 10) = sint i mod 10"
    using uint_sint [OF assms] by (simp_all add: uint_div uint_mod)
  have lt: "sint i < 2 ^ 63" by (rule sint_word64_lt)
  have "sint i div 10 < 2 ^ 63" "sint i mod 10 < 2 ^ 63"
    using lt assms by linarith (rule order_less_trans [OF pos_mod_bound], simp_all)
  then show "sint (i div 10) = sint i div 10" "sint (i mod 10) = sint i mod 10"
    using sint_of_uint [of "i div 10"] sint_of_uint [of "i mod 10"] u by (simp_all only:)
qed
lemma sint_neg: "sint (i :: 64 word) \<noteq> - (2 ^ 63) \<Longrightarrow> sint (- i) = - sint i"
  using sint_word64_lt [of i]
  by (simp add: sint_word_ariths signed_take_bit_int_eq_self)

lemma itoa_nonneg:
  "0 \<le> sint i \<Longrightarrow> itoa i = Some (show_nat (nat (sint i)))"
proof (induction "nat (sint i)" arbitrary: i rule: less_induct)
  case less
  note parts = sint_div_mod_10 [OF less.prems]
  show ?case
  proof (cases "sint i < 10")
    case True
    then show ?thesis
      using less.prems
      by (simp add: itoa.simps [of i] show_base.simps [of 10 "nat (sint i)"] digit_char_def)
  next
    case False
    have "itoa (i div 10) = Some (show_nat (nat (sint i div 10)))"
      using less.hyps [of "i div 10"] parts(1) False by simp
    moreover have "\<not> nat (sint i) < 10" using False by (simp add: nat_less_iff)
    moreover have "nat (sint i div 10) = nat (sint i) div 10" "nat (sint i mod 10) = nat (sint i) mod 10"
      using less.prems by (simp_all add: nat_div_distrib nat_mod_distrib)
    ultimately show ?thesis
      using False less.prems parts(2)
      by (simp add: itoa.simps [of i] show_base.simps [of 10 "nat (sint i)"] digit_char_def)
  qed
qed

lemma itoa_min: "itoa (- (2 ^ 63)) = None"
proof -
  have "itoa (- (2 ^ 63)) \<noteq> Some x" for x
  proof
    assume x: "itoa (- (2 ^ 63)) = Some x"
    have "sint (- (2 ^ 63) :: 64 word) < 0" "- (- (2 ^ 63)) = (- (2 ^ 63) :: 64 word)" by simp_all
    then have "itoa (- (2 ^ 63)) = do { r \<leftarrow> itoa (- (2 ^ 63)); Some (CHR ''-'' # r) }"
      by (subst itoa.simps) (simp only: if_True)
    with x show False by simp
  qed
  then show ?thesis by (cases "itoa (- (2 ^ 63))") simp_all
qed

text \<open>\<open>itoa\<close> prints every integer in decimal but the least one, on which it never returns.\<close>

theorem itoa_decimal_or_diverges:
  "itoa i = (if i = - (2 ^ 63) then None else Some (show_int (sint i)))"
proof (cases "sint i < 0")
  case False
  then have "i \<noteq> - (2 ^ 63)" by auto
  with False show ?thesis by (simp add: itoa_nonneg show_int_def)
next
  case True
  show ?thesis
  proof (cases "i = - (2 ^ 63)")
    case min: False
    have "sint i \<noteq> - (2 ^ 63)"
    proof
      assume "sint i = - (2 ^ 63)"
      then have "sint i = sint (- (2 ^ 63) :: 64 word)" by simp
      with min sint_eq_imp show False by blast
    qed
    then have "sint (- i) = - sint i" by (rule sint_neg)
    then show ?thesis
      using True min by (simp add: itoa.simps [of i] itoa_nonneg show_int_def)
  qed (simp add: itoa_min [simplified])
qed

section \<open>Attributes and groups\<close>

lemma prefixKey_inject [simp]: "prefixKey h j = prefixKey h k \<longleftrightarrow> j = k"
  by (simp add: prefixKey_def)

lemma put_attrs_lookup:
  "map_of (put_attrs h as fs) = map_of fs ++ map_of (rev (map (\<lambda>(k, v). (prefixKey h k, v)) as))"
  by (induction h as fs rule: put_attrs.induct) (simp_all add: fun_eq_iff map_add_def split: option.split)

lemma put_attrs_ok: "gomap_ok fs \<Longrightarrow> gomap_ok (put_attrs h as fs)"
  by (induction h as fs rule: put_attrs.induct) simp_all

text \<open>A record without source gives every attribute under its key, prefixed by the open groups; a later
  attribute wins over an earlier one with the same key, and the record's over the handler's.\<close>

theorem slog_fields_lookup:
  assumes "slog_fields h rec = Some fs" and "sr_PC rec = 0"
  shows "gomap_ok fs \<and>
    map_of fs (prefixKey h k) = map_of (rev (sh_attrs h @ sr_Attrs rec)) k \<and>
    (\<forall>key v. map_of fs key = Some v \<longrightarrow> (\<exists>j. key = prefixKey h j))"
proof -
  let ?pre = "\<lambda>as. map (\<lambda>(k, v). (prefixKey h k, v)) as"
  have fs: "fs = put_attrs h (sr_Attrs rec) (put_attrs h (sh_attrs h) [])"
    using assms by (simp add: slog_fields_def Let_def split_def)
  then have lookup: "map_of fs = map_of (rev (?pre (sh_attrs h @ sr_Attrs rec)))"
    by (simp add: put_attrs_lookup map_of_append)
  have "map_of (?pre as) (prefixKey h k) = map_of as k" for as
    by (induction as) auto
  then have "map_of fs (prefixKey h k) = map_of (rev (sh_attrs h @ sr_Attrs rec)) k"
    unfolding lookup rev_map .
  moreover have "\<exists>j. key = prefixKey h j" if "map_of fs key = Some v" for key v
    using map_of_SomeD [OF that [unfolded lookup]] by auto
  moreover have "gomap_ok fs" unfolding fs by (intro put_attrs_ok) simp
  ultimately show ?thesis by blast
qed

definition demo_record :: "slog_attr list \<Rightarrow> slog_record" where
  "demo_record as = \<lparr>sr_Level = 0, sr_Message = ''m'', sr_Attrs = as, sr_PC = 0, sr_frame = ([], 0)\<rparr>"

theorem slog_fields_lookup_witness:
  "\<exists>fs. slog_fields (slog_WithGroup ''req'' (NewSlogHandler (Some 0))) (demo_record [(''id'', VInt 1), (''id'', VInt 2)]) = Some fs \<and>
     map_of fs ''req.id'' = Some (VInt 2)"
proof -
  let ?h = "slog_WithGroup ''req'' (NewSlogHandler (Some 0))"
  let ?r = "demo_record [(''id'', VInt 1), (''id'', VInt 2)]"
  obtain fs where fs: "slog_fields ?h ?r = Some fs"
    by (simp add: slog_fields_def demo_record_def)
  have pc: "sr_PC ?r = 0" by (simp add: demo_record_def)
  show ?thesis
    using slog_fields_lookup [OF fs pc, of "''id''"] fs
    by (simp add: prefixKey_def slog_WithGroup_def NewSlogHandler_def demo_record_def)
qed

text \<open>The handler keeps one prefix for all its attributes: those added before \<open>WithGroup\<close> move into
  the group, which slog excludes, and an empty group name, which slog says to ignore, puts a
  second dot into the keys.\<close>

theorem slog_groups_diverge:
  "slog_fields (slog_WithGroup ''g'' (slog_WithAttrs [(''app'', VString ''x'')] (NewSlogHandler l))) (demo_record [])
     = Some [(''g.app'', VString ''x'')] \<and>
   slog_fields (slog_WithGroup [] (slog_WithGroup ''g'' (NewSlogHandler l))) (demo_record [(''k'', VInt 1)])
     = Some [(''g..k'', VInt 1)]"
  by (simp add: slog_fields_def demo_record_def slog_WithGroup_def slog_WithAttrs_def NewSlogHandler_def prefixKey_def)

text \<open>A logger whose sampler rejects everything.\<close>

definition silenced_system :: system where
  "silenced_system = empty_system\<lparr>loggers :=
     [zero_logger\<lparr>lg_out := Sink 1 False None, lg_sampler := Some (SCustom (\<lambda>_. Some False) [])\<rparr>]\<rparr>"

text \<open>Records that come through slog are not sampled: with a sampler that rejects everything, a call
  of the logger writes nothing, and the same entry through the slog handler is written.\<close>

theorem slog_bypasses_sampler:
  "map_option (\<lambda>s. io (the_world s)) (Logger_Info quiet_sinks plain_env 0 ''m'' [] silenced_system) = Some [] \<and>
   (\<exists>s' line. slog_Handle quiet_sinks plain_env (NewSlogHandler (Some 0)) (demo_record []) silenced_system = Some s' \<and>
      io (the_world s') = [EvWrite 1 line])"
proof -
  let ?l = "logger_at silenced_system 0"
  have l: "?l = zero_logger\<lparr>lg_out := Sink 1 False None, lg_sampler := Some (SCustom (\<lambda>_. Some False) [])\<rparr>"
    by (simp add: silenced_system_def)
  have root: "root silenced_system 0 = 0" by (simp add: root_def l zero_logger_def)
  have log: "map_option (\<lambda>s. io (the_world s)) (Logger_Info quiet_sinks plain_env 0 ''m'' [] silenced_system) = Some []"
  proof -
    obtain r where "admit plain_env (root_logger silenced_system 0) INFO ''m'' = Some (False, r)"
      by (simp add: admit_def root l zero_logger_def int32_level_def level_consts Let_def)
    then show ?thesis
      by (simp add: Logger_Info_def internalLog_def update_root_def silenced_system_def empty_system_def empty_world_def)
  qed
  have len: "0 < length (loggers silenced_system)" by (simp add: silenced_system_def)
  have out: "lg_out ?l = Sink 1 False None" and fb: "simple_fallback (lg_fallbackWriter ?l)"
    and mw: "run_middleware (lg_middleware ?l) m = Some m" for m
    by (simp_all add: l zero_logger_def simple_fallback_def)
  obtain entry seen c where asm: "assemble plain_env ?l INFO ''m'' [] (eventCounter silenced_system) = (entry, seen, c)"
    by (rule prod_cases3)
  have "slog_Handle quiet_sinks plain_env (NewSlogHandler (Some 0)) (demo_record []) silenced_system =
      Some (writeEntry quiet_sinks plain_env 0 INFO ''m'' [] silenced_system)"
    by (simp add: slog_Handle_def slog_fields_def demo_record_def NewSlogHandler_def root l zero_logger_def
        mergeFields_def slogLevelToLevel_def slog_levels)
  moreover have "io (the_world (writeEntry quiet_sinks plain_env 0 INFO ''m'' [] silenced_system)) =
      [EvWrite 1 (render plain_env ?l entry)]"
    using writeEntry_io [OF len out fb asm mw, of quiet_sinks]
    by (simp add: write_events_def quiet_sinks_def l zero_logger_def level_consts silenced_system_def
        empty_system_def empty_world_def)
  ultimately show ?thesis using log by blast
qed

end
