(* ===== verification/LogGlobal.thy ===== *)
theory LogGlobal
  imports LogSlog
begin

text \<open>
  \<open>global.go\<close>, \<open>context.go\<close>, \<open>env.go\<close> and \<open>timing.go\<close>: the process-wide default logger, loggers in
  contexts, configuration from the environment, and timers.
\<close>

section \<open>The default logger\<close>

text \<open>
  The global pointer (\<open>None\<close> is nil) and the handler that \<open>slog.Default\<close> has (\<open>None\<close> for slog's own), on top
  of the system.
  The writer for standard error is an argument.
\<close>

record process =
  sys :: system
  defaultLogger :: "nat option"
  slog_default :: "slog_handler option"

definition Default :: "writer \<Rightarrow> process \<Rightarrow> nat \<times> process" where
  "Default stderr p =
     (case defaultLogger p of
        Some l \<Rightarrow> (l, p)
      | None \<Rightarrow> (let (l, s) = New stderr INFO [] (sys p) in (l, p\<lparr>sys := s\<rparr>)))"

text \<open>Setting a default, which may be nil, is two atomic actions: the store (or swap) of the pointer, and
  \<open>slog.SetDefault\<close>.\<close>

definition store_default :: "nat option \<Rightarrow> process \<Rightarrow> process" where
  "store_default l p = p\<lparr>defaultLogger := l\<rparr>"

definition store_slog :: "nat option \<Rightarrow> process \<Rightarrow> process" where
  "store_slog l p = p\<lparr>slog_default := Some (NewSlogHandler l)\<rparr>"

definition SetDefault :: "nat option \<Rightarrow> process \<Rightarrow> process" where
  "SetDefault l p = store_slog l (store_default l p)"

definition ReplaceDefault :: "nat option \<Rightarrow> process \<Rightarrow> nat option \<times> process" where
  "ReplaceDefault l p = (let prev = defaultLogger p in (prev, store_slog l (store_default l p)))"

section \<open>Loggers in contexts\<close>

definition WithLogger :: "nat option \<Rightarrow> go_context \<Rightarrow> go_context" where
  "WithLogger l ctx = ctx\<lparr>ctx_logger := Some l\<rparr>"

definition FromContext :: "writer \<Rightarrow> go_context option \<Rightarrow> process \<Rightarrow> nat option \<times> process" where
  "FromContext stderr ctx p =
     (case ctx of
        None \<Rightarrow> map_prod Some id (Default stderr p)
      | Some c \<Rightarrow>
          (case ctx_logger c of
             Some l \<Rightarrow> (l, p)
           | None \<Rightarrow> map_prod Some id (Default stderr p)))"

section \<open>Configuration from the environment\<close>

text \<open>\<open>os.Getenv\<close> gives the empty string for a variable that is not set.\<close>

definition env_level :: "string \<Rightarrow> option_fun" where
  "env_level lvl l =
     (if lvl \<noteq> [] then
        (let (parsed, ok) = parseLevel lvl in if ok then l\<lparr>lg_minLevel := level_int32 parsed\<rparr> else l)
      else l)"

definition env_format :: "string \<Rightarrow> option_fun" where
  "env_format fmt l =
     (if fmt \<noteq> [] then
        (if to_lower fmt = ''json'' then l\<lparr>lg_formatter := JSONFormatter []\<rparr>
         else if to_lower fmt = ''text'' then l\<lparr>lg_formatter := TextFormatter False []\<rparr>
         else if to_lower fmt = ''logfmt'' then l\<lparr>lg_formatter := LogfmtFormatter []\<rparr>
         else l)
      else l)"

definition WithEnvConfig :: "(string \<Rightarrow> string) \<Rightarrow> option_fun" where
  "WithEnvConfig getenv l = env_format (getenv ''LOG_FORMAT'') (env_level (getenv ''LOG_LEVEL'') l)"

section \<open>Timers\<close>

text \<open>
  Go's \<open>float64\<close> arithmetic in \<open>duration_ms\<close>: the nearest double of a positive fraction (ties to even),
  in the range of normal numbers, and of an integer of at most 54 bits.
\<close>

fun bit_len :: "nat \<Rightarrow> nat" where
  "bit_len n = (if n = 0 then 0 else Suc (bit_len (n div 2)))"

declare bit_len.simps [simp del]

definition round_half_even :: "nat \<Rightarrow> nat \<Rightarrow> nat" where
  "round_half_even n d =
     (let q = n div d; r = n mod d
      in if d < 2 * r \<or> 2 * r = d \<and> odd q then q + 1 else q)"

definition double_of_ratio :: "nat \<Rightarrow> nat \<Rightarrow> 64 word" where
  "double_of_ratio n d =
     (if n = 0 then 0
      else (let s = 53 + int (bit_len d) - int (bit_len n);
                num = n * 2 ^ nat s; den = d * 2 ^ nat (- s);
                (s, den) = (if 2 ^ 53 \<le> num div den then (s - 1, 2 * den) else (s, den))
            in of_int ((1075 - s) * 2 ^ 52 + int (round_half_even num den) - 2 ^ 52)))"

definition int_as_double :: "nat \<Rightarrow> nat" where
  "int_as_double n = (if n < 2 ^ 53 then n else 2 * round_half_even n 2)"

text \<open>\<open>float64(time.Since(start).Microseconds()) / 1000.0\<close> for an elapsed time in nanoseconds.\<close>

definition duration_ms :: "nat \<Rightarrow> 64 word" where
  "duration_ms ns = double_of_ratio (int_as_double (ns div 1000)) 1000"

text \<open>The functions that \<open>Timed\<close> and \<open>TimedContext\<close> return, called when \<open>ns\<close> nanoseconds have passed.\<close>

definition Timed ::
  "nat \<Rightarrow> string \<Rightarrow> sinks \<Rightarrow> call_env \<Rightarrow> nat \<Rightarrow> system \<Rightarrow> system option" where
  "Timed a operation env ce ns s =
     Logger_Info env ce a operation [(''duration_ms'', VFloat64 (duration_ms ns))] s"

definition TimedContext ::
  "nat \<Rightarrow> go_context option \<Rightarrow> string \<Rightarrow> sinks \<Rightarrow> call_env \<Rightarrow> nat \<Rightarrow> system \<Rightarrow> system option" where
  "TimedContext a ctx operation env ce ns s =
     Logger_InfoContext env ce a ctx operation [(''duration_ms'', VFloat64 (duration_ms ns))] s"

section \<open>Properties\<close>

text \<open>A logger stored in a context is found there, whatever the default is; without one, and without a
  context, \<open>FromContext\<close> is \<open>Default\<close>, which is the logger last set, also for slog;
  \<open>ReplaceDefault\<close> gives back the one before, and setting that restores it.\<close>

theorem context_and_default_loggers:
  "FromContext stderr (Some (WithLogger l c)) p = (l, p) \<and>
   FromContext stderr None p = (Some (fst (Default stderr p)), snd (Default stderr p)) \<and>
   Default stderr (SetDefault (Some a) p) = (a, SetDefault (Some a) p) \<and>
   slog_default (SetDefault l p) = Some (NewSlogHandler l) \<and>
   ReplaceDefault k (SetDefault l p) = (l, SetDefault k p) \<and>
   SetDefault l (snd (ReplaceDefault k (SetDefault l p))) = SetDefault l p"
  by (simp add: FromContext_def WithLogger_def Default_def SetDefault_def ReplaceDefault_def store_default_def
      store_slog_def map_prod_def split_def)

text \<open>Putting back what \<open>ReplaceDefault\<close> returned does not put things back when no default was set: it returned nil,
  so slog is left with a handler of a nil logger, and everything that anyone logs through slog panics from then on,
  whatever slog's default was before.\<close>

theorem restoring_nil_default:
  assumes "defaultLogger p = None" and "ReplaceDefault (Some l) p = (prev, q)"
  shows "prev = None \<and> defaultLogger (SetDefault prev q) = None \<and>
    (\<exists>h. slog_default (SetDefault prev q) = Some h \<and>
       slog_Enabled h level s = None \<and> slog_Handle env ce h rec s = None)"
  using assms
  by (auto simp: ReplaceDefault_def SetDefault_def store_default_def store_slog_def NewSlogHandler_def
      slog_Enabled_def slog_Handle_def Let_def split: option.split)

theorem restoring_nil_default_witness:
  "\<exists>q h. ReplaceDefault (Some 0) \<lparr>sys = empty_system, defaultLogger = None, slog_default = None\<rparr> = (None, q) \<and>
     slog_default (SetDefault None q) = Some h \<and> slog_Enabled h 0 empty_system = None"
proof -
  let ?p = "\<lparr>sys = empty_system, defaultLogger = None, slog_default = None\<rparr>"
  obtain q where q: "ReplaceDefault (Some 0) ?p = (None, q)" by (simp add: ReplaceDefault_def)
  show ?thesis
    using restoring_nil_default [where level = 0 and s = empty_system and env = quiet_sinks and ce = plain_env and rec = "demo_record []", OF _ q]
      q by auto
qed

text \<open>Two goroutines that set different defaults: in some interleaving of their actions the default logger ends
  up as the one, while slog's default routes to the other, and it stays so.\<close>

theorem SetDefault_race:
  "\<exists>acts \<in> shuffles [store_default a, store_slog a] [store_default b, store_slog b].
     let q = fold (\<lambda>act. act) acts p
     in defaultLogger q = a \<and> slog_default q = Some (NewSlogHandler b)"
  by (simp add: store_default_def store_slog_def)

text \<open>While no default is set, every call of \<open>Default\<close> makes a new logger, so a level set on it is
  lost: the next call gives a logger at \<open>INFO\<close> again.\<close>

theorem unset_default_forgets_level:
  assumes "defaultLogger p = None" and "Default stderr p = (l, p')"
    and "Default stderr (p'\<lparr>sys := SetLevel l level (sys p')\<rparr>) = (l', p'')"
  shows "l' \<noteq> l \<and> GetLevel l' (sys p'') = INFO"
proof -
  have fresh: "GetLevel (length (loggers s)) (snd (New stderr INFO [] s)) = INFO" for s
    by (simp add: New_def add_logger_def GetLevel_def root_def zero_logger_def level_int32_def
        int32_level_def level_consts)
  have p': "l = length (loggers (sys p))" "defaultLogger p' = None"
      "length (loggers (sys p')) = Suc (length (loggers (sys p)))"
    using assms(1,2) by (auto simp: Default_def New_def add_logger_def)
  let ?s = "SetLevel l level (sys p')"
  have len: "length (loggers ?s) = Suc l" by (simp add: SetLevel_def update_root_def p')
  have "l' = length (loggers ?s)" "sys p'' = snd (New stderr INFO [] ?s)"
    using assms(3) p'(2) by (auto simp: Default_def New_def add_logger_def)
  then show ?thesis using fresh [of ?s] len by simp
qed

theorem unset_default_forgets_level_witness:
  "let p = \<lparr>sys = empty_system, defaultLogger = None, slog_default = None\<rparr>;
       (l, p') = Default Discard p;
       (l', p'') = Default Discard (p'\<lparr>sys := SetLevel l TRACE (sys p')\<rparr>)
   in GetLevel l' (sys p'') = INFO"
proof -
  let ?p = "\<lparr>sys = empty_system, defaultLogger = None, slog_default = None\<rparr>"
  let ?q = "snd (Default Discard ?p)"
  let ?l = "fst (Default Discard ?p)"
  let ?r = "Default Discard (?q\<lparr>sys := SetLevel ?l TRACE (sys ?q)\<rparr>)"
  have "GetLevel (fst ?r) (sys (snd ?r)) = INFO"
    using unset_default_forgets_level [of ?p Discard ?l ?q TRACE "fst ?r" "snd ?r"] by simp
  then show ?thesis by (simp add: Let_def split_def)
qed

text \<open>The environment sets the level exactly when \<open>LOG_LEVEL\<close> names one, in any letter case, and the
  formatter exactly for the three names; anything else leaves the logger as it was configured.\<close>

theorem WithEnvConfig_settings:
  "GetLevel 0 (empty_system\<lparr>loggers := [WithEnvConfig getenv zero_logger]\<rparr>) =
     (if snd (parseLevel (getenv ''LOG_LEVEL'')) then fst (parseLevel (getenv ''LOG_LEVEL'')) else TRACE) \<and>
   lg_formatter (WithEnvConfig getenv l) =
     (case map_of [(''json'', JSONFormatter []), (''text'', TextFormatter False []), (''logfmt'', LogfmtFormatter [])]
             (to_lower (getenv ''LOG_FORMAT'')) of
        Some f \<Rightarrow> f | None \<Rightarrow> lg_formatter l) \<and>
   (to_lower (getenv ''LOG_FORMAT'') \<notin> {''json'', ''text'', ''logfmt''} \<and> \<not> snd (parseLevel (getenv ''LOG_LEVEL'')) \<longrightarrow>
      WithEnvConfig getenv l = l)"
proof -
  have parsed: "int32_level (level_int32 (fst (parseLevel x))) = fst (parseLevel x)" for x
  proof (rule level_int32_id)
    show "- (2 ^ 31) \<le> level_int (fst (parseLevel x))" "level_int (fst (parseLevel x)) < 2 ^ 31"
      by (simp_all add: parseLevel_def Let_def level_consts)
  qed
  have lower_Nil: "to_lower [] = []" by (simp add: to_lower_def)
  have empty: "snd (parseLevel []) = False"
    by (simp add: parseLevel_def Let_def to_lower_def)
  have kept: "lg_minLevel (env_format f r) = lg_minLevel r" "lg_parent (env_format f r) = lg_parent r"
      "lg_parent (env_level x r) = lg_parent r" for f x r
    by (simp_all add: env_format_def env_level_def split_def Let_def)
  have "int32_level 0 = TRACE" by (simp add: int32_level_def TRACE_def)
  then have "GetLevel 0 (empty_system\<lparr>loggers := [WithEnvConfig getenv zero_logger]\<rparr>) =
      (if snd (parseLevel (getenv ''LOG_LEVEL'')) then fst (parseLevel (getenv ''LOG_LEVEL'')) else TRACE)"
    using empty parsed
    by (simp add: GetLevel_def root_def WithEnvConfig_def kept zero_logger_def)
      (auto simp: env_level_def split_def Let_def)
  moreover have "WithEnvConfig getenv l = l"
    if "to_lower (getenv ''LOG_FORMAT'') \<notin> {''json'', ''text'', ''logfmt''}" "\<not> snd (parseLevel (getenv ''LOG_LEVEL''))"
    using that by (simp add: WithEnvConfig_def env_level_def env_format_def split_def Let_def)
  moreover have "lg_formatter (WithEnvConfig getenv l) =
     (case map_of [(''json'', JSONFormatter []), (''text'', TextFormatter False []), (''logfmt'', LogfmtFormatter [])]
             (to_lower (getenv ''LOG_FORMAT'')) of
        Some f \<Rightarrow> f | None \<Rightarrow> lg_formatter l)"
    using lower_Nil by (auto simp: WithEnvConfig_def env_format_def env_level_def split_def Let_def)
  ultimately show ?thesis by blast
qed

theorem WithEnvConfig_settings_witness:
  "WithEnvConfig (\<lambda>_. ''yaml'') zero_logger = zero_logger"
proof -
  have "to_lower ''yaml'' = ''yaml''" by (simp add: to_lower_ascii lower_rune_def)
  then have "to_lower ''yaml'' \<notin> {''json'', ''text'', ''logfmt''}" "\<not> snd (parseLevel ''yaml'')"
    by (simp_all add: parseLevel_def)
  then show ?thesis using WithEnvConfig_settings [of "\<lambda>_. ''yaml''" zero_logger] by blast
qed

end
