(* ===== verification/LogTest.thy ===== *)
theory LogTest
  imports CallCorrect
begin

text \<open>
  \<open>logtest/logtest.go\<close>: the handler that captures entries for tests, the logger for tests, and the
  assertions. \<open>json.Unmarshal\<close> into a map is the reader of \<open>JsonText\<close> with the last of equal keys
  kept; values stay as parsed JSON, so a number that no \<open>float64\<close> can hold is kept and is not an error.
\<close>

section \<open>Capturing\<close>

record test_record =
  tr_Level :: string
  tr_Message :: string
  tr_Fields :: "json gomap"

definition unmarshal_map :: "string \<Rightarrow> json gomap option" where
  "unmarshal_map p =
     (case read_json p of
        Some (JObj ms) \<Rightarrow> Some (fold (\<lambda>(k, v). put k v) ms [])
      | Some JNull \<Rightarrow> Some []
      | _ \<Rightarrow> None)"

text \<open>\<open>strings.TrimSpace\<close>: the runes at both ends that are white space.\<close>

definition is_space_rune :: "nat \<Rightarrow> bool" where
  "is_space_rune r \<longleftrightarrow>
     9 \<le> r \<and> r \<le> 13 \<or> r = 32 \<or> r = 0x85 \<or> r = 0xA0 \<or> r = 0x1680 \<or> 0x2000 \<le> r \<and> r \<le> 0x200A \<or>
     r = 0x2028 \<or> r = 0x2029 \<or> r = 0x202F \<or> r = 0x205F \<or> r = 0x3000"

definition TrimSpace :: "string \<Rightarrow> string" where
  "TrimSpace s =
     (let space = (\<lambda>(r, n). is_space_rune r);
          left = sum_list (map snd (takeWhile space (runes s)));
          t = drop left s;
          right = sum_list (map snd (takeWhile space (rev (runes t))))
      in take (length t - right) t)"

definition json_text :: "json option \<Rightarrow> string" where
  "json_text j = (case j of Some (JStr s) \<Rightarrow> s | _ \<Rightarrow> [])"

definition TestHandler_Write :: "string \<Rightarrow> test_record list \<Rightarrow> write_result \<times> test_record list" where
  "TestHandler_Write p records =
     (case unmarshal_map p of
        None \<Rightarrow> ((length p, None), records @ [\<lparr>tr_Level = [], tr_Message = TrimSpace p, tr_Fields = []\<rparr>])
      | Some raw \<Rightarrow>
          ((length p, None),
           records @ [\<lparr>tr_Level = json_text (map_of raw ''level''),
                       tr_Message = json_text (map_of raw ''message''), tr_Fields = raw\<rparr>]))"

definition Records :: "test_record list \<Rightarrow> test_record list" where
  "Records records = records"

definition Len :: "test_record list \<Rightarrow> nat" where
  "Len records = length records"

definition Reset :: "test_record list \<Rightarrow> test_record list" where
  "Reset records = take 0 records"

text \<open>The handler is the sink \<open>i\<close> of the logger; what it captures are the writes to that sink.\<close>

definition NewTestLogger :: "nat \<Rightarrow> system \<Rightarrow> nat \<times> system" where
  "NewTestLogger i s = New (Sink i False None) TRACE [] s"

fun captured :: "nat \<Rightarrow> io_event list \<Rightarrow> test_record list \<Rightarrow> test_record list" where
  "captured i [] records = records"
| "captured i (EvWrite j p # h) records =
     captured i h (if j = i then snd (TestHandler_Write p records) else records)"
| "captured i (_ # h) records = captured i h records"

text \<open>\<open>tWriter\<close> passes the line without its trailing newlines to \<open>t.Log\<close>.\<close>

definition tWriter_Write :: "string \<Rightarrow> string list \<Rightarrow> write_result \<times> string list" where
  "tWriter_Write p logged =
     ((length p, None), logged @ [rev (dropWhile (\<lambda>c. c = newline) (rev p))])"

definition NewTLogger :: "nat \<Rightarrow> system \<Rightarrow> nat \<times> system" where
  "NewTLogger i s = New (Sink i False None) TRACE [] s"

section \<open>Assertions\<close>

text \<open>Whether the assertion passes; a failing one reports the records.\<close>

fun AssertLogged :: "test_record list \<Rightarrow> string \<Rightarrow> string \<Rightarrow> bool" where
  "AssertLogged [] level sub = False"
| "AssertLogged (r # rs) level sub =
     (if tr_Level r = level \<and> contains_str (tr_Message r) sub then True else AssertLogged rs level sub)"

fun AssertNotLogged :: "test_record list \<Rightarrow> string \<Rightarrow> string \<Rightarrow> bool" where
  "AssertNotLogged [] level sub = True"
| "AssertNotLogged (r # rs) level sub =
     (if tr_Level r = level \<and> contains_str (tr_Message r) sub then False else AssertNotLogged rs level sub)"

definition summarize :: "test_record list \<Rightarrow> string list" where
  "summarize records = map (\<lambda>r. tr_Level r @ '': '' @ tr_Message r) records"

lemma AssertNotLogged_iff: "AssertNotLogged rs level sub \<longleftrightarrow> \<not> AssertLogged rs level sub"
  by (induction rs) auto

lemma AssertLogged_append:
  "AssertLogged (rs @ [r]) level sub \<longleftrightarrow>
     AssertLogged rs level sub \<or> tr_Level r = level \<and> contains_str (tr_Message r) sub"
  by (induction rs) auto

lemma captured_append: "captured i (g @ h) records = captured i h (captured i g records)"
  by (induction i g records rule: captured.induct) auto

lemma captured_no_write: "\<forall>e \<in> set h. \<forall>j p. e \<noteq> EvWrite j p \<Longrightarrow> captured i h records = records"
  by (induction i h records rule: captured.induct) auto

section \<open>What a test sees\<close>

lemma valid_utf8_ascii [simp]: "bval c < 0x80 \<Longrightarrow> valid_utf8 (c # s) \<longleftrightarrow> valid_utf8 s"
  by (simp add: valid_utf8_step [of "c # s"] rune_error_def)

lemma valid_reserved: "k \<in> set reservedKeys \<Longrightarrow> valid_utf8 k"
  by (auto simp: reservedKeys_def)

lemma valid_entry_key: "valid_utf8 k \<Longrightarrow> valid_utf8 (entry_key k)"
  by (simp add: entry_key_def)

lemma keys_add_fields: "set (keys (add_fields fs entry)) = entry_key ` set (keys fs) \<union> set (keys entry)"
  unfolding add_fields_entry_key
  by (induction fs arbitrary: entry) (auto simp: keys_put simp del: set_map)

lemma assemble_keys:
  assumes "assemble ce r level message fs counter = (entry, seen, c)"
    and "\<forall>k \<in> set (keys (final_fields fs)). valid_utf8 k" and "k \<in> set (keys entry)"
  shows "valid_utf8 k"
proof -
  have "set (keys (start_entry ce r level message counter)) \<subseteq> set reservedKeys"
  proof
    fix x assume "x \<in> set (keys (start_entry ce r level message counter))"
    then have "map_of (start_entry ce r level message counter) x \<noteq> None" by (simp add: map_of_eq_None_iff)
    then show "x \<in> set reservedKeys"
      using core_value_reserved by (auto simp: start_entry_lookup split: if_splits)
  qed
  moreover have "set (keys (finish_entry ce r level m)) \<subseteq> insert ''stacktrace'' (set (keys m))" for m
    by (auto simp: finish_entry_def keys_put simp del: set_map)
  moreover have "''stacktrace'' \<in> set reservedKeys" by (simp add: reservedKeys_def)
  ultimately have "set (keys entry) \<subseteq> set reservedKeys \<union> entry_key ` set (keys (final_fields fs))"
    using keys_add_fields [of "final_fields fs" "start_entry ce r level message counter"]
    unfolding assembleD(1) [OF assms(1)] by blast
  with assms(2,3) valid_reserved valid_entry_key show ?thesis by blast
qed

lemma assemble_ok: "assemble ce r level message fs counter = (entry, seen, c) \<Longrightarrow> gomap_ok entry"
  by (drule assembleD(1)) (simp add: finish_entry_def start_entry_def add_fields_ok core_entry_ok)

lemma map_of_sort_key:
  assumes "gomap_ok m"
  shows "map_of (sort_key fst m) = map_of m"
  using assms by (simp add: map_of_inject_set gomap_ok_def distinct_map inj_on_def)

lemma to_valid_level_String [simp]: "to_valid (level_String l) = level_String l"
proof -
  have "list_all (\<lambda>n. to_valid n = n) [''TRACE'', ''DEBUG'', ''INFO'', ''WARNING'', ''ERROR'', ''FATAL'', ''UNKNOWN'']"
    by code_simp
  then have names: "\<forall>n \<in> set [''TRACE'', ''DEBUG'', ''INFO'', ''WARNING'', ''ERROR'', ''FATAL'', ''UNKNOWN'']. to_valid n = n"
    by (simp only: list_all_iff)
  have "level_String l \<in> set [''TRACE'', ''DEBUG'', ''INFO'', ''WARNING'', ''ERROR'', ''FATAL'', ''UNKNOWN'']"
    by (simp add: level_String_def)
  then show ?thesis by (rule bspec [OF names])
qed

text \<open>The map that \<open>json.Unmarshal\<close> gives for the line of an entry whose keys are UTF-8.\<close>

lemma unmarshal_entry:
  assumes "read_json line = Some (JObj (map (\<lambda>(k, v). (to_valid k, json_of v)) (sort_key fst entry)))"
    and "gomap_ok entry" and "\<And>k. k \<in> set (keys entry) \<Longrightarrow> valid_utf8 k"
  shows "\<exists>raw. unmarshal_map line = Some raw \<and> (\<forall>k. map_of raw k = map_option json_of (map_of entry k))"
proof -
  let ?ms = "map (\<lambda>(k, v). (k, json_of v)) (sort_key fst entry)"
  have eq: "map (\<lambda>(k, v). (to_valid k, json_of v)) (sort_key fst entry) = ?ms"
    using assms(3) by (auto intro!: to_valid_valid) (force)
  have "distinct (map fst (sort_key fst entry))" using assms(2) by (simp add: gomap_ok_def distinct_map)
  then have ok: "gomap_ok ?ms" by (simp add: gomap_ok_def split_def comp_def)
  have "map_of (fold (\<lambda>(k, v). put k v) ?ms []) = map_of ?ms"
    using fold_put_lookup [OF ok, of "[]"] by (simp only: map_of.simps(1) empty_map_add)
  also have "\<dots> = (\<lambda>k. map_option json_of (map_of entry k))"
    by (simp only: map_of_map map_of_sort_key [OF assms(2)] comp_def)
  finally have "map_of (fold (\<lambda>(k, v). put k v) ?ms []) = (\<lambda>k. map_option json_of (map_of entry k))" .
  then show ?thesis using assms(1) by (simp add: unmarshal_map_def eq)
qed

lemma captured_line:
  assumes "io w = h @ EvWrite i line # rest" and "\<forall>e \<in> set rest. \<forall>j p. e \<noteq> EvWrite j p"
    and "unmarshal_map line = Some raw"
  shows "captured i (io w) [] = captured i h [] @
    [\<lparr>tr_Level = json_text (map_of raw ''level''), tr_Message = json_text (map_of raw ''message''), tr_Fields = raw\<rparr>]"
  using assms by (simp add: captured_append captured_no_write TestHandler_Write_def)

section \<open>Properties\<close>

text \<open>A test sees what was logged: for a root logger that writes to the test handler in the default
  format and without middleware, an admitted call with UTF-8 text and fields that are well-formed JSON
  once encoded adds exactly one record; its level and message are the call's, and its fields are
  the assembled entry's, each as the JSON value of the Go value.\<close>

theorem test_handler_captures:
  assumes "a < length (loggers s)" and "lg_parent (logger_at s a) = None"
    and "lg_out (logger_at s a) = Sink i sy fd" and "lg_fallbackWriter (logger_at s a) = None"
    and "lg_formatter (logger_at s a) = JSONFormatter []" and "lg_middleware (logger_at s a) = []"
    and "admit ce (logger_at s a) level message = Some (True, r)"
    and "all_values json_ok (final_fields (mergeFields (lg_fields (logger_at s a)) fs))"
    and "all_values json_clean (final_fields (mergeFields (lg_fields (logger_at s a)) fs))"
    and "\<forall>k \<in> set (keys (final_fields (mergeFields (lg_fields (logger_at s a)) fs))). valid_utf8 k"
    and "valid_utf8 message"
  shows "\<exists>s' raw entry seen c. internalLog env ce a level message fs s = Some s' \<and>
    captured i (io (the_world s')) [] = captured i (io (the_world s)) [] @
      [\<lparr>tr_Level = level_String level, tr_Message = message, tr_Fields = raw\<rparr>] \<and>
    assemble ce r level message (mergeFields (lg_fields (logger_at s a)) fs) (eventCounter s) = (entry, seen, c) \<and>
    (\<forall>k. map_of raw k = map_option json_of (map_of entry k))"
proof -
  obtain s' out rest entry seen c where call: "internalLog env ce a level message fs s = Some s'"
    and asm: "assemble ce r level message (mergeFields (lg_fields (logger_at s a)) fs) (eventCounter s) = (entry, seen, c)"
    and line: "io (the_world s') = io (the_world s) @ EvWrite i (out @ [newline]) # rest"
      "read_json (out @ [newline]) = Some (JObj (map (\<lambda>(k, v). (to_valid k, json_of v)) (sort_key fst entry)))"
      "\<forall>e \<in> set rest. \<forall>j line. e \<noteq> EvWrite j line"
    using logged_line [OF assms(1-9)] by blast
  obtain raw where raw: "unmarshal_map (out @ [newline]) = Some raw"
      "\<forall>k. map_of raw k = map_option json_of (map_of entry k)"
    using unmarshal_entry [OF line(2) assemble_ok [OF asm] assemble_keys [OF asm assms(10)]] by blast
  have "map_of entry ''level'' = Some (VString (level_String level))"
    "map_of entry ''message'' = Some (VString message)"
    unfolding assembleD(1) [OF asm]
    by (simp_all add: finish_entry_lookup add_fields_reserved reservedKeys_def start_entry_lookup core_value_def)
  with raw(2) assms(11) captured_line [OF line(1,3) raw(1)] call asm show ?thesis
    by (simp add: json_text_def to_valid_valid)
qed

theorem test_handler_captures_witness:
  "let (l, s) = NewTestLogger 0 empty_system
   in \<exists>s' raw. internalLog quiet_sinks plain_env l INFO ''hi'' [(''n'', VInt 3)] s = Some s' \<and>
        captured 0 (io (the_world s')) [] = [\<lparr>tr_Level = ''INFO'', tr_Message = ''hi'', tr_Fields = raw\<rparr>]"
proof -
  let ?r = "zero_logger\<lparr>lg_out := Sink 0 False None\<rparr>"
  let ?s = "empty_system\<lparr>loggers := [?r]\<rparr>"
  have New: "NewTestLogger 0 empty_system = (0, ?s)"
    by (simp add: NewTestLogger_def New_def add_logger_def empty_system_def zero_logger_def level_int32_def TRACE_def)
  have fields: "final_fields (mergeFields (lg_fields (logger_at ?s 0)) [(''n'', VInt 3)]) = [(''n'', VInt 3)]"
    by (simp add: zero_logger_def mergeFields_def final_fields_def resolveLogValuers_def enrichErrors_def)
  have "admit plain_env (logger_at ?s 0) INFO ''hi'' = Some (True, ?r)"
    by (simp add: admit_def zero_logger_def int32_level_def level_consts)
  moreover have "lg_parent (logger_at ?s 0) = None" "lg_out (logger_at ?s 0) = Sink 0 False None"
    "lg_fallbackWriter (logger_at ?s 0) = None" "lg_formatter (logger_at ?s 0) = JSONFormatter []"
    "lg_middleware (logger_at ?s 0) = []" "0 < length (loggers ?s)"
    by (simp_all add: zero_logger_def)
  moreover have "all_values json_ok [(''n'', VInt 3)]" "all_values json_clean [(''n'', VInt 3)]"
    "\<forall>k \<in> set (keys [(''n'', VInt 3)]). valid_utf8 k" "valid_utf8 ''hi''"
    by (simp_all add: all_values_def)
  ultimately obtain s' raw where "internalLog quiet_sinks plain_env 0 INFO ''hi'' [(''n'', VInt 3)] ?s = Some s'"
    "captured 0 (io (the_world s')) [] = captured 0 (io (the_world ?s)) [] @
      [\<lparr>tr_Level = level_String INFO, tr_Message = ''hi'', tr_Fields = raw\<rparr>]"
    using test_handler_captures [of 0 ?s 0 False None plain_env INFO "''hi''" ?r "[(''n'', VInt 3)]" quiet_sinks]
    unfolding fields by blast
  then show ?thesis unfolding New by (simp add: empty_system_def empty_world_def level_String_def level_consts)
qed

text \<open>\<open>AssertLogged\<close> passes exactly when some record has the level and contains the text, and
  \<open>AssertNotLogged\<close> exactly when none has; after \<open>Reset\<close> nothing was logged; a handler whose input
  is not JSON still records it, without a level.\<close>

theorem assertions_decide:
  "(AssertLogged rs level sub \<longleftrightarrow>
      (\<exists>r \<in> set (Records rs). tr_Level r = level \<and> sublist sub (tr_Message r))) \<and>
   (AssertNotLogged rs level sub \<longleftrightarrow> \<not> AssertLogged rs level sub) \<and>
   AssertNotLogged (Reset rs) level sub \<and> Len (Reset rs) = 0 \<and>
   Len (snd (TestHandler_Write p rs)) = Suc (Len rs) \<and> fst (TestHandler_Write p rs) = (length p, None)"
proof -
  have "AssertLogged rs level sub \<longleftrightarrow> (\<exists>r \<in> set rs. tr_Level r = level \<and> sublist sub (tr_Message r))"
    by (induction rs) (auto simp: contains_str_iff)
  then show ?thesis
    by (simp add: AssertNotLogged_iff Records_def Reset_def Len_def TestHandler_Write_def split: option.split)
qed

end
