(* ===== verification/LogExit.thy ===== *)
theory LogExit
  imports LogConcurrent LogDeliver
begin

text \<open>
  The end of the process. \<open>writeEntry\<close> calls the exit function after a \<open>FATAL\<close> entry, with the mutex held.
  \<open>os.Exit\<close> ends the process there: no thread takes another step, deferred calls included. The tests put a function
  of their own in its place (\<open>withExitFunc\<close>); when that returns, the call goes on and releases the mutex.
\<close>

section \<open>Processes\<close>

fun ends_process :: "io_event \<Rightarrow> bool" where
  "ends_process (EvExit OsExit code) \<longleftrightarrow> True"
| "ends_process _ \<longleftrightarrow> False"

abbreviation process_ended :: "world \<Rightarrow> bool" where
  "process_ended w \<equiv> list_ex ends_process (io w)"

text \<open>The steps of the threads while the process runs.\<close>

inductive pstep :: "sinks \<Rightarrow> shared \<Rightarrow> label \<Rightarrow> shared \<Rightarrow> bool" for env where
  "cstep env s l s' \<Longrightarrow> \<not> process_ended (sinks_world s) \<Longrightarrow> pstep env s l s'"

inductive_simps pstep_simps: "pstep env s l s'"

lemma pstep_trace: "trace (pstep env) s es s' \<Longrightarrow> trace (cstep env) s es s'"
  by (induction rule: trace.induct) (auto simp: pstep_simps intro: trace.intros)

section \<open>Which operations call the exit function\<close>

text \<open>The history grows, and by calls that do not end the process.\<close>

abbreviation grows :: "world \<Rightarrow> world \<Rightarrow> bool" where
  "grows \<equiv> adds_only (\<lambda>e. \<not> ends_process e)"

lemmas grows_trans = adds_only_trans [where P = "\<lambda>e. \<not> ends_process e"]

lemma grows_ended: "grows w w' \<Longrightarrow> process_ended w' \<longleftrightarrow> process_ended w"
  by (auto simp: adds_only_def list_ex_iff list_all_iff)

lemma grows_line: "grows w (snd (write_line env r line w))"
  using adds_only_line by simp

lemma grows_hooks: "grows w (run_hooks hs l m fs w)"
  using adds_only_hooks by simp

lemma grows_flush: "grows w (flush_out env r w)"
  by (simp add: flush_out_def adds_only_sync)

lemma exit_fatal_io: "\<exists>es. io (exit_fatal env r w) = io w @ es @ [EvExit (lg_exitFunc r) 1] \<and> \<not> list_ex ends_process es"
  using adds_only_sync(1) [of "\<lambda>e. \<not> ends_process e" w env "lg_out r"]
  by (auto simp: exit_fatal_def log_event_def adds_only_def list_ex_iff list_all_iff Let_def)

lemma exit_fatal_ends: "process_ended (exit_fatal env r w) \<longleftrightarrow> process_ended w \<or> lg_exitFunc r = OsExit"
  using exit_fatal_io [of env r w] by (cases "lg_exitFunc r") auto

lemma commit_entry_ends:
  "process_ended (commit_entry env r e w) \<longleftrightarrow>
     process_ended w \<or> re_level e = FATAL \<and> lg_exitFunc r = OsExit"
  unfolding commit_entry_def after_hooks_def Let_def
  by (simp add: exit_fatal_ends grows_ended [OF grows_hooks] grows_ended [OF grows_line])

lemma commit_label_ended: "process_ended w \<Longrightarrow> process_ended (commit_label env r l w)"
  by (cases "(env, r, l, w)" rule: commit_label.cases)
    (simp_all add: commit_entry_ends grows_ended [OF grows_flush])

lemma commits_ended: "process_ended w \<Longrightarrow> process_ended (fold (commit_label env r) es w)"
  by (induction es arbitrary: w) (simp_all add: commit_label_ended)

text \<open>Only the call of the exit function ends the process.\<close>

lemma advance_grows:
  assumes "advance env t s = Some s'"
  shows "grows (sinks_world s) (sinks_world s') \<or>
    pcs s t = Exiting \<and> sinks_world s' = exit_fatal env (root_lg s) (sinks_world s) \<and> pcs s' t = Leaving \<and>
    mutex s' = mutex s"
proof (cases "pcs s t")
  case (Writing e)
  then have "sinks_world s' = snd (write_line env (root_lg s) (re_line e) (sinks_world s))"
    using assms by (auto simp: advance_def split: prod.splits)
  then show ?thesis by (simp add: grows_line)
next
  case (Hooking e hs)
  then show ?thesis using assms by (cases hs) (auto simp: advance_def log_event_def adds_only_def)
next
  case Flushing
  then have "sinks_world s' = flush_out env (root_lg s) (sinks_world s)"
    using assms by (auto simp: advance_def flush_out_def Let_def)
  then show ?thesis by (simp add: grows_flush)
qed (use assms in \<open>auto simp: advance_def Let_def split: if_splits option.splits prod.splits\<close>)

lemma cstep_keeps_ended:
  assumes "cstep env s l s'" and "process_ended (sinks_world s)"
  shows "process_ended (sinks_world s')"
  using assms(1)
proof (cases rule: cstep.cases)
  case (run t)
  then show ?thesis using advance_grows [OF run(2)] assms(2) grows_ended exit_fatal_ends by auto
qed (use assms(2) in \<open>auto simp: begin_with_def split: if_splits\<close>)

lemma alive_trace:
  assumes "trace (cstep env) s es u" and "\<not> process_ended (sinks_world u)"
  shows "trace (pstep env) s es u"
  using assms
proof (induction rule: trace.induct)
  case (trace_snoc es t l u)
  then show ?case using cstep_keeps_ended by (blast intro: trace.intros pstep.intros)
qed (simp add: trace.trace_nil)

section \<open>Which step opened the section\<close>

fun opens :: "label \<Rightarrow> bool" where
  "opens (Run t (Ready e)) \<longleftrightarrow> True"
| "opens (Run t Waiting) \<longleftrightarrow> True"
| "opens _ \<longleftrightarrow> False"

fun opened_by :: "nat \<Rightarrow> pc \<Rightarrow> label \<Rightarrow> bool" where
  "opened_by t (Writing e) l \<longleftrightarrow> l = Run t (Ready e)"
| "opened_by t (Hooking e hs) l \<longleftrightarrow> l = Run t (Ready e)"
| "opened_by t Exiting l \<longleftrightarrow> (\<exists>e. l = Run t (Ready e) \<and> re_level e = FATAL)"
| "opened_by t Flushing l \<longleftrightarrow> l = Run t Waiting"
| "opened_by t _ l \<longleftrightarrow> True"

lemma commit_label_closed: "\<not> opens l \<Longrightarrow> commit_label env r l w = w"
  by (cases "(env, r, l, w)" rule: commit_label.cases) simp_all

lemma commits_closed: "list_all (Not \<circ> opens) es \<Longrightarrow> fold (commit_label env r) es w = w"
  by (induction es) (simp_all add: commit_label_closed)

lemma advance_opened:
  assumes "advance env t s = Some s'" and "in_section (pcs s t)" and "opened_by t (pcs s t) l"
  shows "opened_by t (pcs s' t) l \<and> \<not> opens (Run t (pcs s t))"
proof (cases "pcs s t")
  case (Hooking e hs)
  then show ?thesis using assms by (cases hs) (auto simp: advance_def)
qed (use assms in \<open>auto simp: advance_def Let_def split: prod.splits\<close>)

lemma advance_opens:
  assumes "advance env t s = Some s'" and "\<not> in_section (pcs s t)"
  shows "in_section (pcs s' t) \<longleftrightarrow> opens (Run t (pcs s t))"
    and "in_section (pcs s' t) \<Longrightarrow> opened_by t (pcs s' t) (Run t (pcs s t))"
  using assms by (cases "pcs s t"; auto simp: advance_def Let_def split: if_splits option.splits prod.splits)+

definition opened_in :: "nat \<Rightarrow> pc \<Rightarrow> label list \<Rightarrow> bool" where
  "opened_in t p es \<longleftrightarrow> (\<exists>ds l fs. es = ds @ l # fs \<and> opened_by t p l \<and> list_all (Not \<circ> opens) fs)"

lemma opened_in_snoc: "opened_in t p es \<Longrightarrow> \<not> opens l \<Longrightarrow> opened_in t p (es @ [l])"
  unfolding opened_in_def by force

lemma opened_in_step:
  assumes "cstep env s l s'" and "lock_inv s" and "mutex s' = Some t"
    and "mutex s = Some t \<Longrightarrow> opened_in t (pcs s t) es"
  shows "opened_in t (pcs s' t) (es @ [l])"
  using assms(1)
proof (cases rule: cstep.cases)
  case (run u)
  note inv = lock_invD [OF assms(2)] and mv = advance_moves [OF assms(2) run(2)]
  show ?thesis
  proof (cases "u = t")
    case True
    show ?thesis
    proof (cases "in_section (pcs s t)")
      case True
      then have "opened_in t (pcs s t) es" using inv assms(4) by simp
      then obtain ds k fs where "es = ds @ k # fs" "opened_by t (pcs s t) k" "list_all (Not \<circ> opens) fs"
        by (auto simp: opened_in_def)
      then show ?thesis
        using advance_opened [OF run(2)] True \<open>u = t\<close> run(1) unfolding opened_in_def
        by (intro exI [of _ ds] exI [of _ k] exI [of _ "fs @ [l]"]) simp
    next
      case False
      then have "in_section (pcs s' t)" using mv assms(3) \<open>u = t\<close> by (simp add: moves_def)
      then show ?thesis
        using advance_opens(2) [OF run(2)] False \<open>u = t\<close> run(1) unfolding opened_in_def
        by (intro exI [of _ es] exI [of _ l] exI [of _ "[]"]) simp
    qed
  next
    case False
    then have m: "mutex s = Some t" using mv assms(3) by (auto simp: moves_def)
    then have "\<not> in_section (pcs s u)" using inv [of u] False by simp
    moreover have "\<not> in_section (pcs s' u)" using mv assms(3) False by (simp add: moves_def)
    ultimately have "\<not> opens l" using advance_opens(1) [OF run(2)] run(1) by simp
    then show ?thesis
      using opened_in_snoc [OF assms(4) [OF m]] advance_others [OF run(2), of t] False by simp
  qed
next
  case (call u c)
  then have "mutex s = Some t" "pcs s' t = pcs s t" "\<not> opens l"
    using assms(3) lock_invD [OF assms(2), of t] by (auto simp: begin_with_def split: if_splits)
  then show ?thesis using opened_in_snoc assms(4) by simp
next
  case (sync u)
  then have "mutex s = Some t" "pcs s' t = pcs s t" "\<not> opens l"
    using assms(3) lock_invD [OF assms(2), of t] by (auto simp: begin_with_def split: if_splits)
  then show ?thesis using opened_in_snoc assms(4) by simp
next
  case (set_level k)
  then show ?thesis using opened_in_snoc assms(3,4) by simp
qed

lemma section_opened:
  assumes "trace (cstep env) s es s'" and "lock_inv s" and "mutex s = None" and "mutex s' = Some t"
  shows "opened_in t (pcs s' t) es"
  using assms(1,4)
proof (induction arbitrary: t rule: trace.induct)
  case trace_nil
  then show ?case using assms(3) by simp
next
  case (trace_snoc es u l v)
  show ?case
    by (rule opened_in_step [OF trace_snoc.hyps(2) settled_trace(3) [OF trace_snoc.hyps(1) assms(2)] trace_snoc.prems
          trace_snoc.IH])
qed

section \<open>FATAL\<close>

lemma exit_last:
  assumes "trace (pstep env) s es s'" and "lock_inv s" and "mutex s = None"
    and "\<not> process_ended (sinks_world s)" and "process_ended (sinks_world s')"
  shows "lg_exitFunc (root_lg s) = OsExit \<and> (\<exists>ds t e fs. es = ds @ Run t (Ready e) # fs \<and> re_level e = FATAL \<and>
    sinks_world s' = commit_entry env (root_lg s) e (fold (commit_label env (root_lg s)) ds (sinks_world s)) \<and>
    last (io (sinks_world s')) = EvExit OsExit 1 \<and> (\<forall>l u. \<not> pstep env s' l u))"
  using assms(1)
proof (cases rule: trace.cases)
  case (trace_snoc gs u l)
  note tr = pstep_trace [OF trace_snoc(2)]
  have step: "cstep env u l s'" and alive: "\<not> process_ended (sinks_world u)"
    using trace_snoc(3) by (simp_all add: pstep_simps)
  have inv: "lock_inv u" and same: "same_output (root_lg u) (root_lg s)"
    using settled_trace(2,3) [OF tr assms(2)] by simp_all
  obtain t where run: "advance env t u = Some s'" "l = Run t (pcs u t)"
    using step alive assms(5) by (cases rule: cstep.cases) (auto simp: begin_with_def split: if_splits)
  have "\<not> grows (sinks_world u) (sinks_world s')" using alive assms(5) grows_ended by blast
  then have ends: "pcs u t = Exiting" "sinks_world s' = exit_fatal env (root_lg u) (sinks_world u)"
      "pcs s' t = Leaving" "mutex s' = mutex u" "lg_exitFunc (root_lg u) = OsExit"
    using advance_grows [OF run(1)] alive assms(5) exit_fatal_ends [of env "root_lg u" "sinks_world u"] by auto
  then have m: "mutex u = Some t" using lock_invD [OF inv, of t] by simp
  obtain ds k fs where gs: "gs = ds @ k # fs" "opened_by t Exiting k" "list_all (Not \<circ> opens) fs"
    using section_opened [OF tr assms(2,3) m] ends by (auto simp: opened_in_def)
  then obtain e where e: "k = Run t (Ready e)" "re_level e = FATAL" by auto
  have "settled env s' = sinks_world s'" using ends m by (simp add: settled_def)
  then have "sinks_world s' = fold (commit_label env (root_lg s)) es (sinks_world s)"
    using settled_trace(1) [OF pstep_trace [OF assms(1)] assms(2)] assms(3) by (simp add: settled_def)
  moreover have "\<not> opens l" using run(2) ends by simp
  ultimately have "sinks_world s' = commit_entry env (root_lg s) e (fold (commit_label env (root_lg s)) ds (sinks_world s))"
    using gs e trace_snoc(1) by (simp add: commits_closed commit_label_closed)
  moreover have "last (io (sinks_world s')) = EvExit OsExit 1"
    using ends exit_fatal_io [of env "root_lg u" "sinks_world u"] by auto
  moreover have "lg_exitFunc (root_lg s) = OsExit" using ends same by (simp add: same_output_def)
  moreover have "\<forall>l u. \<not> pstep env s' l u" using assms(5) by (simp add: pstep_simps)
  moreover have "es = ds @ Run t (Ready e) # (fs @ [l])" using gs(1) e trace_snoc(1) by simp
  ultimately show ?thesis using e(2) by blast
qed (use assms(4,5) in simp)

text \<open>C13: The end of the process is the end of a \<open>FATAL\<close> entry, whatever the other threads do: its line was
  written, its hooks ran and the writer was flushed, all that other threads had written before is there as
  well, the call of the exit function is the last thing that happens, and no thread takes a step after it.\<close>

theorem Fatal_exit_is_last:
  assumes "trace (pstep env) s es s'" and "lock_inv s" and "mutex s = None"
    and "\<not> process_ended (sinks_world s)" and "process_ended (sinks_world s')"
  shows "\<exists>ds t e fs. es = ds @ Run t (Ready e) # fs \<and> re_level e = FATAL \<and>
    sinks_world s' = commit_entry env (root_lg s) e (fold (commit_label env (root_lg s)) ds (sinks_world s)) \<and>
    last (io (sinks_world s')) = EvExit OsExit 1 \<and> (\<forall>l u. \<not> pstep env s' l u)"
  using exit_last [OF assms] by (rule conjunct2)

text \<open>C23: A \<open>FATAL\<close> entry that reached its critical section ends the process: when no thread can go on any more, the
  process is over, unless the exit function was replaced; in that case it never ends.\<close>

theorem Fatal_ends_process:
  assumes "trace (pstep env) s es s'" and "lock_inv s" and "mutex s = None" and "\<not> process_ended (sinks_world s)"
    and "Run t (Ready e) \<in> set es" and "re_level e = FATAL" and "\<forall>u p v. \<not> pstep env s' (Run u p) v"
  shows "process_ended (sinks_world s') \<longleftrightarrow> lg_exitFunc (root_lg s) = OsExit"
proof
  assume "process_ended (sinks_world s')"
  from exit_last [OF assms(1-4) this] show "lg_exitFunc (root_lg s) = OsExit" by simp
next
  assume os: "lg_exitFunc (root_lg s) = OsExit"
  show "process_ended (sinks_world s')"
  proof (rule ccontr)
    assume alive: "\<not> process_ended (sinks_world s')"
    note tr = pstep_trace [OF assms(1)]
    have stuck: "\<forall>u. advance env u s' = None"
      using assms(7) alive by (auto simp: pstep_simps cstep.simps)
    have "mutex s' = None"
    proof (rule ccontr)
      assume "mutex s' \<noteq> None"
      then obtain u where "in_section (pcs s' u)" using settled_trace(3) [OF tr assms(2)] by (auto simp: lock_inv_def)
      then show False using stuck_idle [OF settled_trace(3) [OF tr assms(2)] stuck, of u] by auto
    qed
    then have "sinks_world s' = fold (commit_label env (root_lg s)) es (sinks_world s)"
      using settled_trace(1) [OF tr assms(2)] assms(3) by (simp add: settled_def)
    moreover obtain ds fs where "es = ds @ Run t (Ready e) # fs" using assms(5) by (meson split_list)
    ultimately show False
      using alive assms(6) os
        commits_ended [where w = "commit_entry env (root_lg s) e (fold (commit_label env (root_lg s)) ds (sinks_world s))"]
      by (simp add: commit_entry_ends)
  qed
qed
text \<open>Two threads, one with a \<open>FATAL\<close> entry ready; the other writes first.\<close>

definition fatal_ready :: shared where
  "fatal_ready = two_ready\<lparr>pcs := (pcs two_ready)
     (1 := Ready \<lparr>re_level = FATAL, re_message = ''a'', re_seen = [], re_line = ''a''\<rparr>)\<rparr>"

definition fatal_written :: shared where
  "fatal_written = fatal_ready\<lparr>sinks_world := empty_world\<lparr>io := [EvWrite 0 ''b'', EvWrite 0 ''a'']\<rparr>,
     mutex := Some 1, pcs := (\<lambda>_. Idle)(1 := Exiting)\<rparr>"

lemma fatal_run: "schedule quiet_sinks [2, 2, 2, 2, 1, 1, 1] fatal_ready = Some fatal_written"
  by (simp add: fatal_ready_def fatal_written_def two_ready_def advance_def goto_def write_line_def zero_logger_def
      sink_write_def quiet_sinks_def empty_world_def level_consts fun_eq_iff)

lemma fatal_trace:
  "trace (pstep quiet_sinks) fatal_ready (labels quiet_sinks [2, 2, 2, 2, 1, 1, 1] fatal_ready @ [Run 1 Exiting])
     (goto 1 Leaving (fatal_written\<lparr>sinks_world := empty_world\<lparr>io := [EvWrite 0 ''b'', EvWrite 0 ''a'', EvSync 0, EvExit OsExit 1]\<rparr>\<rparr>))"
proof -
  have "advance quiet_sinks 1 fatal_written = Some
      (goto 1 Leaving (fatal_written\<lparr>sinks_world := empty_world\<lparr>io := [EvWrite 0 ''b'', EvWrite 0 ''a'', EvSync 0, EvExit OsExit 1]\<rparr>\<rparr>))"
    by (simp add: fatal_written_def fatal_ready_def two_ready_def advance_def exit_fatal_def log_event_def
        sink_sync_def zero_logger_def)
  moreover have "\<not> process_ended (sinks_world fatal_written)" by (simp add: fatal_written_def)
  moreover have "pcs fatal_written 1 = Exiting" by (simp add: fatal_written_def)
  ultimately show ?thesis
    using trace.trace_snoc [OF alive_trace [OF schedule_trace [OF fatal_run]] pstep.intros [OF cstep.run]] by metis
qed

lemma fatal_start: "lock_inv fatal_ready" "mutex fatal_ready = None" "\<not> process_ended (sinks_world fatal_ready)"
  by (simp_all add: lock_inv_def fatal_ready_def two_ready_def empty_world_def)

theorem Fatal_exit_is_last_witness:
  "\<exists>ds t e fs. labels quiet_sinks [2, 2, 2, 2, 1, 1, 1] fatal_ready @ [Run 1 Exiting] = ds @ Run t (Ready e) # fs \<and>
     re_level e = FATAL"
  using Fatal_exit_is_last [OF fatal_trace fatal_start] by auto

theorem Fatal_ends_process_witness:
  "process_ended (empty_world\<lparr>io := [EvWrite 0 ''b'', EvWrite 0 ''a'', EvSync 0, EvExit OsExit 1]\<rparr>)"
  using Fatal_ends_process [OF fatal_trace fatal_start,
      of 1 "\<lparr>re_level = FATAL, re_message = ''a'', re_seen = [], re_line = ''a''\<rparr>"]
  by (simp add: pstep_simps fatal_ready_def two_ready_def zero_logger_def)

end
