(* ===== verification/LogPipeline.thy ===== *)
theory LogPipeline
  imports LogConcurrent "HOL-Library.Sublist"
begin

text \<open>
  A logger on an asynchronous writer, with every thread and the goroutine of the writer interleaved: the threads of
  \<open>LogConcurrent\<close> and the actions of \<open>LogAsync\<close> in one transition system. A call writes to the channel while it
  holds the mutex; the goroutine takes lines from the channel and writes them to the sink whenever it likes; \<open>Sync\<close>, and
  a \<open>FATAL\<close> entry before it exits, close the channel, wait for the goroutine and sync the sink, in steps of their own.
\<close>

section \<open>The composed system\<close>

text \<open>The points at which a thread is inside a method of the writer.\<close>

fun in_writer :: "pc \<Rightarrow> bool" where
  "in_writer (Writing e) \<longleftrightarrow> True"
| "in_writer Exiting \<longleftrightarrow> True"
| "in_writer Flushing \<longleftrightarrow> True"
| "in_writer _ \<longleftrightarrow> False"

fun is_run :: "label \<Rightarrow> bool" where
  "is_run (Run t p) \<longleftrightarrow> True"
| "is_run _ \<longleftrightarrow> False"

datatype pipe_label = OfCaller label | OfWriter event

definition writer_state :: "nat \<Rightarrow> shared \<Rightarrow> async_writer" where
  "writer_state i s = asyncs (sinks_world s) i"

definition put_writer :: "nat \<Rightarrow> async_writer \<Rightarrow> shared \<Rightarrow> shared" where
  "put_writer i a s = s\<lparr>sinks_world := set_async i a (sinks_world s)\<rparr>"

text \<open>The goroutine's write of a message to the sink, and the sync of the sink at the end of \<open>Close\<close>.\<close>

definition to_sink :: "sinks \<Rightarrow> nat \<Rightarrow> string \<Rightarrow> shared \<Rightarrow> shared" where
  "to_sink env j m s = s\<lparr>sinks_world := snd (sink_write env j m (sinks_world s))\<rparr>"

definition sync_dest :: "sinks \<Rightarrow> nat \<Rightarrow> bool \<Rightarrow> shared \<Rightarrow> shared" where
  "sync_dest env j sy s =
     s\<lparr>sinks_world := if sy then snd (sink_sync env j (sinks_world s)) else sinks_world s\<rparr>"

text \<open>A thread comes back from \<open>Close\<close>: \<open>Sync\<close> returns, and a \<open>FATAL\<close> call goes on to the exit function.\<close>

definition closed_by :: "nat \<Rightarrow> shared \<Rightarrow> shared" where
  "closed_by t s =
     goto t Leaving (if pcs s t = Exiting
       then s\<lparr>sinks_world := log_event (EvExit (lg_exitFunc (root_lg s)) 1) (sinks_world s)\<rparr> else s)"

inductive pipe_step :: "sinks \<Rightarrow> nat \<Rightarrow> nat \<Rightarrow> bool \<Rightarrow> shared \<Rightarrow> pipe_label \<Rightarrow> shared \<Rightarrow> bool"
  for env i j sy where
  begins: "cstep env s l s' \<Longrightarrow> \<not> is_run l \<Longrightarrow> pipe_step env i j sy s (OfCaller l) s'"
| acts: "advance env t s = Some s' \<Longrightarrow> \<not> in_writer (pcs s t) \<Longrightarrow>
    pipe_step env i j sy s (OfCaller (Run t (pcs s t))) s'"
| writes: "advance env t s = Some s' \<Longrightarrow> pcs s t = Writing e \<Longrightarrow>
    async_Write (re_line e) (writer_state i s) = (oc, res, a) \<Longrightarrow>
    pipe_step env i j sy s (OfWriter (EWrite (re_line e) oc)) s'"
| receives: "drain_receive (writer_state i s) = Some a \<Longrightarrow>
    pipe_step env i j sy s (OfWriter EReceive) (put_writer i a s)"
| delivers: "drain_write (writer_state i s) = Some a \<Longrightarrow> holding (writer_state i s) = Some m \<Longrightarrow>
    pipe_step env i j sy s (OfWriter EDeliver) (put_writer i a (to_sink env j m s))"
| ends: "drain_exit (writer_state i s) = Some a \<Longrightarrow>
    pipe_step env i j sy s (OfWriter EExit) (put_writer i a s)"
| closes: "pcs s t \<in> {Exiting, Flushing} \<Longrightarrow> close_start (writer_state i s) = Some a \<Longrightarrow>
    pipe_step env i j sy s (OfWriter ECloseStart) (put_writer i a s)"
| finishes: "pcs s t \<in> {Exiting, Flushing} \<Longrightarrow> close_finish sy (writer_state i s) = Some a \<Longrightarrow>
    pipe_step env i j sy s (OfWriter (ECloseFinish sy)) (closed_by t (put_writer i a (sync_dest env j sy s)))"
| was_closed: "pcs s t \<in> {Exiting, Flushing} \<Longrightarrow> close_again (writer_state i s) = Some a \<Longrightarrow>
    pipe_step env i j sy s (OfWriter ECloseAgain) (closed_by t s)"

section \<open>The two components inside it\<close>

text \<open>The lines that a sink has received, oldest first.\<close>

definition sink_lines :: "nat \<Rightarrow> io_event list \<Rightarrow> string list" where
  "sink_lines j h = concat (map (\<lambda>e. case e of EvWrite k p \<Rightarrow> if k = j then [p] else [] | _ \<Rightarrow> []) h)"

lemma sink_lines_simps [simp]:
  "sink_lines j [] = []" "sink_lines j (h @ h') = sink_lines j h @ sink_lines j h'"
  "sink_lines j (EvWrite k p # h) = (if k = j then p # sink_lines j h else sink_lines j h)"
  "sink_lines j (EvSync k # h) = sink_lines j h" "sink_lines j (EvHook n l m fs # h) = sink_lines j h"
  "sink_lines j (EvExit f c # h) = sink_lines j h"
  by (simp_all add: sink_lines_def)

definition pipe_inv :: "nat \<Rightarrow> nat \<Rightarrow> bool \<Rightarrow> shared \<Rightarrow> bool" where
  "pipe_inv i j sy s \<longleftrightarrow>
     (\<exists>fd. lg_out (root_lg s) = AsyncWriter i (Sink j sy fd)) \<and>
     sink_lines j (io (sinks_world s)) = dest (writer_state i s)"

lemma pipe_inv_cong:
  "pipe_inv i j sy s \<Longrightarrow> same_output (root_lg s') (root_lg s) \<Longrightarrow>
     sink_lines j (io (sinks_world s')) = sink_lines j (io (sinks_world s)) \<Longrightarrow>
     dest (writer_state i s') = dest (writer_state i s) \<Longrightarrow> pipe_inv i j sy s'"
  by (simp add: pipe_inv_def same_output_def)

lemma acts_frame:
  assumes "advance env t s = Some s'" and "\<not> in_writer (pcs s t)"
  shows "sink_lines j (io (sinks_world s')) = sink_lines j (io (sinks_world s)) \<and> writer_state i s' = writer_state i s"
proof (cases "pcs s t")
  case (Hooking e hs)
  then show ?thesis using assms by (cases hs) (auto simp: advance_def log_event_def writer_state_def)
qed (use assms in \<open>auto simp: advance_def Let_def writer_state_def split: if_splits option.splits prod.splits\<close>)

lemma write_on_async:
  assumes "lg_out r = AsyncWriter i d" and "async_Write p (asyncs w i) = (oc, res, a)"
  shows "write_line env r p w = (r, set_async i a w)"
proof -
  have "snd res = None" using assms(2) by (auto simp: async_Write_def split: if_splits)
  then show ?thesis using assms by (cases res) (simp add: write_line_def)
qed

lemma writes_to_channel:
  assumes "advance env t s = Some s'" and "pcs s t = Writing e" and "pipe_inv i j sy s"
    and "async_Write (re_line e) (writer_state i s) = (oc, res, a)"
  shows "same_output (root_lg s') (root_lg s) \<and> io (sinks_world s') = io (sinks_world s) \<and> writer_state i s' = a \<and>
    dest a = dest (writer_state i s)"
proof -
  obtain fd where "lg_out (root_lg s) = AsyncWriter i (Sink j sy fd)" using assms(3) by (auto simp: pipe_inv_def)
  from write_on_async [OF this] assms(4)
  have "write_line env (root_lg s) (re_line e) (sinks_world s) = (root_lg s, set_async i a (sinks_world s))"
    by (simp add: writer_state_def)
  moreover have "dest a = dest (writer_state i s)" using assms(4) by (auto simp: async_Write_def split: if_splits)
  ultimately show ?thesis
    using assms(1,2) by (auto simp: advance_def same_output_def writer_state_def set_async_def)
qed

text \<open>
  The composed system steps the asynchronous writer by its own steps, or leaves it alone; and what the
  goroutine has delivered is what the sink has received.
\<close>

definition writer_moves :: "pipe_label \<Rightarrow> async_writer \<Rightarrow> async_writer \<Rightarrow> bool" where
  "writer_moves l a a' \<longleftrightarrow> (case l of OfCaller _ \<Rightarrow> a' = a | OfWriter e \<Rightarrow> astep a e a')"

lemmas writer_state_simps = writer_state_def put_writer_def to_sink_def sync_dest_def closed_by_def
  set_async_def sink_write_def sink_sync_def log_event_def

lemma pipe_step_parts:
  assumes "pipe_step env i j sy s l s'" and "pipe_inv i j sy s"
  shows "pipe_inv i j sy s' \<and> writer_moves l (writer_state i s) (writer_state i s')"
  using assms
proof (induction rule: pipe_step.induct)
  case (begins s l s')
  then have "same_output (root_lg s') (root_lg s) \<and> sinks_world s' = sinks_world s"
    by (cases rule: cstep.cases) (auto simp: begin_with_def same_output_def split: if_splits)
  then show ?case using pipe_inv_cong [OF begins.prems] by (simp add: writer_moves_def writer_state_def)
next
  case (acts t s s')
  then show ?case
    using pipe_inv_cong [OF acts.prems advance_root] acts_frame by (simp add: writer_moves_def)
next
  case (writes t s s' e oc res a)
  note ch = writes_to_channel [OF writes.hyps(1,2) writes.prems writes.hyps(3)]
  then show ?case
    using pipe_inv_cong [OF writes.prems, of s'] writes.hyps(3) by (auto simp: writer_moves_def intro: astep.enqueue)
next
  case (receives s a)
  then have "dest a = dest (writer_state i s)" by (auto simp: drain_receive_def split: if_splits option.splits list.splits)
  then show ?case
    using receives by (auto simp: writer_moves_def pipe_inv_def writer_state_simps intro: astep.receive)
next
  case (delivers s a m)
  then have "dest a = dest (writer_state i s) @ [m]" by (auto simp: drain_write_def)
  then show ?case
    using delivers by (auto simp: writer_moves_def pipe_inv_def writer_state_simps intro: astep.deliver)
next
  case (ends s a)
  then have "dest a = dest (writer_state i s)" by (auto simp: drain_exit_def split: if_splits)
  then show ?case
    using ends by (auto simp: writer_moves_def pipe_inv_def writer_state_simps intro: astep.leave)
next
  case (closes s t a)
  then have "dest a = dest (writer_state i s)" by (auto simp: close_start_def split: if_splits)
  then show ?case
    using closes by (auto simp: writer_moves_def pipe_inv_def writer_state_simps intro: astep.start)
next
  case (finishes s t a)
  then have "dest a = dest (writer_state i s)" by (auto simp: close_finish_def split: if_splits)
  then show ?case
    using finishes by (auto simp: writer_moves_def pipe_inv_def writer_state_simps intro: astep.finish)
next
  case (was_closed s t a)
  then have "a = writer_state i s" by (auto simp: close_again_def split: if_splits)
  then show ?case
    using was_closed by (auto simp: writer_moves_def pipe_inv_def writer_state_simps intro: astep.again)
qed

fun writer_events :: "pipe_label list \<Rightarrow> event list" where
  "writer_events [] = []"
| "writer_events (OfCaller l # es) = writer_events es"
| "writer_events (OfWriter e # es) = e # writer_events es"

lemma writer_events_append [simp]: "writer_events (es @ fs) = writer_events es @ writer_events fs"
  by (induction es rule: writer_events.induct) simp_all

lemma pipe_trace_parts:
  assumes "trace (pipe_step env i j sy) s es s'" and "pipe_inv i j sy s"
  shows "pipe_inv i j sy s' \<and> trace astep (writer_state i s) (writer_events es) (writer_state i s')"
  using assms(1)
proof (induction rule: trace.induct)
  case trace_nil
  then show ?case using assms(2) by (simp add: trace.trace_nil)
next
  case (trace_snoc es u l v)
  then have "pipe_inv i j sy v" "writer_moves l (writer_state i u) (writer_state i v)"
    using pipe_step_parts by blast+
  then show ?case
    using trace_snoc.IH by (cases l) (auto simp: writer_moves_def intro: trace.trace_snoc)
qed

section \<open>The order of the lines\<close>

text \<open>The lines of the calls that took the mutex, and the lines that were written to the channel.\<close>

fun taken_lines :: "pipe_label list \<Rightarrow> string list" where
  "taken_lines [] = []"
| "taken_lines (OfCaller (Run t (Ready e)) # es) = re_line e # taken_lines es"
| "taken_lines (_ # es) = taken_lines es"

definition offered :: "event list \<Rightarrow> string list" where
  "offered es = concat (map (\<lambda>e. case e of EWrite p oc \<Rightarrow> [p] | _ \<Rightarrow> []) es)"

lemma offered_append [simp]: "offered (es @ fs) = offered es @ offered fs"
  by (simp add: offered_def)

lemma taken_lines_append [simp]: "taken_lines (es @ fs) = taken_lines es @ taken_lines fs"
  by (induction es rule: taken_lines.induct) simp_all

definition line_of_pc :: "pc \<Rightarrow> string list" where
  "line_of_pc p = (case p of Writing e \<Rightarrow> [re_line e] | _ \<Rightarrow> [])"

definition writing_now :: "shared \<Rightarrow> string list" where
  "writing_now s = (case mutex s of None \<Rightarrow> [] | Some t \<Rightarrow> line_of_pc (pcs s t))"

lemma writing_now_cong:
  assumes "moves t s s'" and "lock_inv s" and "line_of_pc (pcs s t) = line_of_pc (pcs s' t)"
  shows "writing_now s' = writing_now s"
proof (cases "mutex s")
  case None
  then have "\<not> in_section (pcs s t)" using lock_invD [OF assms(2), of t] by simp
  then have "line_of_pc (pcs s t) = []" by (cases "pcs s t") (simp_all add: line_of_pc_def)
  then show ?thesis using assms(1,3) None by (auto simp: moves_def writing_now_def split: option.split)
next
  case (Some u)
  show ?thesis
  proof (cases "u = t")
    case True
    have out: "line_of_pc (pcs s' t) = []" if "mutex s' = None"
    proof -
      have "\<not> in_section (pcs s' t)" using assms(1) that by (simp add: moves_def)
      then show ?thesis by (cases "pcs s' t") (simp_all add: line_of_pc_def)
    qed
    show ?thesis using assms(1,3) Some True out by (auto simp: moves_def writing_now_def)
  next
    case False
    then show ?thesis using settled_other [OF assms(1) Some] Some by (simp add: writing_now_def)
  qed
qed

lemma acts_order:
  assumes "advance env t s = Some s'" and "\<not> in_writer (pcs s t)" and "lock_inv s"
  shows "writing_now s @ taken_lines [OfCaller (Run t (pcs s t))] = writing_now s'"
proof (cases "pcs s t")
  case (Ready e)
  then show ?thesis using assms(1) by (auto simp: advance_def writing_now_def line_of_pc_def split: if_splits)
next
  case (Hooking e hs)
  then have "line_of_pc (pcs s t) = line_of_pc (pcs s' t)"
    using assms(1) by (cases hs) (auto simp: advance_def line_of_pc_def)
  then show ?thesis using writing_now_cong [OF advance_moves [OF assms(3,1)] assms(3)] Hooking by simp
qed (use assms writing_now_cong [OF advance_moves [OF assms(3,1)] assms(3)] in
    \<open>auto simp: advance_def Let_def line_of_pc_def split: if_splits option.splits prod.splits\<close>)

lemma closed_by_moves:
  assumes "pcs s t \<in> {Exiting, Flushing}" and "lock_inv s" and "pcs u = pcs s" and "mutex u = mutex s"
  shows "moves t s (closed_by t u)"
  using assms lock_invD [OF assms(2), of t] by (auto simp: moves_def closed_by_def)

lemma put_writer_frame [simp]:
  "pcs (put_writer i a s) = pcs s" "mutex (put_writer i a s) = mutex s" "root_lg (put_writer i a s) = root_lg s"
  "pcs (to_sink env j m s) = pcs s" "mutex (to_sink env j m s) = mutex s"
  "pcs (sync_dest env j sy s) = pcs s" "mutex (sync_dest env j sy s) = mutex s"
  by (simp_all add: put_writer_def to_sink_def sync_dest_def)

lemma writer_frame [simp]:
  "lock_inv (put_writer i a s) \<longleftrightarrow> lock_inv s" "writing_now (put_writer i a s) = writing_now s"
  "lock_inv (to_sink env j m s) \<longleftrightarrow> lock_inv s" "writing_now (to_sink env j m s) = writing_now s"
  by (simp_all add: lock_inv_def writing_now_def split: option.split)

lemma begin_order:
  assumes "begin_with t p s = Some s'" and "p = Called c \<or> p = Closing" and "lock_inv s"
  shows "lock_inv s' \<and> writing_now s' = writing_now s"
proof -
  have mv: "moves t s s'" using begin_moves [OF assms(3,1)] assms(2) by auto
  moreover have "line_of_pc (pcs s t) = line_of_pc (pcs s' t)"
    using assms(1,2) by (auto simp: begin_with_def line_of_pc_def split: if_splits)
  ultimately show ?thesis using writing_now_cong [OF mv assms(3)] lock_inv_moves [OF assms(3)] by simp
qed

lemma begins_order:
  assumes "cstep env s l s'" and "\<not> is_run l" and "lock_inv s"
  shows "lock_inv s' \<and> writing_now s' = writing_now s \<and> taken_lines [OfCaller l] = []"
  using assms(1)
proof (cases rule: cstep.cases)
  case (call t c)
  then show ?thesis using begin_order [OF call(2) _ assms(3)] by simp
next
  case (sync t)
  then show ?thesis using begin_order [OF sync(2) _ assms(3)] by simp
next
  case (set_level k)
  then show ?thesis using assms(3) by (simp add: writing_now_def lock_inv_def split: option.split)
qed (use assms(2) in simp)

lemma pipe_step_order:
  assumes "pipe_step env i j sy s l s'" and "lock_inv s"
  shows "lock_inv s' \<and> writing_now s @ taken_lines [l] = offered (writer_events [l]) @ writing_now s'"
  using assms
proof (induction rule: pipe_step.induct)
  case (begins s l s')
  then show ?case using begins_order [OF begins.hyps begins.prems] by (simp add: offered_def)
next
  case (acts t s s')
  then show ?case
    using acts_order [OF acts.hyps acts.prems] lock_inv_moves [OF acts.prems advance_moves [OF acts.prems acts.hyps(1)]]
    by (simp add: offered_def)
next
  case (writes t s s' e oc res a)
  then have "mutex s = Some t" using lock_invD [of s t] by simp
  moreover have "pcs s' t = Hooking e (lg_hooks (root_lg s'))" "mutex s' = mutex s"
    using writes.hyps(1,2) by (auto simp: advance_def split: prod.splits)
  ultimately show ?case
    using writes.hyps(2) lock_inv_moves [OF writes.prems advance_moves [OF writes.prems writes.hyps(1)]]
    by (simp add: writing_now_def line_of_pc_def offered_def)
next
  case (finishes s t a)
  have mv: "moves t s (closed_by t (put_writer i a (sync_dest env j sy s)))"
    by (rule closed_by_moves [OF finishes.hyps(1) finishes.prems]) simp_all
  have "line_of_pc (pcs s t) = line_of_pc Leaving" using finishes.hyps(1) by (auto simp: line_of_pc_def)
  then show ?case
    using writing_now_cong [OF mv finishes.prems] lock_inv_moves [OF finishes.prems mv]
    by (simp add: closed_by_def offered_def)
next
  case (was_closed s t a)
  have mv: "moves t s (closed_by t s)"
    by (rule closed_by_moves [OF was_closed.hyps(1) was_closed.prems]) simp_all
  have "line_of_pc (pcs s t) = line_of_pc Leaving" using was_closed.hyps(1) by (auto simp: line_of_pc_def)
  then show ?case
    using writing_now_cong [OF mv was_closed.prems] lock_inv_moves [OF was_closed.prems mv]
    by (simp add: closed_by_def offered_def)
qed (simp_all add: offered_def)

lemma pipe_trace_order:
  assumes "trace (pipe_step env i j sy) s es s'" and "lock_inv s" and "mutex s = None"
  shows "lock_inv s' \<and> taken_lines es = offered (writer_events es) @ writing_now s'"
  using assms(1)
proof (induction rule: trace.induct)
  case trace_nil
  then show ?case using assms(2,3) by (simp add: writing_now_def offered_def)
next
  case (trace_snoc es u l v)
  then show ?case using pipe_step_order [OF trace_snoc.hyps(2)] by simp
qed

section \<open>What reaches the sink\<close>

lemma accepted_subseq: "subseq (accepted_msgs es) (offered es)"
proof (induction es)
  case Nil
  then show ?case by (simp add: accepted_msgs_def)
next
  case (Cons e es)
  show ?case
  proof (cases e)
    case (EWrite p oc)
    then show ?thesis using Cons by (cases oc) (auto simp: accepted_msgs_def offered_def intro: list_emb_Cons)
  qed (use Cons in \<open>simp_all add: accepted_msgs_def offered_def\<close>)
qed

lemma open_until_closed:
  "trace astep (NewAsyncWriter cap) es a \<Longrightarrow> ECloseStart \<notin> set es \<Longrightarrow> once a = OnceNew"
proof (induction rule: trace.induct)
  case trace_nil
  then show ?case by (simp add: NewAsyncWriter_def)
next
  case (trace_snoc es t e u)
  then have "once t = OnceNew" "e \<noteq> ECloseStart" by auto
  with trace_snoc.hyps(2) show ?case
    by (cases rule: astep.cases) (auto simp: async_ops split: if_splits option.splits list.splits)
qed

text \<open>With room for every line nothing is dropped before the writer is closed.\<close>

lemma room_for_all:
  assumes "trace astep (NewAsyncWriter cap) es a" and "ECloseStart \<notin> set es"
    and "length (offered es) \<le> capacity (NewAsyncWriter cap)"
  shows "accepted_msgs es = offered es"
  using assms
proof (induction rule: trace.induct)
  case trace_nil
  then show ?case by (simp add: accepted_msgs_def offered_def)
next
  case (trace_snoc es t e u)
  then have IH: "accepted_msgs es = offered es" by simp
  show ?case
  proof (cases e)
    case (EWrite p oc)
    have cap: "capacity t = capacity (NewAsyncWriter cap)" and
      acc: "dest t @ pending t = accepted_msgs es"
      using trace_accounting [OF trace_snoc.hyps(1)] by (simp_all add: NewAsyncWriter_def pending_def)
    have "length (ch t) \<le> length (dest t @ pending t)" by (simp add: pending_def)
    then have "length (ch t) < capacity t"
      using trace_snoc.prems(2) EWrite unfolding acc IH cap by (simp add: offered_def)
    moreover have "once t = OnceNew" using open_until_closed [OF trace_snoc.hyps(1)] trace_snoc.prems(1) by simp
    then have "\<not> ch_closed t" using new_accounting(4) [OF trace_snoc.hyps(1)] by (simp add: async_inv_def)
    ultimately have "oc = Accepted" using trace_snoc.hyps(2) EWrite by (auto simp: astep_simps async_Write_def)
    then show ?thesis using IH EWrite by (simp add: accepted_msgs_def offered_def)
  qed (use IH in \<open>simp_all add: accepted_msgs_def offered_def\<close>)
qed

lemma none_refused:
  assumes "trace astep (NewAsyncWriter cap) es a" and "ECloseStart \<notin> set es"
  shows "length (offered es) = length (accepted_msgs es) + dropped_count es"
  using assms
proof (induction rule: trace.induct)
  case trace_nil
  then show ?case by (simp add: accepted_msgs_def offered_def dropped_count_def)
next
  case (trace_snoc es t e u)
  then have IH: "length (offered es) = length (accepted_msgs es) + dropped_count es" by simp
  show ?case
  proof (cases e)
    case (EWrite p oc)
    have "once t = OnceNew" using open_until_closed [OF trace_snoc.hyps(1)] trace_snoc.prems by simp
    then have "\<not> ch_closed t" using new_accounting(4) [OF trace_snoc.hyps(1)] by (simp add: async_inv_def)
    then have "oc \<noteq> Recovered"
      using trace_snoc.hyps(2) EWrite by (auto simp: astep_simps async_Write_def split: if_splits)
    then show ?thesis using IH EWrite by (cases oc) (simp_all add: accepted_msgs_def offered_def dropped_count_def)
  qed (use IH in \<open>simp_all add: accepted_msgs_def offered_def dropped_count_def\<close>)
qed

lemma closed_accepts_nothing:
  "trace astep a es b \<Longrightarrow> ch_closed a \<Longrightarrow> ch_closed b \<and> accepted_msgs es = []"
proof (induction rule: trace.induct)
  case (trace_snoc es t e u)
  then have "ch_closed t" by simp
  with trace_snoc.hyps(2) have "ch_closed u \<and> accepted_msgs [e] = []"
    by (cases rule: astep.cases)
      (auto simp: async_ops accepted_msgs_def split: if_splits option.splits list.splits)
  then show ?case using trace_snoc by simp
qed (simp add: accepted_msgs_def)

lemma finished_empty:
  assumes "trace astep (NewAsyncWriter cap) es a" and "ECloseFinish sy \<in> set es"
  shows "pending a = []"
proof -
  obtain ds fs where "es = ds @ ECloseFinish sy # fs" using assms(2) by (meson split_list)
  then show ?thesis using close_finished assms(1) by blast
qed

lemma in_writer_events: "OfWriter e \<in> set es \<longleftrightarrow> e \<in> set (writer_events es)"
  by (induction es rule: writer_events.induct) auto

definition fresh_pipeline :: "nat \<Rightarrow> nat \<Rightarrow> bool \<Rightarrow> int \<Rightarrow> shared \<Rightarrow> bool" where
  "fresh_pipeline i j sy cap s \<longleftrightarrow>
     (\<exists>fd. lg_out (root_lg s) = AsyncWriter i (Sink j sy fd)) \<and> writer_state i s = NewAsyncWriter cap \<and>
     sink_lines j (io (sinks_world s)) = [] \<and> lock_inv s \<and> mutex s = None"

lemma fresh_inv: "fresh_pipeline i j sy cap s \<Longrightarrow> pipe_inv i j sy s"
  by (auto simp: fresh_pipeline_def pipe_inv_def NewAsyncWriter_def)

text \<open>What becomes of a line that is written to the asynchronous writer.\<close>

definition outcome_count :: "outcome \<Rightarrow> event list \<Rightarrow> nat" where
  "outcome_count oc es = length (filter (\<lambda>e. case e of EWrite p oc' \<Rightarrow> oc' = oc | _ \<Rightarrow> False) es)"

lemma offered_outcomes:
  "length (offered es) = length (accepted_msgs es) + outcome_count Dropped es + outcome_count Recovered es"
proof (induction es)
  case (Cons e es)
  show ?case
  proof (cases e)
    case (EWrite p oc)
    then show ?thesis using Cons by (cases oc) (simp_all add: accepted_msgs_def offered_def outcome_count_def)
  qed (use Cons in \<open>simp_all add: accepted_msgs_def offered_def outcome_count_def\<close>)
qed (simp add: accepted_msgs_def offered_def outcome_count_def)

lemma dropped_outcomes: "dropped_count es = outcome_count Dropped es"
  unfolding dropped_count_def outcome_count_def
  by (intro arg_cong [where f = length] filter_cong refl) (simp split: event.split outcome.split)

lemma none_recovered:
  "trace astep (NewAsyncWriter cap) es a \<Longrightarrow> ECloseStart \<notin> set es \<Longrightarrow> outcome_count Recovered es = 0"
  using none_refused offered_outcomes dropped_outcomes by fastforce

text \<open>C3: End to end through an asynchronous writer, whatever callers and goroutine do: what the sink has received,
  followed by what is still queued, is exactly the list of the lines that the writer accepted, in the order in which it accepted them;
  these are lines of calls, whole and in the order in which the calls took the mutex. Every other line of a call was
  dropped at a full channel, and the counter of the writer counts these, or came to a closed channel, and that only after
  a \<open>Close\<close> began; with the mutex free there is no further one. Once a \<open>Close\<close> has finished, nothing is queued any
  more: the sink has every accepted line.\<close>

theorem async_logger_accounts:
  assumes "trace (pipe_step env i j sy) s es s'" and "fresh_pipeline i j sy cap s"
  shows "let a = writer_state i s'; ws = writer_events es; got = sink_lines j (io (sinks_world s')) in
    got @ pending a = accepted_msgs ws \<and>
    subseq (accepted_msgs ws) (taken_lines es) \<and>
    DroppedCount a = of_nat (outcome_count Dropped ws) \<and>
    (mutex s' = None \<longrightarrow>
       length (taken_lines es) =
         length got + length (pending a) + outcome_count Dropped ws + outcome_count Recovered ws) \<and>
    (ECloseStart \<notin> set ws \<longrightarrow> outcome_count Recovered ws = 0) \<and>
    (ECloseFinish sy \<in> set ws \<longrightarrow> got = accepted_msgs ws)"
proof -
  have fresh: "writer_state i s = NewAsyncWriter cap" "lock_inv s" "mutex s = None"
    using assms(2) by (simp_all add: fresh_pipeline_def)
  let ?ws = "writer_events es" and ?a = "writer_state i s'" and ?got = "sink_lines j (io (sinks_world s'))"
  note parts = pipe_trace_parts [OF assms(1) fresh_inv [OF assms(2)], unfolded fresh(1)]
  note run = conjunct2 [OF parts]
  note order = pipe_trace_order [OF assms(1) fresh(2,3)]
  have got: "?got @ pending ?a = accepted_msgs ?ws"
    using parts new_accounting(1) by (auto simp: pipe_inv_def)
  moreover have "subseq (accepted_msgs ?ws) (taken_lines es)"
    using accepted_subseq [of ?ws] order subseq_order.trans prefix_imp_subseq by fastforce
  moreover have "DroppedCount ?a = of_nat (outcome_count Dropped ?ws)"
    using new_accounting(2) [OF run] by (simp add: DroppedCount_def dropped_outcomes)
  moreover have "length (taken_lines es) =
      length ?got + length (pending ?a) + outcome_count Dropped ?ws + outcome_count Recovered ?ws" if "mutex s' = None"
    using order that offered_outcomes [of ?ws] arg_cong [OF got, of length] by (simp add: writing_now_def)
  moreover have "?got = accepted_msgs ?ws" if "ECloseFinish sy \<in> set ?ws"
    using got finished_empty [OF run that] by simp
  ultimately show ?thesis unfolding Let_def using none_recovered [OF run] by blast
qed

text \<open>C4: Nothing is lost when the buffer has room for every line and the writer is closed after them: the sink then has
  exactly the lines of the calls that took the mutex before the close, in that order.\<close>

theorem async_logger_delivers:
  assumes "trace (pipe_step env i j sy) s (es @ OfWriter ECloseStart # fs) s'" and "fresh_pipeline i j sy cap s"
    and "OfWriter ECloseStart \<notin> set es" and "OfWriter (ECloseFinish sy) \<in> set fs"
    and "length (taken_lines es) \<le> (if cap \<le> 0 then 4096 else nat cap)"
  shows "sink_lines j (io (sinks_world s')) = taken_lines es"
proof -
  have fresh: "writer_state i s = NewAsyncWriter cap" "lock_inv s" "mutex s = None"
    using assms(2) by (simp_all add: fresh_pipeline_def)
  obtain u v where u: "trace (pipe_step env i j sy) s es u" and
      step: "pipe_step env i j sy u (OfWriter ECloseStart) v" and v: "trace (pipe_step env i j sy) v fs s'"
    using trace_split [OF assms(1)] trace_Cons by metis
  note upto = pipe_trace_parts [OF u fresh_inv [OF assms(2)], unfolded fresh(1)]
  note order = pipe_trace_order [OF u fresh(2,3)]
  have closing: "pipe_inv i j sy v" "astep (writer_state i u) ECloseStart (writer_state i v)"
    using pipe_step_parts [OF step] upto by (simp_all add: writer_moves_def)
  note rest = pipe_trace_parts [OF v closing(1)]
  obtain t where "pcs u t \<in> {Exiting, Flushing}" using step by (auto elim: pipe_step.cases)
  then have "mutex u = Some t" "line_of_pc (pcs u t) = []"
    using lock_invD [of u t] order by (auto simp: line_of_pc_def)
  then have all: "taken_lines es = offered (writer_events es)" using order by (simp add: writing_now_def)
  have "accepted_msgs (writer_events es) = offered (writer_events es)"
    using room_for_all [OF conjunct2 [OF upto]] assms(3,5) all
    by (simp add: in_writer_events NewAsyncWriter_def split: if_splits)
  moreover have "ch_closed (writer_state i v)" using closing(2)
    by (cases rule: astep.cases) (auto simp: close_start_def split: if_splits dest: arg_cong [where f = ch_closed])
  then have "accepted_msgs (writer_events fs) = []" using closed_accepts_nothing rest by blast
  moreover have run: "trace astep (NewAsyncWriter cap) (writer_events (es @ OfWriter ECloseStart # fs)) (writer_state i s')"
    using pipe_trace_parts [OF assms(1) fresh_inv [OF assms(2)]] fresh(1) by simp
  ultimately have "dest (writer_state i s') @ pending (writer_state i s') = taken_lines es"
    unfolding new_accounting(1) [OF run] by (simp add: all accepted_msgs_def)
  moreover have "ECloseFinish sy \<in> set (writer_events (es @ OfWriter ECloseStart # fs))"
    using assms(4) by (simp add: in_writer_events)
  from finished_empty [OF run this] have "pending (writer_state i s') = []" .
  ultimately show ?thesis using rest by (simp add: pipe_inv_def)
qed

text \<open>A \<open>FATAL\<close> entry on an asynchronous writer with one place: written, delivered while the writer closes, exit.\<close>

definition fatal_entry :: ready_entry where
  "fatal_entry = \<lparr>re_level = FATAL, re_message = ''a'', re_seen = [], re_line = ''a''\<rparr>"

definition pipe_at :: "pc \<Rightarrow> nat option \<Rightarrow> async_writer \<Rightarrow> io_event list \<Rightarrow> shared" where
  "pipe_at p m a h =
     \<lparr>root_lg = zero_logger\<lparr>lg_out := AsyncWriter 0 (Sink 0 True None)\<rparr>,
      sinks_world = \<lparr>io = h, asyncs = (\<lambda>_. NewAsyncWriter 1)(0 := a)\<rparr>, counter = 0, mutex = m,
      pcs = (\<lambda>_. Idle)(1 := p)\<rparr>"

lemma pipe_at_start: "fresh_pipeline 0 0 True 1 (pipe_at (Ready fatal_entry) None (NewAsyncWriter 1) [])"
  by (simp add: fresh_pipeline_def pipe_at_def writer_state_def lock_inv_def)

lemmas pipe_at_simps = pipe_at_def advance_def goto_def writer_state_simps async_ops NewAsyncWriter_def fatal_entry_def
  zero_logger_def write_line_def fun_eq_iff closed_by_def level_consts

lemma pipe_begin:
  assumes "a = NewAsyncWriter 1"
  shows "trace (pipe_step quiet_sinks 0 0 True) (pipe_at (Ready fatal_entry) None a [])
    [OfCaller (Run 1 (Ready fatal_entry)), OfWriter (EWrite ''a'' Accepted), OfCaller (Run 1 (Hooking fatal_entry []))]
    (pipe_at Exiting (Some 1) (a\<lparr>ch := [''a'']\<rparr>) [])"
proof -
  have "pipe_step quiet_sinks 0 0 True (pipe_at (Ready fatal_entry) None a [])
      (OfCaller (Run 1 (Ready fatal_entry))) (pipe_at (Writing fatal_entry) (Some 1) a [])"
    using pipe_step.acts [of quiet_sinks 1 "pipe_at (Ready fatal_entry) None a []"] by (simp add: pipe_at_simps)
  moreover have "pipe_step quiet_sinks 0 0 True (pipe_at (Writing fatal_entry) (Some 1) a [])
      (OfWriter (EWrite (re_line fatal_entry) Accepted)) (pipe_at (Hooking fatal_entry []) (Some 1) (a\<lparr>ch := [''a'']\<rparr>) [])"
    by (rule pipe_step.writes [of _ 1]) (simp_all add: pipe_at_simps assms)
  moreover have "pipe_step quiet_sinks 0 0 True (pipe_at (Hooking fatal_entry []) (Some 1) (a\<lparr>ch := [''a'']\<rparr>) [])
      (OfCaller (Run 1 (Hooking fatal_entry []))) (pipe_at Exiting (Some 1) (a\<lparr>ch := [''a'']\<rparr>) [])"
    using pipe_step.acts [of quiet_sinks 1 "pipe_at (Hooking fatal_entry []) (Some 1) (a\<lparr>ch := [''a'']\<rparr>) []"]
    by (simp add: pipe_at_simps)
  ultimately have "trace (pipe_step quiet_sinks 0 0 True) (pipe_at (Ready fatal_entry) None a [])
      ((([] @ [OfCaller (Run 1 (Ready fatal_entry))]) @ [OfWriter (EWrite (re_line fatal_entry) Accepted)]) @
        [OfCaller (Run 1 (Hooking fatal_entry []))]) (pipe_at Exiting (Some 1) (a\<lparr>ch := [''a'']\<rparr>) [])"
    by (meson trace.intros)
  then show ?thesis by (simp add: fatal_entry_def)
qed

lemma pipe_end:
  assumes "a = NewAsyncWriter 1" and "b = a\<lparr>once := OnceRunning, ch_closed := True\<rparr>"
  shows "\<exists>s'. trace (pipe_step quiet_sinks 0 0 True) (pipe_at Exiting (Some 1) (a\<lparr>ch := [''a'']\<rparr>) [])
    [OfWriter ECloseStart, OfWriter EReceive, OfWriter EDeliver, OfWriter EExit, OfWriter (ECloseFinish True)] s' \<and>
    io (sinks_world s') = [EvWrite 0 ''a'', EvSync 0, EvExit OsExit 1]"
proof -
  let ?step = "pipe_step quiet_sinks 0 0 True" and ?c = "b\<lparr>dest := [''a''], drain_done := True\<rparr>"
  let ?last = "closed_by 1 (put_writer 0 (?c\<lparr>once := OnceDone, dest_syncs := 1\<rparr>)
      (sync_dest quiet_sinks 0 True (pipe_at Exiting (Some 1) ?c [EvWrite 0 ''a''])))"
  have "?step (pipe_at Exiting (Some 1) (a\<lparr>ch := [''a'']\<rparr>) []) (OfWriter ECloseStart)
      (pipe_at Exiting (Some 1) (b\<lparr>ch := [''a'']\<rparr>) [])"
    using pipe_step.closes [of "pipe_at Exiting (Some 1) (a\<lparr>ch := [''a'']\<rparr>) []" 1 0]
    by (simp add: pipe_at_simps assms)
  moreover have "?step (pipe_at Exiting (Some 1) (b\<lparr>ch := [''a'']\<rparr>) []) (OfWriter EReceive)
      (pipe_at Exiting (Some 1) (b\<lparr>holding := Some ''a''\<rparr>) [])"
    using pipe_step.receives [of 0 "pipe_at Exiting (Some 1) (b\<lparr>ch := [''a'']\<rparr>) []"]
    by (simp add: pipe_at_simps assms)
  moreover have "?step (pipe_at Exiting (Some 1) (b\<lparr>holding := Some ''a''\<rparr>) []) (OfWriter EDeliver)
      (pipe_at Exiting (Some 1) (b\<lparr>dest := [''a'']\<rparr>) [EvWrite 0 ''a''])"
    using pipe_step.delivers [of 0 "pipe_at Exiting (Some 1) (b\<lparr>holding := Some ''a''\<rparr>) []"]
    by (simp add: pipe_at_simps assms)
  moreover have "?step (pipe_at Exiting (Some 1) (b\<lparr>dest := [''a'']\<rparr>) [EvWrite 0 ''a'']) (OfWriter EExit)
      (pipe_at Exiting (Some 1) ?c [EvWrite 0 ''a''])"
    using pipe_step.ends [of 0 "pipe_at Exiting (Some 1) (b\<lparr>dest := [''a'']\<rparr>) [EvWrite 0 ''a'']"]
    by (simp add: pipe_at_simps assms)
  moreover have "?step (pipe_at Exiting (Some 1) ?c [EvWrite 0 ''a'']) (OfWriter (ECloseFinish True)) ?last"
    by (rule pipe_step.finishes) (simp_all add: pipe_at_simps assms)
  ultimately have "trace ?step (pipe_at Exiting (Some 1) (a\<lparr>ch := [''a'']\<rparr>) []) ((((([] @ [OfWriter ECloseStart]) @
      [OfWriter EReceive]) @ [OfWriter EDeliver]) @ [OfWriter EExit]) @ [OfWriter (ECloseFinish True)]) ?last"
    by (meson trace.intros)
  moreover have "io (sinks_world ?last) = [EvWrite 0 ''a'', EvSync 0, EvExit OsExit 1]"
    by (simp add: pipe_at_simps assms)
  ultimately show ?thesis by auto
qed

theorem async_logger_accounts_witness:
  "let a = (NewAsyncWriter 1)\<lparr>ch := [''a'']\<rparr> in
     sink_lines 0 [] @ pending a = accepted_msgs [EWrite ''a'' Accepted] \<and> DroppedCount a = 0"
  using async_logger_accounts [OF pipe_begin [OF refl] pipe_at_start]
  by (simp add: pipe_at_simps Let_def outcome_count_def)

theorem async_logger_delivers_witness:
  "\<exists>s' :: shared. sink_lines 0 (io (sinks_world s')) = [''a''] \<and> io (sinks_world s') = [EvWrite 0 ''a'', EvSync 0, EvExit OsExit 1]"
proof -
  obtain s' where e: "trace (pipe_step quiet_sinks 0 0 True) (pipe_at Exiting (Some 1) ((NewAsyncWriter 1)\<lparr>ch := [''a'']\<rparr>) [])
      [OfWriter ECloseStart, OfWriter EReceive, OfWriter EDeliver, OfWriter EExit, OfWriter (ECloseFinish True)] s'"
    "io (sinks_world s') = [EvWrite 0 ''a'', EvSync 0, EvExit OsExit 1]"
    using pipe_end [OF refl refl] by blast
  have "sink_lines 0 (io (sinks_world s')) = [''a'']"
    using async_logger_delivers [OF trace_append [OF e(1) pipe_begin [OF refl]] pipe_at_start]
    by (simp add: fatal_entry_def)
  then show ?thesis using e(2) by blast
qed

end
