(* ===== verification/LogPool.thy ===== *)
theory LogPool
  imports LogPrelude GoStrings
begin

text \<open>
  The buffers. \<open>formatter.go\<close> and \<open>writeEntry\<close> build every line in buffers from one \<open>sync.Pool\<close> that all
  goroutines share: a formatter fills one and copies its bytes out before it puts it back; \<open>writeEntry\<close> appends the newline
  in another one, hands its bytes to the writer and puts it back; \<open>AsyncWriter.Write\<close> keeps a copy of the bytes it
  is handed. The other theories treat lines as values; this one has the memory behind them, cells by address,
  and shows that they may. A cell stands for a buffer with whatever array it has: an \<open>append\<close> that outgrows the
  array moves the same bytes, and \<open>JSONFormatter\<close> resets its buffer once more before it puts it back, which nobody
  reads.
\<close>

section \<open>Memory\<close>

text \<open>
  The state of a thread: \<open>x\<close> is the text that its formatter writes, \<open>a\<close> the formatter's buffer, \<open>d\<close> the slice that
  \<open>Format\<close> returns and \<open>b\<close> the buffer of \<open>writeEntry\<close>.
\<close>

datatype buf_pc =
    BIdle
  | FGet string
  | FReset string nat
  | FFill string nat
  | FCopy string nat
  | FPut string nat nat
  | WGet string nat
  | WReset string nat nat
  | WData string nat nat
  | WNewline string nat
  | WLock string nat
  | WWrite string nat
  | WPut string nat
  | WUnlock

text \<open>The bytes of a buffer or slice, the pool, the mutex, the channel of an asynchronous writer and whether it is
  closed, the slice that the goroutine has taken from there, the sink.\<close>

record buffers =
  cells :: "nat \<Rightarrow> string"
  fresh :: nat
  bufPool :: "nat list"
  lock :: "nat option"
  queue :: "nat list"
  chan_closed :: bool
  in_hand :: "nat list"
  received :: "string list"
  at :: "nat \<Rightarrow> buf_pc"

definition new_cell :: "string \<Rightarrow> buffers \<Rightarrow> nat \<times> buffers" where
  "new_cell p s = (fresh s, s\<lparr>cells := (cells s)(fresh s := p), fresh := Suc (fresh s)\<rparr>)"

definition set_cell :: "nat \<Rightarrow> string \<Rightarrow> buffers \<Rightarrow> buffers" where
  "set_cell a p s = s\<lparr>cells := (cells s)(a := p)\<rparr>"

text \<open>
  \<open>sync.Pool\<close> gives any of the buffers that were put back, the \<open>k\<close>-th here, or a new one; it may also drop
  buffers at any time.
\<close>

definition pool_Get :: "nat \<Rightarrow> buffers \<Rightarrow> nat \<times> buffers" where
  "pool_Get k s =
     (if k < length (bufPool s)
      then (bufPool s ! k, s\<lparr>bufPool := take k (bufPool s) @ drop (Suc k) (bufPool s)\<rparr>)
      else new_cell [] s)"

definition pool_Put :: "nat \<Rightarrow> buffers \<Rightarrow> buffers" where
  "pool_Put a s = s\<lparr>bufPool := a # bufPool s\<rparr>"

section \<open>Threads\<close>

definition step_to :: "nat \<Rightarrow> buf_pc \<Rightarrow> buffers \<Rightarrow> buffers" where
  "step_to t p s = s\<lparr>at := (at s)(t := p)\<rparr>"

text \<open>
  What the writer does with the slice it is handed: a sink (\<open>None\<close>) takes the bytes at once; an asynchronous writer
  makes a slice of its own and sends that to its channel of capacity \<open>cap\<close>. On a closed channel the send panics and
  \<open>Write\<close> recovers; on a full one the message is dropped; in both cases nobody keeps the copy.
\<close>

definition has_room :: "nat option \<Rightarrow> buffers \<Rightarrow> bool" where
  "has_room dst s \<longleftrightarrow> (case dst of None \<Rightarrow> True | Some cap \<Rightarrow> \<not> chan_closed s \<and> length (queue s) < cap)"

definition hand_over :: "nat option \<Rightarrow> nat \<Rightarrow> buffers \<Rightarrow> buffers" where
  "hand_over dst b s =
     (case dst of
        None \<Rightarrow> s\<lparr>received := received s @ [cells s b]\<rparr>
      | Some cap \<Rightarrow>
          (let (c, s) = new_cell (cells s b) s
           in if chan_closed s then s
              else if length (queue s) < cap then s\<lparr>queue := queue s @ [c]\<rparr> else s))"

text \<open>The next action of thread \<open>t\<close>; \<open>k\<close> is the choice of the pool.\<close>

definition buf_act :: "nat option \<Rightarrow> nat \<Rightarrow> nat \<Rightarrow> buffers \<Rightarrow> buffers option" where
  "buf_act dst k t s =
     (case at s t of
        BIdle \<Rightarrow> None
      | FGet x \<Rightarrow> (let (a, s) = pool_Get k s in Some (step_to t (FReset x a) s))
      | FReset x a \<Rightarrow> Some (step_to t (FFill x a) (set_cell a [] s))
      | FFill x a \<Rightarrow> Some (step_to t (FCopy x a) (set_cell a (cells s a @ x) s))
      | FCopy x a \<Rightarrow> (let (d, s) = new_cell (cells s a) s in Some (step_to t (FPut x a d) s))
      | FPut x a d \<Rightarrow> Some (step_to t (WGet x d) (pool_Put a s))
      | WGet x d \<Rightarrow> (let (b, s) = pool_Get k s in Some (step_to t (WReset x d b) s))
      | WReset x d b \<Rightarrow> Some (step_to t (WData x d b) (set_cell b [] s))
      | WData x d b \<Rightarrow> Some (step_to t (WNewline x b) (set_cell b (cells s b @ cells s d) s))
      | WNewline x b \<Rightarrow> Some (step_to t (WLock x b) (set_cell b (cells s b @ [newline]) s))
      | WLock x b \<Rightarrow> if lock s = None then Some (step_to t (WWrite x b) (s\<lparr>lock := Some t\<rparr>)) else None
      | WWrite x b \<Rightarrow> Some (step_to t (WPut x b) (hand_over dst b s))
      | WPut x b \<Rightarrow> Some (step_to t WUnlock (pool_Put b s))
      | WUnlock \<Rightarrow> Some (step_to t BIdle (s\<lparr>lock := None\<rparr>)))"

text \<open>The goroutine of the asynchronous writer takes the oldest slice and passes it to the sink.\<close>

definition take_slice :: "buffers \<Rightarrow> buffers option" where
  "take_slice s =
     (case queue s of [] \<Rightarrow> None | c # r \<Rightarrow> if in_hand s = [] then Some (s\<lparr>queue := r, in_hand := [c]\<rparr>) else None)"

definition deliver_slice :: "buffers \<Rightarrow> buffers option" where
  "deliver_slice s =
     (case in_hand s of [] \<Rightarrow> None | c # r \<Rightarrow> Some (s\<lparr>in_hand := r, received := received s @ [cells s c]\<rparr>))"

text \<open>The label of an action says whether a send would succeed: the channel is open and has room.\<close>

datatype buf_label = BBegin nat string | BRun nat buf_pc bool | BTake | BDeliver | BClose | BForget nat

inductive buf_step :: "nat option \<Rightarrow> buffers \<Rightarrow> buf_label \<Rightarrow> buffers \<Rightarrow> bool" for dst where
  begins: "at s t = BIdle \<Longrightarrow> buf_step dst s (BBegin t x) (step_to t (FGet x) s)"
| runs: "buf_act dst k t s = Some s' \<Longrightarrow> buf_step dst s (BRun t (at s t) (has_room dst s)) s'"
| takes: "take_slice s = Some s' \<Longrightarrow> buf_step dst s BTake s'"
| delivers: "deliver_slice s = Some s' \<Longrightarrow> buf_step dst s BDeliver s'"
| closes: "buf_step dst s BClose (s\<lparr>chan_closed := True\<rparr>)"
| forgets: "buf_step dst s (BForget k) (s\<lparr>bufPool := take k (bufPool s) @ drop (Suc k) (bufPool s)\<rparr>)"

section \<open>Ownership\<close>

text \<open>The cells that a thread uses, and what they hold.\<close>

fun owned :: "buf_pc \<Rightarrow> nat list" where
  "owned (FReset x a) = [a]"
| "owned (FFill x a) = [a]"
| "owned (FCopy x a) = [a]"
| "owned (FPut x a d) = [a, d]"
| "owned (WGet x d) = [d]"
| "owned (WReset x d b) = [d, b]"
| "owned (WData x d b) = [d, b]"
| "owned (WNewline x b) = [b]"
| "owned (WLock x b) = [b]"
| "owned (WWrite x b) = [b]"
| "owned (WPut x b) = [b]"
| "owned _ = []"

fun holds :: "(nat \<Rightarrow> string) \<Rightarrow> buf_pc \<Rightarrow> bool" where
  "holds c (FFill x a) \<longleftrightarrow> c a = []"
| "holds c (FCopy x a) \<longleftrightarrow> c a = x"
| "holds c (FPut x a d) \<longleftrightarrow> c d = x"
| "holds c (WGet x d) \<longleftrightarrow> c d = x"
| "holds c (WReset x d b) \<longleftrightarrow> c d = x"
| "holds c (WData x d b) \<longleftrightarrow> c d = x \<and> c b = []"
| "holds c (WNewline x b) \<longleftrightarrow> c b = x"
| "holds c (WLock x b) \<longleftrightarrow> c b = x @ [newline]"
| "holds c (WWrite x b) \<longleftrightarrow> c b = x @ [newline]"
| "holds c _ \<longleftrightarrow> True"

lemma holds_cong: "(\<And>a. a \<in> set (owned p) \<Longrightarrow> c' a = c a) \<Longrightarrow> holds c' p = holds c p"
  by (cases p) auto

text \<open>Every cell has one owner: the pool, the asynchronous writer or one thread.\<close>

abbreviation slices :: "buffers \<Rightarrow> nat list" where
  "slices s \<equiv> in_hand s @ queue s"

abbreviation shared_cells :: "buffers \<Rightarrow> nat list" where
  "shared_cells s \<equiv> bufPool s @ slices s"

definition exclusive :: "buffers \<Rightarrow> bool" where
  "exclusive s \<longleftrightarrow>
     (\<forall>t. distinct (owned (at s t) @ shared_cells s) \<and> (\<forall>a \<in> set (owned (at s t) @ shared_cells s). a < fresh s)) \<and>
     (\<forall>t u. t \<noteq> u \<longrightarrow> set (owned (at s t)) \<inter> set (owned (at s u)) = {})"

lemma exclusiveD:
  assumes "exclusive s"
  shows "distinct (owned (at s t) @ shared_cells s)"
    and "a \<in> set (owned (at s t) @ shared_cells s) \<Longrightarrow> a < fresh s"
    and "t \<noteq> u \<Longrightarrow> a \<in> set (owned (at s t)) \<Longrightarrow> a \<notin> set (owned (at s u))"
  using assms unfolding exclusive_def by blast+

text \<open>A step of one thread only moves cells between itself, the pool and the queue, or takes new ones.\<close>

lemma exclusive_step:
  assumes "exclusive s" and "at s' = (at s)(t := p)" and "fresh s \<le> fresh s'"
    and "distinct (owned p @ shared_cells s')"
    and "\<forall>a \<in> set (owned p @ shared_cells s'). a \<in> set (owned (at s t) @ shared_cells s) \<or> fresh s \<le> a \<and> a < fresh s'"
  shows "exclusive s'"
proof -
  have other: "a \<notin> set (owned p @ shared_cells s')" "a < fresh s" if "u \<noteq> t" "a \<in> set (owned (at s u))" for u a
  proof -
    have "a < fresh s" using exclusiveD(2) [OF assms(1), of a u] that(2) by simp
    moreover have "a \<notin> set (owned (at s t))" using exclusiveD(3) [OF assms(1) that] .
    moreover have "a \<notin> set (shared_cells s)" using exclusiveD(1) [OF assms(1), of u] that(2) by auto
    ultimately show "a \<notin> set (owned p @ shared_cells s')" "a < fresh s" using assms(5) by fastforce+
  qed
  have "distinct (owned (at s' u) @ shared_cells s')" for u
  proof (cases "u = t")
    case False
    then show ?thesis using other [of u] exclusiveD(1) [OF assms(1), of u] assms(2,4) by auto
  qed (use assms(2,4) in simp)
  moreover have "\<forall>a \<in> set (owned p @ shared_cells s'). a < fresh s'"
    using assms(3,5) exclusiveD(2) [OF assms(1), of _ t] by (meson order_less_le_trans)
  then have "\<forall>a \<in> set (owned (at s' u) @ shared_cells s'). a < fresh s'" for u
    using other(2) [of u] assms(2,3) by (cases "u = t") fastforce+
  moreover have "set (owned (at s' u)) \<inter> set (owned (at s' v)) = {}" if "u \<noteq> v" for u v
    using other(1) [of u] other(1) [of v] exclusiveD(3) [OF assms(1) that] that assms(2) by auto
  ultimately show ?thesis unfolding exclusive_def by blast
qed

text \<open>A buffer from the pool is taken out of it or new.\<close>

lemma pool_Get_parts:
  assumes "pool_Get k s = (a, s')" and "distinct (shared_cells s)" and "\<forall>a \<in> set (shared_cells s). a < fresh s"
  shows "at s' = at s" and "slices s' = slices s" and "fresh s \<le> fresh s'" and "received s' = received s"
    and "distinct (a # shared_cells s')"
    and "\<forall>c \<in> set (a # shared_cells s'). c \<in> set (shared_cells s) \<or> fresh s \<le> c \<and> c < fresh s'"
    and "\<forall>c < fresh s. cells s' c = cells s c"
proof -
  have "at s' = at s \<and> slices s' = slices s \<and> fresh s \<le> fresh s' \<and> received s' = received s \<and> distinct (a # shared_cells s') \<and>
    (\<forall>c \<in> set (a # shared_cells s'). c \<in> set (shared_cells s) \<or> fresh s \<le> c \<and> c < fresh s') \<and>
    (\<forall>c < fresh s. cells s' c = cells s c)"
  proof (cases "k < length (bufPool s)")
    case True
    then have split: "bufPool s = take k (bufPool s) @ bufPool s ! k # drop (Suc k) (bufPool s)"
      by (simp add: id_take_nth_drop)
    have "a = bufPool s ! k" "s' = s\<lparr>bufPool := take k (bufPool s) @ drop (Suc k) (bufPool s)\<rparr>"
      using assms(1) True by (auto simp: pool_Get_def)
    moreover have "distinct ((take k (bufPool s) @ bufPool s ! k # drop (Suc k) (bufPool s)) @ slices s)"
      using assms(2) split by simp
    moreover have "set (bufPool s) = insert (bufPool s ! k) (set (take k (bufPool s)) \<union> set (drop (Suc k) (bufPool s)))"
      by (subst split) auto
    ultimately show ?thesis by auto
  next
    case False
    then show ?thesis using assms by (auto simp: pool_Get_def new_cell_def)
  qed
  then show "at s' = at s" and "slices s' = slices s" and "fresh s \<le> fresh s'" and "received s' = received s"
    and "distinct (a # shared_cells s')"
    and "\<forall>c \<in> set (a # shared_cells s'). c \<in> set (shared_cells s) \<or> fresh s \<le> c \<and> c < fresh s'"
    and "\<forall>c < fresh s. cells s' c = cells s c" by blast+
qed

text \<open>
  A step of thread \<open>t\<close> to \<open>p\<close>: it keeps every cell with one owner, and writes only cells of its own and
  new ones.
\<close>

definition own_step :: "nat \<Rightarrow> buf_pc \<Rightarrow> buffers \<Rightarrow> buffers \<Rightarrow> bool" where
  "own_step t p s s' \<longleftrightarrow>
     at s' = (at s)(t := p) \<and> fresh s \<le> fresh s' \<and> distinct (owned p @ shared_cells s') \<and>
     (\<forall>a \<in> set (owned p @ shared_cells s'). a \<in> set (owned (at s t) @ shared_cells s) \<or> fresh s \<le> a \<and> a < fresh s') \<and>
     (\<forall>a. a < fresh s \<longrightarrow> a \<notin> set (owned (at s t)) \<longrightarrow> cells s' a = cells s a)"

lemmas buffer_ops = step_to_def set_cell_def new_cell_def pool_Put_def

lemma hand_over_eq:
  "hand_over dst b s =
     (if dst = None then s\<lparr>received := received s @ [cells s b]\<rparr>
      else let s1 = s\<lparr>cells := (cells s)(fresh s := cells s b), fresh := Suc (fresh s)\<rparr>
           in if has_room dst s then s1\<lparr>queue := queue s @ [fresh s]\<rparr> else s1)"
  by (cases dst) (simp_all add: hand_over_def has_room_def new_cell_def Let_def)

lemma get_own_step:
  assumes "pool_Get k s = (a, s1)" and "exclusive s"
    and "owned p = owned (at s t) @ [a]"
  shows "own_step t p s (step_to t p s1)"
proof -
  have "distinct (owned (at s t) @ shared_cells s)" "\<forall>c \<in> set (owned (at s t) @ shared_cells s). c < fresh s"
    using exclusiveD(1,2) [OF assms(2)] by blast+
  then have sh: "distinct (shared_cells s)" "\<forall>c \<in> set (shared_cells s). c < fresh s"
    and own: "distinct (owned (at s t))" "\<forall>c \<in> set (owned (at s t)). c < fresh s \<and> c \<notin> set (shared_cells s)" by auto
  note get = pool_Get_parts [OF assms(1) sh]
  have "distinct (owned p @ shared_cells s1)" using get(5,6) own assms(3) by fastforce
  then show ?thesis
    using get assms(3) by (auto simp: own_step_def step_to_def)
qed

lemma buf_act_own_step:
  assumes "buf_act dst k t s = Some s'" and "exclusive s"
  shows "own_step t (at s' t) s s'"
proof -
  have ex: "distinct (owned (at s t) @ shared_cells s)" "\<forall>c \<in> set (owned (at s t) @ shared_cells s). c < fresh s"
    using exclusiveD(1,2) [OF assms(2)] by blast+
  show ?thesis
  proof (cases "at s t")
    case (FGet x)
    obtain a s1 where get: "pool_Get k s = (a, s1)" by force
    have "own_step t (FReset x a) s (step_to t (FReset x a) s1)"
      by (rule get_own_step [OF get assms(2)]) (simp add: FGet)
    then show ?thesis using assms(1) FGet get by (auto simp: buf_act_def step_to_def)
  next
    case (WGet x d)
    obtain b s1 where get: "pool_Get k s = (b, s1)" by force
    have "own_step t (WReset x d b) s (step_to t (WReset x d b) s1)"
      by (rule get_own_step [OF get assms(2)]) (simp add: WGet)
    then show ?thesis using assms(1) WGet get by (auto simp: buf_act_def step_to_def)
  next
    case (WWrite x b)
    then show ?thesis
      using assms(1) ex
      by (cases "dst = None"; cases "has_room dst s") (auto simp: buf_act_def own_step_def step_to_def hand_over_eq)
  qed (use assms(1) ex in \<open>auto simp: buf_act_def own_step_def buffer_ops split: if_splits\<close>)
qed

lemma own_step_exclusive: "own_step t p s s' \<Longrightarrow> exclusive s \<Longrightarrow> exclusive s'"
  using exclusive_step unfolding own_step_def by blast

lemma own_step_holds:
  assumes "own_step t p s s'" and "exclusive s" and "\<forall>u. holds (cells s) (at s u)" and "holds (cells s') p"
  shows "\<forall>u. holds (cells s') (at s' u)"
proof
  fix u
  show "holds (cells s') (at s' u)"
  proof (cases "u = t")
    case False
    have "cells s' a = cells s a" if "a \<in> set (owned (at s u))" for a
      using assms(1) exclusiveD(3) [OF assms(2) False that] exclusiveD(2) [OF assms(2), of a u] that
      by (simp add: own_step_def)
    then show ?thesis using holds_cong assms(1,3) False by (metis fun_upd_apply own_step_def)
  qed (use assms(1,4) in \<open>simp add: own_step_def\<close>)
qed

lemma buf_act_holds:
  assumes "buf_act dst k t s = Some s'" and "exclusive s" and "holds (cells s) (at s t)"
  shows "holds (cells s') (at s' t)"
proof -
  have ex: "distinct (owned (at s t) @ shared_cells s)" "\<forall>c \<in> set (owned (at s t) @ shared_cells s). c < fresh s"
    using exclusiveD(1,2) [OF assms(2)] by blast+
  show ?thesis
  proof (cases "at s t")
    case (WGet x d)
    obtain b s1 where get: "pool_Get k s = (b, s1)" by force
    moreover have "cells s1 d = cells s d" using pool_Get_parts(7) [OF get] ex WGet by simp
    ultimately show ?thesis using assms(1,3) WGet by (auto simp: buf_act_def step_to_def)
  next
    case (WWrite x b)
    then show ?thesis using assms(1) by (auto simp: buf_act_def step_to_def)
  qed (use assms(1,3) ex in \<open>auto simp: buf_act_def buffer_ops split: if_splits prod.splits\<close>)
qed

section \<open>Lines\<close>

definition bufs_ok :: "nat option \<Rightarrow> buffers \<Rightarrow> bool" where
  "bufs_ok dst s \<longleftrightarrow>
     exclusive s \<and> (\<forall>t. holds (cells s) (at s t)) \<and> (dst = None \<longrightarrow> slices s = [])"

text \<open>What the sink has received or will, and the lines of the calls whose write a step is.\<close>

definition handed :: "buffers \<Rightarrow> string list" where
  "handed s = received s @ map (cells s) (slices s)"

fun line_of :: "buf_label \<Rightarrow> string list" where
  "line_of (BRun t (WWrite x b) True) = [x @ [newline]]"
| "line_of _ = []"

lemma queue_kept:
  assumes "own_step t p s s'" and "exclusive s"
  shows "map (cells s') (slices s) = map (cells s) (slices s)"
proof -
  have "cells s' a = cells s a" if "a \<in> set (slices s)" for a
    using assms(1) exclusiveD(1) [OF assms(2), of t] exclusiveD(2) [OF assms(2), of a t] that
    by (auto simp: own_step_def)
  then show ?thesis by simp
qed

lemma pool_Get_queue: "pool_Get k s = (a, s') \<Longrightarrow> queue s' = queue s \<and> in_hand s' = in_hand s \<and> received s' = received s"
  by (auto simp: pool_Get_def new_cell_def split: if_splits)

lemma buf_act_handed:
  assumes "buf_act dst k t s = Some s'" and "bufs_ok dst s"
  shows "handed s' = handed s @ line_of (BRun t (at s t) (has_room dst s))"
proof -
  have ex: "exclusive s" and h: "holds (cells s) (at s t)" using assms(2) by (simp_all add: bufs_ok_def)
  note kept = queue_kept [OF buf_act_own_step [OF assms(1) ex] ex]
  show ?thesis
  proof (cases "at s t")
    case (WWrite x b)
    have "fresh s \<notin> set (slices s)" using exclusiveD(2) [OF ex, of "fresh s" t] by auto
    moreover have "dst = None \<longrightarrow> slices s = []" using assms(2) by (simp add: bufs_ok_def)
    ultimately show ?thesis
      using assms(1) WWrite h
      by (cases "dst = None"; cases "has_room dst s") (auto simp: buf_act_def handed_def step_to_def hand_over_eq has_room_def)
  qed (use assms(1) kept in \<open>auto simp: buf_act_def handed_def buffer_ops dest!: pool_Get_queue split: if_splits prod.splits\<close>)
qed

lemma fewer_shared:
  assumes "exclusive s" and "at s' = at s" and "fresh s' = fresh s"
    and "distinct (shared_cells s')" and "set (shared_cells s') \<subseteq> set (shared_cells s)"
  shows "exclusive s'"
proof (rule exclusive_step [OF assms(1)])
  show "at s' = (at s)(0 := at s 0)" using assms(2) by simp
  show "distinct (owned (at s 0) @ shared_cells s')"
    using exclusiveD(1) [OF assms(1), of 0] assms(4,5) by auto
qed (use assms(3,5) in auto)

lemma buf_step_ok:
  assumes "buf_step dst s l s'" and "bufs_ok dst s"
  shows "bufs_ok dst s' \<and> handed s' = handed s @ line_of l"
proof -
  have ex: "exclusive s" using assms(2) by (simp add: bufs_ok_def)
  from assms(1) show ?thesis
  proof (cases rule: buf_step.cases)
    case (begins t x)
    have "exclusive s'"
      by (rule exclusive_step [OF ex, where t = t and p = "FGet x"])
        (use begins exclusiveD(1) [OF ex, of t] exclusiveD(2) [OF ex, of _ t] in \<open>auto simp: step_to_def\<close>)
    then show ?thesis using assms(2) begins by (auto simp: bufs_ok_def step_to_def handed_def)
  next
    case (runs k t)
    note own = buf_act_own_step [OF runs(2) ex]
    have h: "\<forall>u. holds (cells s) (at s u)" using assms(2) by (simp add: bufs_ok_def)
    then have "\<forall>u. holds (cells s') (at s' u)"
      using own_step_holds [OF own ex h] buf_act_holds [OF runs(2) ex] by blast
    moreover have "dst = None \<longrightarrow> slices s' = []"
      using runs(2) assms(2)
      by (auto simp: buf_act_def bufs_ok_def buffer_ops hand_over_eq dest!: pool_Get_queue split: buf_pc.splits if_splits prod.splits)
    ultimately show ?thesis
      using own_step_exclusive [OF own ex] buf_act_handed [OF runs(2) assms(2)] runs(1) by (simp add: bufs_ok_def)
  next
    case takes
    then have "slices s' = slices s \<and> bufPool s' = bufPool s \<and> cells s' = cells s \<and> at s' = at s \<and> fresh s' = fresh s \<and>
        received s' = received s"
      by (auto simp: take_slice_def split: list.splits if_splits)
    then show ?thesis
      using assms(2) takes fewer_shared [OF ex, of s'] exclusiveD(1) [OF ex] by (simp add: bufs_ok_def handed_def)
  next
    case delivers
    then obtain c r where q: "in_hand s = c # r" "s' = s\<lparr>in_hand := r, received := received s @ [cells s c]\<rparr>"
      by (auto simp: deliver_slice_def split: list.splits)
    then have "exclusive s'" using exclusiveD(1) [OF ex] by (intro fewer_shared [OF ex]) auto
    then show ?thesis using assms(2) q delivers by (cases dst) (simp_all add: bufs_ok_def handed_def)
  next
    case closes
    then have "exclusive s'" using exclusiveD(1) [OF ex] by (intro fewer_shared [OF ex]) auto
    then show ?thesis using assms(2) closes by (simp add: bufs_ok_def handed_def)
  next
    case (forgets k)
    have "set (take k (bufPool s) @ drop (Suc k) (bufPool s)) \<subseteq> set (bufPool s)"
      using set_take_subset set_drop_subset by fastforce
    moreover have "distinct ((take k (bufPool s) @ drop (Suc k) (bufPool s)) @ slices s)"
    proof -
      have "distinct (bufPool s)" "distinct (slices s)" "set (bufPool s) \<inter> set (slices s) = {}"
        using exclusiveD(1) [OF ex] by auto
      then show ?thesis
        using set_take_disj_set_drop_if_distinct [of "bufPool s" k "Suc k"] calculation by auto
    qed
    ultimately have "exclusive s'" using forgets by (intro fewer_shared [OF ex]) auto
    then show ?thesis using assms(2) forgets by (simp add: bufs_ok_def handed_def)
  qed
qed

text \<open>C5: Buffers never leak into each other: in every interleaving of calls and of the goroutine, whichever buffers
  the pool gives out, the sink receives, in the order of the writes, exactly the text that each call's own formatter
  made and a newline, but for those that found the channel of an asynchronous writer full or closed; and a slice that was queued
  keeps its bytes until it is delivered.\<close>

theorem lines_from_own_buffers:
  assumes "trace (buf_step dst) s es s'" and "bufs_ok dst s"
  shows "received s' @ map (cells s') (slices s') =
    received s @ map (cells s) (slices s) @ concat (map line_of es)"
proof -
  have "bufs_ok dst s' \<and> handed s' = handed s @ concat (map line_of es)"
    using assms(1)
  proof (induction rule: trace.induct)
    case trace_nil
    then show ?case using assms(2) by simp
  next
    case (trace_snoc es u l v)
    then show ?case using buf_step_ok [OF trace_snoc.hyps(2)] by simp
  qed
  then show ?thesis by (simp add: handed_def)
qed

text \<open>One thread about to write from cell 1, with a buffer in the pool, on an asynchronous writer.\<close>

definition one_writer :: buffers where
  "one_writer =
     \<lparr>cells = (\<lambda>_. [])(1 := ''hi'' @ [newline]), fresh = 2, bufPool = [0], lock = Some 7, queue = [], chan_closed = False, in_hand = [], received = [],
      at = (\<lambda>_. BIdle)(7 := WWrite ''hi'' 1)\<rparr>"

theorem lines_from_own_buffers_witness:
  "\<exists>s'. buf_act (Some 1) 0 7 one_writer = Some s' \<and> queue s' = [2] \<and> cells s' 2 = ''hi'' @ [newline]"
proof -
  have ok: "bufs_ok (Some 1) one_writer" by (auto simp: bufs_ok_def exclusive_def one_writer_def)
  obtain s' where s': "buf_act (Some 1) 0 7 one_writer = Some s'" "queue s' = [2]" "in_hand s' = []" "received s' = []"
    by (simp add: buf_act_def one_writer_def buffer_ops hand_over_def has_room_def)
  have "trace (buf_step (Some 1)) one_writer ([] @ [BRun 7 (at one_writer 7) (has_room (Some 1) one_writer)]) s'"
    using trace.trace_snoc [of "buf_step (Some 1)" one_writer "[]", OF trace.trace_nil] buf_step.runs [OF s'(1)] by simp
  from lines_from_own_buffers [OF this ok] s' show ?thesis by (simp add: one_writer_def has_room_def)
qed

end
