(* ===== verification/LogReentrant.thy ===== *)
theory LogReentrant
  imports LogConcurrent
begin

text \<open>
  Hooks that log. \<open>writeEntry\<close> calls the hooks with the mutex held, and a Go mutex is not re-entrant, so a hook that
  logs on the same family of loggers makes a call inside a call. The threads of \<open>LogConcurrent\<close> get a stack
  of suspended calls here; \<open>prog\<close> says which hooks make a call, and which, for the entry that they are given. A panic
  in a hook is recovered by the call around it.
\<close>

section \<open>Threads with a stack\<close>

type_synonym stacks = "nat \<Rightarrow> pc list"

type_synonym hook_program = "nat \<Rightarrow> ready_entry \<Rightarrow> log_call option"

text \<open>The call that the next action of a thread makes, if that action is to run a hook that logs.\<close>

definition hook_call :: "hook_program \<Rightarrow> pc \<Rightarrow> log_call option" where
  "hook_call prog p = (case p of Hooking e (h # hs) \<Rightarrow> prog h e | _ \<Rightarrow> None)"

definition enter_hook :: "nat \<Rightarrow> log_call \<Rightarrow> shared \<times> stacks \<Rightarrow> shared \<times> stacks" where
  "enter_hook t c a =
     (let (s, st) = a in
      case pcs s t of
        Hooking e (h # hs) \<Rightarrow>
          (goto t (Called c) (s\<lparr>sinks_world :=
             log_event (EvHook h (re_level e) (re_message e) (re_seen e)) (sinks_world s)\<rparr>),
           st(t := Hooking e hs # st t))
      | _ \<Rightarrow> a)"

definition return_to :: "nat \<Rightarrow> shared \<times> stacks \<Rightarrow> (shared \<times> stacks) option" where
  "return_to t a =
     (let (s, st) = a in
      case st t of
        [] \<Rightarrow> None
      | p # ps \<Rightarrow> if pcs s t \<in> {Idle, Panicked} then Some (goto t p s, st(t := ps)) else None)"

datatype stack_label = SRun nat pc | SEnter nat log_call | SReturn nat | SBegin nat pc | SLevel level

inductive sstep :: "sinks \<Rightarrow> hook_program \<Rightarrow> shared \<times> stacks \<Rightarrow> stack_label \<Rightarrow> shared \<times> stacks \<Rightarrow> bool"
  for env prog where
  runs: "advance env t s = Some s' \<Longrightarrow> hook_call prog (pcs s t) = None \<Longrightarrow>
    sstep env prog (s, st) (SRun t (pcs s t)) (s', st)"
| enters: "hook_call prog (pcs s t) = Some c \<Longrightarrow>
    sstep env prog (s, st) (SEnter t c) (enter_hook t c (s, st))"
| returns: "return_to t a = Some b \<Longrightarrow> sstep env prog a (SReturn t) b"
| begins: "begin_with t p s = Some s' \<Longrightarrow> st t = [] \<Longrightarrow> p = Closing \<or> p = Called c \<Longrightarrow>
    sstep env prog (s, st) (SBegin t p) (s', st)"
| levels: "sstep env prog (s, st) (SLevel l)
    (s\<lparr>root_lg := (root_lg s)\<lparr>lg_minLevel := level_int32 l\<rparr>\<rparr>, st)"

section \<open>The mutex\<close>

text \<open>The holder of the mutex is the one thread with an open section, of which it has one, in whatever call.\<close>

definition open_sections :: "shared \<times> stacks \<Rightarrow> nat \<Rightarrow> nat" where
  "open_sections a t = length (filter in_section (pcs (fst a) t # snd a t))"

definition stack_inv :: "shared \<times> stacks \<Rightarrow> bool" where
  "stack_inv a \<longleftrightarrow> (\<forall>t. open_sections a t = (if mutex (fst a) = Some t then 1 else 0))"

lemma stack_invD:
  "stack_inv (s, st) \<Longrightarrow>
     length (filter in_section (pcs s t # st t)) = (if mutex s = Some t then 1 else 0)"
  by (simp add: stack_inv_def open_sections_def)

text \<open>A step that moves one thread keeps the invariant if it does so for that thread.\<close>

lemma stack_inv_step:
  assumes "stack_inv (s, st)" and "pcs s' = (pcs s)(t := p)" and "st' = st(t := ps)"
    and "length (filter in_section (p # ps)) = (if mutex s' = Some t then 1 else 0)"
    and "mutex s' = mutex s \<or> mutex s = None \<and> mutex s' = Some t \<or> mutex s = Some t \<and> mutex s' = None"
  shows "stack_inv (s', st')"
proof -
  have "open_sections (s', st') u = (if mutex s' = Some u then 1 else 0)" for u
    using stack_invD [OF assms(1), of u] assms(2-5) by (cases "u = t") (auto simp: open_sections_def split: if_splits)
  then show ?thesis by (simp add: stack_inv_def)
qed

lemma advance_section:
  assumes "advance env t s = Some s'" and "in_section (pcs s t) \<Longrightarrow> mutex s = Some t"
  shows "pcs s' = (pcs s)(t := pcs s' t)"
    and "in_section (pcs s t) \<Longrightarrow> if in_section (pcs s' t) then mutex s' = mutex s else mutex s' = None"
    and "\<not> in_section (pcs s t) \<Longrightarrow>
      if in_section (pcs s' t) then mutex s = None \<and> mutex s' = Some t else mutex s' = mutex s"
proof -
  have "pcs s' = (pcs s)(t := pcs s' t) \<and>
    (if in_section (pcs s t) then (if in_section (pcs s' t) then mutex s' = mutex s else mutex s' = None)
     else if in_section (pcs s' t) then mutex s = None \<and> mutex s' = Some t else mutex s' = mutex s)"
  proof (cases "pcs s t")
    case (Hooking e hs)
    then show ?thesis using assms by (cases hs; cases "re_level e = FATAL") (auto simp: advance_def)
  qed (use assms in \<open>auto simp: advance_def Let_def split: if_splits option.splits prod.splits\<close>)
  then show "pcs s' = (pcs s)(t := pcs s' t)"
    and "in_section (pcs s t) \<Longrightarrow> if in_section (pcs s' t) then mutex s' = mutex s else mutex s' = None"
    and "\<not> in_section (pcs s t) \<Longrightarrow>
      if in_section (pcs s' t) then mutex s = None \<and> mutex s' = Some t else mutex s' = mutex s"
    by simp_all
qed

lemma sstep_inv:
  assumes "sstep env prog a l b" and "stack_inv a"
  shows "stack_inv b"
  using assms
proof (induction rule: sstep.induct)
  case (runs t s s' st)
  note inv = stack_invD [OF runs.prems, of t]
  have own: "in_section (pcs s t) \<Longrightarrow> mutex s = Some t" using inv by (simp split: if_splits)
  note adv = advance_section [OF runs.hyps(1) own]
  have "length (filter in_section (pcs s' t # st t)) = (if mutex s' = Some t then 1 else 0)"
    using inv adv(2,3) by (cases "in_section (pcs s t)"; cases "in_section (pcs s' t)") (auto split: if_splits)
  then show ?case
    using inv adv by (intro stack_inv_step [OF runs.prems, of s' t "pcs s' t" st "st t"])
      (auto split: if_splits)
next
  case (enters s t c st)
  then obtain e h hs where p: "pcs s t = Hooking e (h # hs)"
    by (auto simp: hook_call_def split: pc.splits list.splits)
  then show ?case
    using stack_invD [OF enters.prems, of t]
    by (auto simp: enter_hook_def intro!: stack_inv_step [OF enters.prems, of _ t "Called c" _ "Hooking e hs # st t"])
next
  case (returns t a b)
  obtain s st where a: "a = (s, st)" by force
  then obtain p ps where p: "st t = p # ps" "b = (goto t p s, st(t := ps))" "pcs s t \<in> {Idle, Panicked}"
    using returns.hyps by (auto simp: return_to_def split: list.splits if_splits)
  show ?case
    using stack_invD [OF returns.prems [unfolded a], of t] p
    by (auto intro!: stack_inv_step [OF returns.prems [unfolded a], of _ t p _ ps])
next
  case (begins t p s s' st c)
  then have "s' = goto t p s" "pcs s t = Idle" "\<not> in_section p"
    by (auto simp: begin_with_def split: if_splits)
  then show ?case
    using stack_invD [OF begins.prems, of t] begins.hyps(2)
    by (auto intro!: stack_inv_step [OF begins.prems, of _ t p _ "[]"])
next
  case (levels s st l)
  then show ?case by (simp add: stack_inv_def open_sections_def)
qed

lemma stack_trace_inv: "trace (sstep env prog) a es b \<Longrightarrow> stack_inv a \<Longrightarrow> stack_inv b"
  by (induction rule: trace.induct) (auto intro: sstep_inv)

section \<open>Deadlock\<close>

text \<open>A thread that waits for the mutex that a suspended call of its own holds.\<close>

definition self_locked :: "nat \<Rightarrow> ready_entry \<Rightarrow> shared \<times> stacks \<Rightarrow> bool" where
  "self_locked t e a \<longleftrightarrow> pcs (fst a) t = Ready e \<and> list_ex in_section (snd a t) \<and> stack_inv a"

lemma self_locked_holds: "self_locked t e a \<Longrightarrow> mutex (fst a) = Some t"
  unfolding self_locked_def
  by (cases a) (auto simp: list_ex_iff filter_empty_conv dest!: stack_invD [where t = t] split: if_splits)

lemma outside_quiet:
  assumes "advance env u s = Some s'" and "\<not> in_section (pcs s u)"
  shows "sinks_world s' = sinks_world s"
  using assms by (cases "pcs s u") (auto simp: advance_def Let_def split: if_splits option.splits prod.splits)

lemma self_locked_step:
  assumes "sstep env prog a l b" and "self_locked t e a"
  shows "self_locked t e b \<and> snd b t = snd a t \<and> sinks_world (fst b) = sinks_world (fst a)"
proof -
  note inv = sstep_inv [OF assms(1)]
  have others: "\<not> in_section (pcs (fst a) u) \<and> \<not> list_ex in_section (snd a u)" if "u \<noteq> t" for u
    using stack_invD [of "fst a" "snd a" u] self_locked_holds [OF assms(2)] assms(2) that
    by (auto simp: self_locked_def list_ex_iff filter_empty_conv split: if_splits)
  have self: "pcs (fst a) t = Ready e" "list_ex in_section (snd a t)" "stack_inv a" "mutex (fst a) = Some t"
    using assms(2) self_locked_holds by (auto simp: self_locked_def)
  from assms(1) have "pcs (fst b) t = Ready e \<and> snd b t = snd a t \<and> sinks_world (fst b) = sinks_world (fst a)"
  proof (cases rule: sstep.cases)
    case (runs u s s' st)
    then have "u \<noteq> t" using self by (auto simp: advance_def)
    then show ?thesis using runs self others [of u] outside_quiet advance_others [OF runs(4), of t] by simp
  next
    case (enters s u c st)
    then obtain f h hs where "pcs s u = Hooking f (h # hs)"
      by (auto simp: hook_call_def split: pc.splits list.splits)
    then have "u = t" using others [of u] enters(1) by (cases "u = t") simp_all
    then show ?thesis using \<open>pcs s u = _\<close> self(1) enters(1) by simp
  next
    case (returns u)
    then show ?thesis using self(1) by (cases a) (auto simp: return_to_def split: list.splits if_splits)
  next
    case (begins u p s s' st c)
    then show ?thesis using self(1) by (auto simp: begin_with_def split: if_splits)
  next
    case (levels s st l)
    then show ?thesis using self(1) by simp
  qed
  then show ?thesis using inv self(2,3) by (simp add: self_locked_def)
qed

lemma self_locked_trace:
  assumes "trace (sstep env prog) a es b" and "self_locked t e a"
  shows "self_locked t e b \<and> sinks_world (fst b) = sinks_world (fst a)"
  using assms
proof (induction rule: trace.induct)
  case (trace_snoc es b l c)
  then show ?case using self_locked_step [OF trace_snoc.hyps(2)] by auto
qed simp

text \<open>C24: A hook that logs deadlocks the family: when the call of a hook passes its guards (closed flag, level and sampler)
  and the middleware keeps its entry, its thread can come to
  wait for the mutex that it holds itself, and from there nothing helps: whatever any thread does, this one
  never moves again, the mutex is never free, and no sink is ever written to by the family again.\<close>

theorem hook_that_logs_deadlocks:
  assumes "stack_inv (s, st)" and "pcs s t = Hooking e (h # hs)" and "prog h e = Some c"
    and "\<not> lg_closed (root_lg s)" and "int32_level (lg_minLevel (root_lg s)) \<le> lc_level c"
    and "sample_guard (lc_env c) (root_lg s) (lc_level c) (lc_message c) = Some (True, r)"
    and "prepare r c (counter s) = (Some e', n)"
  shows "\<exists>es b. trace (sstep env prog) (s, st) es b \<and> pcs (fst b) t = Ready e' \<and>
    (\<forall>fs d. trace (sstep env prog) b fs d \<longrightarrow>
       pcs (fst d) t = Ready e' \<and> mutex (fst d) = Some t \<and> sinks_world (fst d) = sinks_world (fst b))"
proof -
  let ?w = "log_event (EvHook h (re_level e) (re_message e) (re_seen e)) (sinks_world s)"
  let ?st = "st(t := Hooking e hs # st t)" and ?at = "\<lambda>p. goto t p (s\<lparr>sinks_world := ?w\<rparr>)"
  let ?b = "(goto t (Ready e') (s\<lparr>root_lg := r, sinks_world := ?w, counter := n\<rparr>), ?st)"
    and ?sampled = "goto t (Sampled c) (s\<lparr>root_lg := r, sinks_world := ?w\<rparr>)"
  have s1: "sstep env prog (s, st) (SEnter t c) (?at (Called c), ?st)"
    using sstep.enters [of prog s t c env st] assms(2,3) by (simp add: hook_call_def enter_hook_def)
  have s2: "sstep env prog (?at (Called c), ?st) (SRun t (Called c)) (?at (NotClosed c), ?st)"
    using sstep.runs [of env t "?at (Called c)" "?at (NotClosed c)" prog] assms(4)
    by (simp add: advance_def goto_def hook_call_def)
  have s3: "sstep env prog (?at (NotClosed c), ?st) (SRun t (NotClosed c)) (?at (Enabled c), ?st)"
    using sstep.runs [of env t "?at (NotClosed c)" "?at (Enabled c)" prog] assms(5)
    by (simp add: advance_def goto_def hook_call_def)
  have s4: "sstep env prog (?at (Enabled c), ?st) (SRun t (Enabled c)) (?sampled, ?st)"
    using sstep.runs [of env t "?at (Enabled c)" ?sampled prog] assms(6)
    by (simp add: advance_def goto_def hook_call_def)
  have s5: "sstep env prog (?sampled, ?st) (SRun t (Sampled c)) ?b"
    using sstep.runs [of env t ?sampled "fst ?b" prog] assms(7)
    by (simp add: advance_def goto_def hook_call_def)
  note go = trace_step_first [where step = "sstep env prog"] trace_single [where step = "sstep env prog"]
  have tr: "trace (sstep env prog) (s, st)
      [SEnter t c, SRun t (Called c), SRun t (NotClosed c), SRun t (Enabled c), SRun t (Sampled c)] ?b"
    by (rule go(1) [OF s1 go(1) [OF s2 go(1) [OF s3 go(1) [OF s4 go(2) [OF s5]]]]])
  have locked: "self_locked t e' ?b" using stack_trace_inv [OF tr assms(1)] by (simp add: self_locked_def)
  have "pcs (fst d) t = Ready e' \<and> mutex (fst d) = Some t \<and> sinks_world (fst d) = sinks_world (fst ?b)"
    if "trace (sstep env prog) ?b fs d" for fs d
    using self_locked_trace [OF that locked] self_locked_holds [of t e' d] by (simp add: self_locked_def)
  moreover have "pcs (fst ?b) t = Ready e'" by simp
  ultimately show ?thesis using tr by blast
qed

text \<open>A thread that has just written an entry and is about to run a hook that logs at \<open>ERROR\<close>.\<close>

definition hooking :: shared where
  "hooking =
     \<lparr>root_lg = zero_logger\<lparr>lg_out := Sink 0 True None, lg_hooks := [9]\<rparr>, sinks_world = empty_world, counter = 0,
      mutex = Some 1,
      pcs = (\<lambda>_. Idle)(1 := Hooking \<lparr>re_level = INFO, re_message = ''a'', re_seen = [], re_line = ''a''\<rparr> [9])\<rparr>"

definition alert :: log_call where
  "alert = \<lparr>lc_env = plain_env, lc_level = ERROR, lc_message = ''alert'', lc_own = [], lc_fields = []\<rparr>"

theorem hook_that_logs_deadlocks_witness:
  "\<exists>es b e. trace (sstep quiet_sinks (\<lambda>h e. Some alert)) (hooking, \<lambda>_. []) es b \<and> pcs (fst b) 1 = Ready e \<and>
     (\<forall>fs d. trace (sstep quiet_sinks (\<lambda>h e. Some alert)) b fs d \<longrightarrow> mutex (fst d) = Some 1)"
proof -
  obtain e n where e: "prepare (root_lg hooking) alert (counter hooking) = (Some e, n)"
    by (cases "assemble plain_env (root_lg hooking) ERROR ''alert'' (mergeFields [] []) (counter hooking)")
      (simp add: prepare_def hooking_def alert_def zero_logger_def)
  have "stack_inv (hooking, \<lambda>_. [])" by (simp add: stack_inv_def open_sections_def hooking_def)
  moreover have "pcs hooking 1 = Hooking \<lparr>re_level = INFO, re_message = ''a'', re_seen = [], re_line = ''a''\<rparr> (9 # [])"
    "\<not> lg_closed (root_lg hooking)" "int32_level (lg_minLevel (root_lg hooking)) \<le> lc_level alert"
    "sample_guard (lc_env alert) (root_lg hooking) (lc_level alert) (lc_message alert) = Some (True, root_lg hooking)"
    by (simp_all add: hooking_def alert_def zero_logger_def int32_level_def sample_guard_def level_consts)
  ultimately show ?thesis
    using hook_that_logs_deadlocks [of hooking "\<lambda>_. []" 1 _ 9 "[]" "\<lambda>h e. Some alert" alert "root_lg hooking" e n quiet_sinks] e
    by blast
qed

end
