(* ===== verification/LogPanic.thy ===== *)
theory LogPanic
  imports LogPipeline
begin

text \<open>
  Panics of code that the logger calls: sinks, the values of an entry (\<open>LogValue\<close>, \<open>Error\<close>), middleware and formatter,
  and a replaced exit function. Hooks, context extractors and \<open>AsyncWriter.Write\<close> recover; everywhere else a panic unwinds
  the logging call, runs the deferred \<open>r.mu.Unlock()\<close> when the call holds the mutex, and reaches the caller of
  the logger, who may recover and go on. In the goroutine of an asynchronous writer nobody can recover, and the process
  dies. This theory adds the panics to the threads of \<open>LogConcurrent\<close>; as there, the goroutine of an
  asynchronous writer runs when the writer is closed.
\<close>

section \<open>Writers that panic\<close>

text \<open>Whether the \<open>Write\<close> or the \<open>Sync\<close> of a sink panics, for the history up to and with that call; whether preparing
  the entry of a call does; whether an exit function does.\<close>

record faults =
  write_panics :: "nat \<Rightarrow> io_event list \<Rightarrow> bool"
  sync_panics :: "nat \<Rightarrow> io_event list \<Rightarrow> bool"
  entry_panics :: "log_call \<Rightarrow> bool"
  exit_panics :: "exit_func \<Rightarrow> bool"

text \<open>\<open>None\<close> for a \<open>Write\<close> that panics. What happened up to there has happened.\<close>

fun try_Write :: "sinks \<Rightarrow> faults \<Rightarrow> writer \<Rightarrow> string \<Rightarrow> world \<Rightarrow> write_result option \<times> world"
  and try_fanout :: "sinks \<Rightarrow> faults \<Rightarrow> writer list \<Rightarrow> string \<Rightarrow> world \<Rightarrow> write_result option \<times> world" where
  "try_Write env f (Sink i sy fd) p w =
     (let (res, w) = sink_write env i p w in (if write_panics f i (io w) then None else Some res, w))"
| "try_Write env f Discard p w = (Some (length p, None), w)"
| "try_Write env f (AsyncWriter i inner) p w =
     (let (oc, res, a) = async_Write p (asyncs w i) in (Some res, set_async i a w))"
| "try_Write env f (FilteredWriter inner minLevel levelKey) p w =
     (if extractLevel p levelKey < minLevel then (Some (length p, None), w) else try_Write env f inner p w)"
| "try_Write env f (FanOutWriter ws) p w = try_fanout env f ws p w"
| "try_fanout env f [] p w = (Some (length p, None), w)"
| "try_fanout env f (x # r) p w =
     (case try_Write env f x p w of
        (None, w) \<Rightarrow> (None, w)
      | (Some (n, None), w) \<Rightarrow> try_fanout env f r p w
      | (Some (n, Some e), w) \<Rightarrow> (Some (n, Some (wrap_fanout e)), w))"

text \<open>The goroutine passes on what is pending, until a write panics.\<close>

fun try_drain :: "sinks \<Rightarrow> faults \<Rightarrow> writer \<Rightarrow> string list \<Rightarrow> world \<Rightarrow> bool \<times> world" where
  "try_drain env f d [] w = (True, w)"
| "try_drain env f d (m # ms) w =
     (case try_Write env f d m w of
        (None, w) \<Rightarrow> (False, w)
      | (Some res, w) \<Rightarrow> try_drain env f d ms w)"

text \<open>A \<open>Sync\<close> returns, with an error or without, panics, or takes the process down.\<close>

datatype attempt = Returns | Panics | Crashes

fun try_Sync :: "sinks \<Rightarrow> faults \<Rightarrow> writer \<Rightarrow> world \<Rightarrow> attempt \<times> world"
  and try_sync_loop :: "sinks \<Rightarrow> faults \<Rightarrow> writer list \<Rightarrow> world \<Rightarrow> attempt \<times> world" where
  "try_Sync env f (Sink i sy fd) w =
     (let (err, w) = sink_sync env i w in (if sync_panics f i (io w) then Panics else Returns, w))"
| "try_Sync env f Discard w = (Returns, w)"
| "try_Sync env f (AsyncWriter i inner) w =
     (let a = asyncs w i in
      if once a \<noteq> OnceNew then (Returns, w)
      else
        (case try_drain env f inner (pending a) (set_async i (Close_call (is_Syncer inner) a) w) of
           (False, w) \<Rightarrow> (Crashes, w)
         | (True, w) \<Rightarrow> if is_Syncer inner then try_Sync env f inner w else (Returns, w)))"
| "try_Sync env f (FilteredWriter inner minLevel levelKey) w =
     (if is_Syncer inner then try_Sync env f inner w else (Returns, w))"
| "try_Sync env f (FanOutWriter ws) w = try_sync_loop env f ws w"
| "try_sync_loop env f [] w = (Returns, w)"
| "try_sync_loop env f (x # r) w =
     (if is_Syncer x then
        (case try_Sync env f x w of
           (Returns, w) \<Rightarrow> try_sync_loop env f r w
         | (bad, w) \<Rightarrow> (bad, w))
      else try_sync_loop env f r w)"

text \<open>The write of a line, with the fallback: whether it returned.\<close>

definition try_write_line :: "sinks \<Rightarrow> faults \<Rightarrow> logger \<Rightarrow> string \<Rightarrow> world \<Rightarrow> bool \<times> logger \<times> world" where
  "try_write_line env f r line w =
     (case try_Write env f (lg_out r) line w of
        (None, w) \<Rightarrow> (False, r, w)
      | (Some (n, None), w) \<Rightarrow> (True, r, w)
      | (Some (n, Some _), w) \<Rightarrow>
          (let r = r\<lparr>lg_writeErrors := lg_writeErrors r + 1\<rparr>
           in case lg_fallbackWriter r of
                None \<Rightarrow> (True, r, w)
              | Some fb \<Rightarrow> (let (res, w) = try_Write env f fb line w in (res \<noteq> None, r, w))))"

definition try_flush :: "sinks \<Rightarrow> faults \<Rightarrow> logger \<Rightarrow> world \<Rightarrow> attempt \<times> world" where
  "try_flush env f r w = (if is_Syncer (lg_out r) then try_Sync env f (lg_out r) w else (Returns, w))"

section \<open>Threads that panic\<close>

text \<open>
  What goes wrong in the next action of a thread, and the state after it. A call that panics before it has the mutex is
  over; one that panics with the mutex held skips the rest of the section and releases it. Hooks are not among
  these points, as their panics are recovered in place.
\<close>

datatype mishap = NoMishap | Unwinds shared | Dies shared

definition mishap :: "sinks \<Rightarrow> faults \<Rightarrow> nat \<Rightarrow> shared \<Rightarrow> mishap" where
  "mishap env f t s =
     (let r = root_lg s
      in case pcs s t of
           Sampled c \<Rightarrow>
             if entry_panics f c then Unwinds (goto t Idle (s\<lparr>counter := snd (prepare r c (counter s))\<rparr>)) else NoMishap
         | Writing e \<Rightarrow>
             (let (ok, r, w) = try_write_line env f r (re_line e) (sinks_world s)
              in if ok then NoMishap else Unwinds (goto t Leaving (s\<lparr>root_lg := r, sinks_world := w\<rparr>)))
         | Exiting \<Rightarrow>
             (case try_flush env f r (sinks_world s) of
                (Returns, w) \<Rightarrow>
                  if exit_panics f (lg_exitFunc r)
                  then Unwinds (goto t Leaving (s\<lparr>sinks_world := log_event (EvExit (lg_exitFunc r) 1) w\<rparr>)) else NoMishap
              | (Panics, w) \<Rightarrow> Unwinds (goto t Leaving (s\<lparr>sinks_world := w\<rparr>))
              | (Crashes, w) \<Rightarrow> Dies (s\<lparr>sinks_world := w\<rparr>))
         | Flushing \<Rightarrow>
             (case try_flush env f r (sinks_world s) of
                (Returns, w) \<Rightarrow> NoMishap
              | (Panics, w) \<Rightarrow> Unwinds (goto t Leaving (s\<lparr>sinks_world := w\<rparr>))
              | (Crashes, w) \<Rightarrow> Dies (s\<lparr>sinks_world := w\<rparr>))
         | _ \<Rightarrow> NoMishap)"

text \<open>The state has a flag for the process being alive.\<close>

datatype panic_label = Fine label | Panicking nat pc | Crashing nat pc

fun actor :: "label \<Rightarrow> nat option" where
  "actor (Run t p) = Some t"
| "actor _ = None"

inductive xstep :: "sinks \<Rightarrow> faults \<Rightarrow> shared \<times> bool \<Rightarrow> panic_label \<Rightarrow> shared \<times> bool \<Rightarrow> bool" for env f where
  goes_on: "cstep env s l s' \<Longrightarrow> (\<And>t. actor l = Some t \<Longrightarrow> mishap env f t s = NoMishap) \<Longrightarrow>
    xstep env f (s, True) (Fine l) (s', True)"
| unwinds: "mishap env f t s = Unwinds s' \<Longrightarrow> xstep env f (s, True) (Panicking t (pcs s t)) (s', True)"
| dies: "mishap env f t s = Dies s' \<Longrightarrow> xstep env f (s, True) (Crashing t (pcs s t)) (s', False)"

section \<open>The writers with and without panics\<close>

text \<open>Up to a panic everything happens as it would without; a \<open>Write\<close> that does not panic is the ordinary one.\<close>

lemma grown_fanout: "\<exists>more. io (snd (fanout_loop env ds p w)) = io w @ more"
  using adds_only_write(2) [of "\<lambda>_. True" w env ds p] by (auto simp: adds_only_def)

lemma try_Write_prefix:
  "(\<exists>rest. io (snd (writer_Write env d p w)) = io (snd (try_Write env f d p w)) @ rest) \<and>
   (\<forall>res. fst (try_Write env f d p w) = Some res \<longrightarrow> writer_Write env d p w = (res, snd (try_Write env f d p w)))"
  and try_fanout_prefix:
  "(\<exists>rest. io (snd (fanout_loop env ds p w)) = io (snd (try_fanout env f ds p w)) @ rest) \<and>
   (\<forall>res. fst (try_fanout env f ds p w) = Some res \<longrightarrow> fanout_loop env ds p w = (res, snd (try_fanout env f ds p w)))"
proof (induction env f d p w and env f ds p w rule: try_Write_try_fanout.induct)
  case (7 env f x r p w)
  obtain res v where v: "try_Write env f x p w = (res, v)" by force
  show ?case
  proof (cases res)
    case None
    obtain n err u where u: "writer_Write env x p w = ((n, err), u)" by (metis surj_pair)
    obtain rest where "io u = io v @ rest" using "7.IH"(1) v u by auto
    moreover obtain more where "io (snd (fanout_loop env (x # r) p w)) = io u @ more"
      using u grown_fanout [of env r p u] by (cases err) auto
    ultimately show ?thesis using v None by simp
  next
    case (Some a)
    then have "writer_Write env x p w = (a, v)" using "7.IH"(1) v by simp
    then show ?thesis using "7.IH"(2) v Some
      by (cases a; cases "snd a") auto
  qed
qed (auto simp: Let_def split_def prod_eq_iff)

definition no_faults :: faults where
  "no_faults = \<lparr>write_panics = \<lambda>i h. False, sync_panics = \<lambda>i h. False, entry_panics = \<lambda>c. False, exit_panics = \<lambda>x. False\<rparr>"

lemma try_Write_ordinary:
  "try_Write env no_faults d p w = (Some (fst (writer_Write env d p w)), snd (writer_Write env d p w))"
proof -
  have "fst (try_Write env no_faults d p w) \<noteq> None" and "fst (try_fanout env no_faults ds p w) \<noteq> None" for ds
  proof (induction env "no_faults" d p w and env "no_faults" ds p w rule: try_Write_try_fanout.induct)
    case (7 env x r p w)
    then show ?case
      by (cases "try_Write env no_faults x p w") (auto split: option.splits)
  qed (simp_all add: no_faults_def Let_def split_def)
  then obtain res where "fst (try_Write env no_faults d p w) = Some res" by blast
  then show ?thesis using try_Write_prefix by (metis fst_conv prod.collapse snd_conv)
qed

lemma try_drain_ordinary: "try_drain env no_faults d ms w = (True, write_all env d ms w)"
  by (induction ms arbitrary: w) (simp_all add: try_Write_ordinary write_all_def)

lemma try_Sync_ordinary:
  "try_Sync env no_faults d w = (Returns, snd (writer_Sync env d w))"
  "try_sync_loop env no_faults ds w = (Returns, snd (sync_loop env ds errs w))"
proof (induction env "no_faults" d w and env "no_faults" ds w arbitrary: and errs rule: try_Sync_try_sync_loop.induct)
  case (3 env i inner w)
  then show ?case by (simp add: try_drain_ordinary Let_def)
next
  case (7 env x r w)
  then show ?case by (cases "writer_Sync env x w") (auto simp: Let_def)
qed (simp_all add: no_faults_def Let_def split_def)

lemma try_write_line_prefix:
  assumes "try_write_line env f r line w = (ok, r', w')"
  shows "\<exists>rest. io (snd (write_line env r line w)) = io w' @ rest" and "ok \<Longrightarrow> write_line env r line w = (r', w')"
    and "same_output r' r"
proof -
  obtain res v where v: "try_Write env f (lg_out r) line w = (res, v)" by force
  have "(\<exists>rest. io (snd (write_line env r line w)) = io w' @ rest) \<and>
    (ok \<longrightarrow> write_line env r line w = (r', w')) \<and> same_output r' r"
  proof (cases res)
    case None
    obtain n err u where u: "writer_Write env (lg_out r) line w = ((n, err), u)" by (metis surj_pair)
    obtain rest where "io u = io v @ rest"
      using try_Write_prefix [of env "lg_out r" line w f] v u by auto
    moreover obtain more where "io (snd (write_line env r line w)) = io u @ more"
      using u adds_only_write(1) [of "\<lambda>_. True" u env _ line]
      by (cases err; cases "lg_fallbackWriter r") (auto simp: write_line_def adds_only_def)
    ultimately show ?thesis using assms v None by (auto simp: try_write_line_def same_output_def)
  next
    case (Some a)
    then have "writer_Write env (lg_out r) line w = (a, v)"
      using try_Write_prefix [of env "lg_out r" line w f] v by simp
    then show ?thesis
      using assms v Some try_Write_prefix [of env _ line v f]
      by (cases a; cases "snd a"; cases "lg_fallbackWriter r")
        (auto simp: try_write_line_def write_line_def same_output_def Let_def split_def prod_eq_iff)
  qed
  then show "\<exists>rest. io (snd (write_line env r line w)) = io w' @ rest" and "ok \<Longrightarrow> write_line env r line w = (r', w')"
    and "same_output r' r" by blast+
qed

text \<open>Nothing goes wrong when nothing panics.\<close>

lemma try_write_line_ordinary: "try_write_line env no_faults r line w = (True, write_line env r line w)"
proof -
  obtain ok r' w' where w: "try_write_line env no_faults r line w = (ok, r', w')" by (rule prod_cases3)
  then have "ok"
    by (auto simp: try_write_line_def try_Write_ordinary Let_def split: option.splits prod.splits)
  then show ?thesis using w try_write_line_prefix(2) [OF w] by simp
qed

lemma try_flush_ordinary: "try_flush env no_faults r w = (Returns, flush_out env r w)"
  by (simp add: try_flush_def flush_out_def try_Sync_ordinary)

lemma no_faults_simps: "entry_panics no_faults c = False" "exit_panics no_faults x = False"
  by (simp_all add: no_faults_def)

lemma no_mishap: "mishap env no_faults t s = NoMishap"
proof (cases "pcs s t")
  case (Writing e)
  then show ?thesis by (simp add: mishap_def try_write_line_ordinary split_def)
qed (simp_all add: mishap_def try_flush_ordinary Let_def no_faults_simps)

section \<open>The mutex\<close>

lemma mishap_moves:
  assumes "mishap env f t s = Unwinds s'" and "lock_inv s"
  shows "moves t s s'" and "same_output (root_lg s') (root_lg s)"
proof -
  have "moves t s s' \<and> same_output (root_lg s') (root_lg s)"
  proof (cases "pcs s t")
    case (Writing e)
    obtain ok r w where w: "try_write_line env f (root_lg s) (re_line e) (sinks_world s) = (ok, r, w)"
      by (rule prod_cases3)
    show ?thesis
      using assms(1) w Writing try_write_line_prefix(3) [OF w] lock_invD [OF assms(2), of t]
      by (auto simp: mishap_def moves_def split: if_splits)
  qed (use assms lock_invD [OF assms(2), of t] in
      \<open>auto simp: mishap_def moves_def Let_def same_output_def split: if_splits prod.splits attempt.splits\<close>)
  then show "moves t s s'" and "same_output (root_lg s') (root_lg s)" by blast+
qed

lemma mishap_dies_frame: "mishap env f t s = Dies s' \<Longrightarrow> pcs s' = pcs s \<and> mutex s' = mutex s \<and> root_lg s' = root_lg s"
  by (cases "pcs s t") (auto simp: mishap_def Let_def split: if_splits prod.splits attempt.splits)

lemma xstep_lock:
  assumes "xstep env f (s, a) l (s', a')" and "lock_inv s"
  shows "lock_inv s'"
  using assms(1)
proof (cases rule: xstep.cases)
  case (goes_on l)
  then show ?thesis using lock_inv_step assms(2) by blast
next
  case (unwinds t)
  then show ?thesis using lock_inv_moves [OF assms(2) mishap_moves(1)] assms(2) by blast
next
  case (dies t)
  then show ?thesis using mishap_dies_frame assms(2) unfolding lock_inv_def by metis
qed

lemma xtrace_lock:
  "trace (xstep env f) a es b \<Longrightarrow> lock_inv (fst a) \<Longrightarrow> lock_inv (fst b)"
proof (induction rule: trace.induct)
  case (trace_snoc es b l c)
  then show ?case using xstep_lock by (cases b; cases c) fastforce
qed simp

section \<open>Properties\<close>

text \<open>Without panics the steps are those of \<open>LogConcurrent\<close>.\<close>

theorem without_panics:
  "xstep env no_faults (s, True) l b \<longleftrightarrow> (\<exists>k s'. l = Fine k \<and> b = (s', True) \<and> cstep env s k s')"
proof
  show "xstep env no_faults (s, True) l b \<Longrightarrow> \<exists>k s'. l = Fine k \<and> b = (s', True) \<and> cstep env s k s'"
    by (erule xstep.cases) (simp_all add: no_mishap)
next
  assume "\<exists>k s'. l = Fine k \<and> b = (s', True) \<and> cstep env s k s'"
  then show "xstep env no_faults (s, True) l b" by (auto intro: xstep.goes_on simp: no_mishap)
qed

text \<open>Whose step a label is.\<close>

fun panic_actor :: "panic_label \<Rightarrow> nat option" where
  "panic_actor (Fine l) = actor l"
| "panic_actor (Panicking t p) = Some t"
| "panic_actor (Crashing t p) = Some t"

lemma can_act:
  assumes "advance env t s = Some s'"
  shows "\<exists>l b. xstep env f (s, True) l b \<and> panic_actor l = Some t"
proof (cases "mishap env f t s")
  case NoMishap
  have "xstep env f (s, True) (Fine (Run t (pcs s t))) (s', True)"
    by (rule xstep.goes_on [OF cstep.run [OF assms]]) (simp add: NoMishap)
  then show ?thesis by (metis actor.simps(1) panic_actor.simps(1))
next
  case (Unwinds u)
  from xstep.unwinds [OF this] show ?thesis by (metis panic_actor.simps(2))
next
  case (Dies u)
  from xstep.dies [OF this] show ?thesis by (metis panic_actor.simps(3))
qed

lemma mishap_todo:
  assumes "mishap env f t s = Unwinds s'"
  shows "todo (hook_count s) (pcs s' t) < todo (hook_count s) (pcs s t)"
proof (cases "pcs s t")
  case (Writing e)
  then show ?thesis using assms by (auto simp: mishap_def split: if_splits prod.splits)
qed (use assms in \<open>auto simp: mishap_def Let_def split: if_splits prod.splits attempt.splits\<close>)

lemma own_step_todo:
  assumes "xstep env f (s, True) l (s', True)" and "panic_actor l = Some t"
  shows "todo (hook_count s) (pcs s' t) < todo (hook_count s) (pcs s t)"
  using assms(1)
proof (cases rule: xstep.cases)
  case (goes_on k)
  then obtain p where "k = Run t p" using assms(2) by (cases k) auto
  then show ?thesis using goes_on(2) advance_todo by (auto elim: cstepE)
next
  case (unwinds u)
  then show ?thesis using assms(2) mishap_todo by simp
qed simp

lemma holder_advances: "lock_inv s \<Longrightarrow> mutex s = Some t \<Longrightarrow> \<exists>s'. advance env t s = Some s'"
  using lock_invD [of s t]
  by (cases "pcs s t") (auto simp: advance_def Let_def split: list.splits prod.splits)

lemma free_advances: "mutex s = None \<Longrightarrow> pcs s t \<notin> {Idle, Panicked} \<Longrightarrow> \<exists>s'. advance env t s = Some s'"
  by (cases "pcs s t") (auto simp: advance_def Let_def split: list.splits prod.splits option.splits)

text \<open>C20: No panic wedges the family: whatever panics, and wherever in a call, as long as the process lives the holder of
  the mutex can go on, when the mutex is free every thread inside a call can, and each step brings its thread nearer
  to the end of its call; so every mutex that is taken is released again.\<close>

theorem panics_never_wedge:
  assumes "trace (xstep env f) (s, True) es (s', True)" and "lock_inv s"
    and "mutex s' = Some t \<or> mutex s' = None \<and> pcs s' t \<notin> {Idle, Panicked}"
  shows "(\<exists>l b. xstep env f (s', True) l b \<and> panic_actor l = Some t) \<and>
    (\<forall>l u. xstep env f (s', True) l (u, True) \<and> panic_actor l = Some t \<longrightarrow>
       todo (hook_count s') (pcs u t) < todo (hook_count s') (pcs s' t))"
proof -
  have "lock_inv s'" using xtrace_lock [OF assms(1)] assms(2) by simp
  then obtain u where "advance env t s' = Some u"
    using assms(3) holder_advances free_advances by blast
  then show ?thesis using can_act own_step_todo by blast
qed

section \<open>What is written\<close>

definition prints_to :: "nat \<Rightarrow> logger \<Rightarrow> bool" where
  "prints_to i r \<longleftrightarrow>
     (\<exists>sy fd. lg_out r = Sink i sy fd) \<and>
     (case lg_fallbackWriter r of None \<Rightarrow> True | Some (Sink k sy fd) \<Rightarrow> k \<noteq> i | Some _ \<Rightarrow> False)"

lemma prints_to_same: "same_output r' r \<Longrightarrow> prints_to i r' \<longleftrightarrow> prints_to i r"
  by (simp add: prints_to_def same_output_def)

lemma one_line:
  assumes "prints_to i r"
  shows "sink_lines i (io (snd (snd (try_write_line env f r line w)))) = sink_lines i (io w) @ [line]"
  using assms
  by (auto simp: prints_to_def try_write_line_def sink_write_def Let_def
      split: option.splits writer.splits prod.splits if_splits)

lemma no_line:
  assumes "prints_to i r"
  shows "sink_lines i (io (snd (try_flush env f r w))) = sink_lines i (io w)" and "fst (try_flush env f r w) \<noteq> Crashes"
  using assms by (auto simp: prints_to_def try_flush_def sink_sync_def split: if_splits)

text \<open>The lines of the calls that took the mutex, in that order.\<close>

fun entered :: "panic_label \<Rightarrow> string list" where
  "entered (Fine (Run t (Ready e))) = [re_line e]"
| "entered _ = []"

lemma writing_now_at: "lock_inv s \<Longrightarrow> in_section (pcs s t) \<Longrightarrow> writing_now s = line_of_pc (pcs s t)"
  using lock_invD [of s t] by (simp add: writing_now_def)

lemma moved_writing_now:
  assumes "moves t s s'" and "lock_inv s" and "in_section (pcs s t)"
  shows "writing_now s' = line_of_pc (pcs s' t)"
proof (cases "mutex s' = Some t")
  case False
  then have "mutex s' = None" using assms lock_invD [OF assms(2), of t] by (auto simp: moves_def)
  moreover have "\<not> in_section (pcs s' t)" using assms(1) False by (simp add: moves_def)
  ultimately show ?thesis by (cases "pcs s' t") (simp_all add: writing_now_def line_of_pc_def)
qed (simp add: writing_now_def)

lemma goes_on_lines:
  assumes "cstep env s l s'" and "lock_inv s" and "prints_to i (root_lg s)"
  shows "sink_lines i (io (sinks_world s')) @ writing_now s' =
    sink_lines i (io (sinks_world s)) @ writing_now s @ entered (Fine l)"
proof (cases "is_run l")
  case False
  then have "sinks_world s' = sinks_world s" "entered (Fine l) = []"
    using assms(1) by (auto elim!: cstep.cases simp: begin_with_def split: if_splits)
  then show ?thesis using begins_order [OF assms(1) False assms(2)] by simp
next
  case True
  then obtain t where t: "advance env t s = Some s'" "l = Run t (pcs s t)"
    using assms(1) by (auto elim: cstep.cases)
  note mv = advance_moves [OF assms(2) t(1)]
  show ?thesis
  proof (cases "in_writer (pcs s t)")
    case False
    have "entered (Fine l) = taken_lines [OfCaller (Run t (pcs s t))]" by (cases "pcs s t") (simp_all add: t(2))
    then show ?thesis using acts_order [OF t(1) False assms(2)] acts_frame [OF t(1) False, of i i] by simp
  next
    case in_w: True
    then have sec: "in_section (pcs s t)" by (cases "pcs s t") simp_all
    note now = writing_now_at [OF assms(2) sec] moved_writing_now [OF mv assms(2) sec]
    show ?thesis
    proof (cases "pcs s t")
      case (Writing e)
      have "sinks_world s' = snd (write_line env (root_lg s) (re_line e) (sinks_world s))" "line_of_pc (pcs s' t) = []"
        using t(1) Writing by (auto simp: advance_def line_of_pc_def split: prod.splits)
      then show ?thesis
        using one_line [OF assms(3), of env no_faults "re_line e" "sinks_world s"] now Writing t(2)
        by (simp add: line_of_pc_def try_write_line_ordinary)
    next
      case Exiting
      then show ?thesis
        using t now no_line(1) [OF assms(3), of env no_faults "sinks_world s"]
        by (auto simp: advance_def exit_fatal_def flush_out_def [symmetric] try_flush_ordinary log_event_def line_of_pc_def Let_def)
    next
      case Flushing
      then show ?thesis
        using t now no_line(1) [OF assms(3), of env no_faults "sinks_world s"]
        by (auto simp: advance_def flush_out_def [symmetric] try_flush_ordinary line_of_pc_def Let_def)
    qed (use in_w in simp_all)
  qed
qed

lemma unwound_section:
  assumes "mishap env f t s = Unwinds s'" and "in_section (pcs s t)" and "prints_to i (root_lg s)"
  shows "sink_lines i (io (sinks_world s')) @ line_of_pc (pcs s' t) = sink_lines i (io (sinks_world s)) @ line_of_pc (pcs s t)"
proof -
  let ?r = "root_lg s" and ?w = "sinks_world s"
  obtain at v where flush: "try_flush env f ?r ?w = (at, v)" by force
  then have kept: "sink_lines i (io v) = sink_lines i (io ?w)" using no_line(1) [OF assms(3), of env f ?w] by simp
  show ?thesis
  proof (cases "pcs s t")
    case (Writing e)
    obtain ok r w where w: "try_write_line env f ?r (re_line e) ?w = (ok, r, w)" by (rule prod_cases3)
    then have "sink_lines i (io w) = sink_lines i (io ?w) @ [re_line e]"
      using one_line [OF assms(3), of env f "re_line e" ?w] by simp
    then show ?thesis using assms(1) Writing w by (auto simp: mishap_def line_of_pc_def split: if_splits)
  next
    case Exiting
    then show ?thesis using assms(1) flush kept
      by (cases at) (auto simp: mishap_def line_of_pc_def log_event_def Let_def split: if_splits)
  next
    case Flushing
    then show ?thesis using assms(1) flush kept by (cases at) (auto simp: mishap_def line_of_pc_def Let_def)
  qed (use assms(1,2) in \<open>simp_all add: mishap_def\<close>)
qed

lemma xstep_lines:
  assumes "xstep env f (s, a) l (s', a')" and "lock_inv s" and "prints_to i (root_lg s)"
  shows "prints_to i (root_lg s') \<and> a' \<and> sink_lines i (io (sinks_world s')) @ writing_now s' =
    sink_lines i (io (sinks_world s)) @ writing_now s @ entered l"
  using assms(1)
proof (cases rule: xstep.cases)
  case (goes_on k)
  have "same_output (root_lg s') (root_lg s)"
    using goes_on(4) advance_root by (auto elim!: cstep.cases simp: begin_with_def same_output_def split: if_splits)
  then show ?thesis using goes_on_lines [OF goes_on(4) assms(2,3)] goes_on prints_to_same assms(3) by simp
next
  case (unwinds t)
  note mv = mishap_moves [OF unwinds(4) assms(2)]
  have "prints_to i (root_lg s')" using mv(2) prints_to_same assms(3) by blast
  moreover have "sink_lines i (io (sinks_world s')) @ writing_now s' = sink_lines i (io (sinks_world s)) @ writing_now s"
  proof (cases "in_section (pcs s t)")
    case True
    note now = writing_now_at [OF assms(2) True] moved_writing_now [OF mv(1) assms(2) True]
    show ?thesis using unwound_section [OF unwinds(4) True assms(3)] now by simp
  next
    case False
    then have "sinks_world s' = sinks_world s" "line_of_pc (pcs s t) = line_of_pc (pcs s' t)"
      using unwinds(4) by (cases "pcs s t"; auto simp: mishap_def line_of_pc_def split: if_splits)+
    then show ?thesis using writing_now_cong [OF mv(1) assms(2)] by simp
  qed
  ultimately show ?thesis using unwinds by simp
next
  case (dies t)
  then show ?thesis
    using no_line(2) [OF assms(3), of env f "sinks_world s"]
    by (cases "pcs s t") (auto simp: mishap_def Let_def split: if_splits prod.splits attempt.splits)
qed


lemma adds_only_try:
  assumes "\<And>i p. P (EvWrite i p)"
  shows "adds_only P w (snd (try_Write env f d p w))" and "adds_only P w (snd (try_fanout env f ds p w))"
proof (induction env f d p w and env f ds p w rule: try_Write_try_fanout.induct)
  case (7 env f x r p w)
  obtain res v where v: "try_Write env f x p w = (res, v)" by force
  have first: "adds_only P w v" using "7.IH"(1) v by simp
  show ?case
  proof (cases "\<exists>n. res = Some (n, None)")
    case True
    then obtain n where n: "res = Some (n, None)" by blast
    have "adds_only P v (snd (try_fanout env f r p v))" using "7.IH"(2) v n by simp
    then show ?thesis using v n adds_only_trans [OF first] by simp
  next
    case False
    then show ?thesis using v first by (cases res; cases "snd (the res)") auto
  qed
qed (auto simp: adds_only_def sink_write_def set_async_def assms Let_def split_def)

lemma adds_only_try_line:
  assumes "\<And>i p. P (EvWrite i p)"
  shows "adds_only P w (snd (snd (try_write_line env f r line w)))"
proof -
  obtain res v where v: "try_Write env f (lg_out r) line w = (res, v)" by force
  then have "adds_only P w v" using adds_only_try(1) [of P w env f "lg_out r" line] assms by simp
  moreover have "adds_only P v (snd (try_Write env f d line v))" for d using adds_only_try(1) assms by blast
  ultimately show ?thesis using v adds_only_trans
    by (cases res; cases "snd (the res)"; cases "lg_fallbackWriter r") (auto simp: try_write_line_def Let_def split_def)
qed

text \<open>C22: A panic in the write ends the section there: what happened is a beginning of what would have happened, only
  writes, so no hook runs and, for a \<open>FATAL\<close> entry, nothing is flushed and the exit function is not called; and all
  that the call does after that is to release the mutex. A caller that recovers goes on after \<open>Fatal\<close>.\<close>

theorem panicking_write_ends_section:
  assumes "pcs s t = Writing e" and "mishap env f t s = Unwinds s'"
  shows "(\<exists>rest. io (snd (write_line env (root_lg s) (re_line e) (sinks_world s))) = io (sinks_world s') @ rest) \<and>
    adds_only (\<lambda>ev. \<exists>i p. ev = EvWrite i p) (sinks_world s) (sinks_world s') \<and>
    (\<forall>l b. xstep env f (s', True) l b \<and> panic_actor l = Some t \<longrightarrow> b = (goto t Idle (s'\<lparr>mutex := None\<rparr>), True))"
proof -
  obtain ok r w where w: "try_write_line env f (root_lg s) (re_line e) (sinks_world s) = (ok, r, w)"
    by (rule prod_cases3)
  then have s': "s' = goto t Leaving (s\<lparr>root_lg := r, sinks_world := w\<rparr>)"
    using assms by (auto simp: mishap_def split: if_splits)
  have "b = (goto t Idle (s'\<lparr>mutex := None\<rparr>), True)" if x: "xstep env f (s', True) l b" and panic_actor_t: "panic_actor l = Some t" for l b
    using x
  proof (cases rule: xstep.cases)
    case (goes_on k v)
    obtain q where "k = Run t q" using panic_actor_t goes_on(1) by (cases k) auto
    then show ?thesis using goes_on s' by (auto elim!: cstepE simp: advance_def)
  qed (use panic_actor_t s' in \<open>auto simp: mishap_def\<close>)
  moreover have "adds_only (\<lambda>ev. \<exists>i p. ev = EvWrite i p) (sinks_world s) w"
    using adds_only_try_line [of "\<lambda>ev. \<exists>i p. ev = EvWrite i p" "sinks_world s" env f "root_lg s" "re_line e"] w by simp
  moreover have "sinks_world s' = w" using s' by simp
  ultimately show ?thesis using try_write_line_prefix(1) [OF w] by blast
qed

text \<open>Behind an asynchronous writer the same sink takes the process down: its panic is in the goroutine, where
  no caller can recover it.\<close>

theorem panic_behind_async_kills:
  assumes "lg_out (root_lg s) = AsyncWriter i (Sink j sy fd)" and "pcs s t = Flushing"
    and "once (asyncs (sinks_world s) i) = OnceNew" and "pending (asyncs (sinks_world s) i) = m # ms"
    and "\<forall>h. write_panics f j h"
  shows "\<exists>s'. xstep env f (s, True) (Crashing t Flushing) (s', False) \<and> (\<forall>l b. \<not> xstep env f (s', False) l b)"
proof -
  have "\<exists>v. try_flush env f (root_lg s) (sinks_world s) = (Crashes, v)"
    using assms by (simp add: try_flush_def Let_def split_def)
  then obtain s' where "mishap env f t s = Dies s'" using assms(2) by (auto simp: mishap_def Let_def)
  from xstep.dies [OF this] show ?thesis using assms(2) by (auto elim: xstep.cases)
qed

text \<open>A sink that panics, with a \<open>FATAL\<close> entry about to be written to it.\<close>

definition broken_sink :: faults where
  "broken_sink = no_faults\<lparr>write_panics := \<lambda>i h. True\<rparr>"

definition about_to_write :: shared where
  "about_to_write =
     \<lparr>root_lg = zero_logger\<lparr>lg_out := Sink 0 True None, lg_hooks := [9]\<rparr>, sinks_world = empty_world, counter = 0,
      mutex = Some 1, pcs = (\<lambda>_. Idle)(1 := Writing fatal_entry)\<rparr>"

definition after_panic :: shared where
  "after_panic = goto 1 Leaving (about_to_write\<lparr>sinks_world := empty_world\<lparr>io := [EvWrite 0 (re_line fatal_entry)]\<rparr>\<rparr>)"

lemma about_to_panic: "mishap quiet_sinks broken_sink 1 about_to_write = Unwinds after_panic"
  by (simp add: mishap_def about_to_write_def try_write_line_def sink_write_def broken_sink_def zero_logger_def
      after_panic_def empty_world_def)

theorem panicking_write_ends_section_witness:
  "adds_only (\<lambda>ev. \<exists>i p. ev = EvWrite i p) (sinks_world about_to_write) (sinks_world after_panic)"
  using panicking_write_ends_section [OF _ about_to_panic] by (simp add: about_to_write_def)

theorem panics_never_wedge_witness:
  "\<exists>l b. xstep quiet_sinks broken_sink (after_panic, True) l b \<and> panic_actor l = Some 1"
proof -
  have "trace (xstep quiet_sinks broken_sink) (about_to_write, True) [Panicking 1 (pcs about_to_write 1)] (after_panic, True)"
    by (rule trace_single [where step = "xstep quiet_sinks broken_sink", OF xstep.unwinds [OF about_to_panic]])
  then show ?thesis using panics_never_wedge [of quiet_sinks broken_sink about_to_write _ after_panic 1]
    by (auto simp: about_to_write_def after_panic_def lock_inv_def)
qed


theorem panic_behind_async_kills_witness:
  "\<exists>s'. xstep quiet_sinks broken_sink
     (pipe_at Flushing (Some 1) ((NewAsyncWriter 1)\<lparr>ch := [''a'']\<rparr>) [], True) (Crashing 1 Flushing) (s', False)"
proof -
  have "pending ((NewAsyncWriter 1)\<lparr>ch := [''a'']\<rparr>) = [''a'']" by (simp add: pending_def NewAsyncWriter_def)
  then show ?thesis
    using panic_behind_async_kills [of "pipe_at Flushing (Some 1) ((NewAsyncWriter 1)\<lparr>ch := [''a'']\<rparr>) []" 0 0 True None 1
        "''a''" "[]" broken_sink quiet_sinks]
    by (auto simp: pipe_at_def broken_sink_def NewAsyncWriter_def zero_logger_def)
qed

end
