(* ===== verification/LogInterface.thy ===== *)
theory LogInterface
  imports CoreCorrect LogDeliver LogPanic
begin

text \<open>
  \<open>iface.go\<close>: the interface that libraries are told to accept in place of a \<open>*Logger\<close>, the logger as an
  implementation of it, and what code that has no more than the interface can do: log below \<open>FATAL\<close> and derive children.
  The client may do so with values that panic, on sinks, samplers and middleware that panic; \<open>faults\<close> of \<open>LogPanic\<close> says which
  calls of these do.
\<close>

section \<open>A call that may panic\<close>

text \<open>
  \<open>internalLog\<close> below \<open>FATAL\<close>, which is all that the interface has: whether it returned, and the state after it,
  also when a panic unwinds it: in the sampler, which comes before everything else; while the entry is prepared; or
  in a sink, which ends the critical section. Hooks recover.
\<close>

definition try_entry :: "sinks \<Rightarrow> faults \<Rightarrow> log_call \<Rightarrow> nat \<Rightarrow> system \<Rightarrow> bool \<times> system" where
  "try_entry env f c ra s =
     (let r = logger_at s ra;
          (entry, seen, n) = assemble (lc_env c) r (lc_level c) (lc_message c)
            (mergeFields (lc_own c) (lc_fields c)) (eventCounter s);
          s = s\<lparr>eventCounter := n\<rparr>
      in if entry_panics f c then (False, s)
         else case run_middleware (lg_middleware r) entry of
                None \<Rightarrow> (True, s)
              | Some entry \<Rightarrow>
                  (let (ok, r, w) = try_write_line env f r (render (lc_env c) r entry) (the_world s);
                       w = (if ok then run_hooks (lg_hooks r) (lc_level c) (lc_message c) seen w else w)
                   in (ok, s\<lparr>loggers := (loggers s)[ra := r], the_world := w\<rparr>)))"

definition try_log ::
  "sinks \<Rightarrow> faults \<Rightarrow> nat \<Rightarrow> level \<Rightarrow> call_env \<Rightarrow> string \<Rightarrow> fields \<Rightarrow> system \<Rightarrow> bool \<times> system" where
  "try_log env f a level ce message fs s =
     (case admit ce (root_logger s a) level message of
        None \<Rightarrow> (False, s)
      | Some (ok, r) \<Rightarrow>
          (let s = update_root a (\<lambda>_. r) s
           in if ok then
                try_entry env f \<lparr>lc_env = ce, lc_level = level, lc_message = message,
                  lc_own = lg_fields (logger_at s a), lc_fields = fs\<rparr> (root s a) s
              else (True, s)))"

text \<open>Without panics of the code it calls it is \<open>internalLog\<close>, where \<open>None\<close> is the panic of the sampler.\<close>

lemma try_entry_ordinary:
  assumes "lc_level c \<noteq> FATAL"
  shows "try_entry env no_faults c ra s = (True, writeEntry env (lc_env c) ra (lc_level c) (lc_message c)
    (mergeFields (lc_own c) (lc_fields c)) s)"
  using assms
  by (simp add: try_entry_def writeEntry_def no_faults_simps try_write_line_ordinary Let_def split_def split: option.split)

lemma try_log_ordinary:
  assumes "level \<noteq> FATAL"
  shows "try_log env no_faults a level ce message fs s =
    (case internalLog env ce a level message fs s of None \<Rightarrow> (False, s) | Some s' \<Rightarrow> (True, s'))"
proof (cases "admit ce (root_logger s a) level message")
  case None
  then show ?thesis by (simp add: try_log_def internalLog_def)
next
  case (Some x)
  then show ?thesis using assms try_entry_ordinary
    by (cases x) (simp add: try_log_def internalLog_def Let_def)
qed

section \<open>The interface\<close>

text \<open>The methods; what a call takes from its surroundings is an argument, as everywhere. A call returns (\<open>True\<close>) or panics.\<close>

type_synonym 's log_method = "call_env \<Rightarrow> string \<Rightarrow> fields \<Rightarrow> 's \<Rightarrow> bool \<times> 's"

record 's log_interface =
  if_Trace :: "'s log_method"
  if_Debug :: "'s log_method"
  if_Info :: "'s log_method"
  if_Warning :: "'s log_method"
  if_Error :: "'s log_method"
  if_With :: "fields \<Rightarrow> 's \<Rightarrow> nat \<times> 's"

text \<open>\<open>var _ Interface = (*Logger)(nil)\<close>: every logger is one.\<close>

definition Logger_Interface :: "sinks \<Rightarrow> faults \<Rightarrow> nat \<Rightarrow> system log_interface" where
  "Logger_Interface env f a =
     \<lparr>if_Trace = try_log env f a TRACE, if_Debug = try_log env f a DEBUG, if_Info = try_log env f a INFO,
      if_Warning = try_log env f a WARNING, if_Error = try_log env f a ERROR, if_With = With a\<rparr>"

section \<open>Clients\<close>

datatype log_method_name = MTrace | MDebug | MInfo | MWarning | MError

fun method_of :: "log_method_name \<Rightarrow> 's log_interface \<Rightarrow> 's log_method" where
  "method_of MTrace = if_Trace"
| "method_of MDebug = if_Debug"
| "method_of MInfo = if_Info"
| "method_of MWarning = if_Warning"
| "method_of MError = if_Error"

text \<open>
  A run of a client: it has some loggers, \<open>hs\<close>, knows them by their position, and every \<open>With\<close> gives it one more. It
  recovers from every panic and goes on. The result has, for each logging call, whether it returned.
\<close>

datatype client_call =
    CallMethod nat log_method_name call_env string fields
  | CallWith nat fields

fun client_run ::
  "(nat \<Rightarrow> 's log_interface) \<Rightarrow> client_call list \<Rightarrow> nat list \<Rightarrow> 's \<Rightarrow> bool list \<times> nat list \<times> 's" where
  "client_run iface [] hs s = ([], hs, s)"
| "client_run iface (CallMethod k m ce message fs # r) hs s =
     (let (ok, s) = method_of m (iface (hs ! k)) ce message fs s;
          (oks, hs, s) = client_run iface r hs s
      in (ok # oks, hs, s))"
| "client_run iface (CallWith k fs # r) hs s =
     (let (h, s) = if_With (iface (hs ! k)) fs s in client_run iface r (hs @ [h]) s)"

text \<open>The client uses only loggers that it has.\<close>

fun client_ok :: "nat \<Rightarrow> client_call list \<Rightarrow> bool" where
  "client_ok n [] \<longleftrightarrow> True"
| "client_ok n (CallMethod k m ce message fs # r) \<longleftrightarrow> k < n \<and> client_ok n r"
| "client_ok n (CallWith k fs # r) \<longleftrightarrow> k < n \<and> client_ok (Suc n) r"

text \<open>
  What an implementation promises: on a logger that is valid, what a method does stays within the relation \<open>effect\<close>,
  whether it returns or panics, and loggers stay valid. One that never panics promises in addition that methods return.
\<close>

locale implements =
  fixes iface :: "nat \<Rightarrow> 's log_interface" and valid :: "'s \<Rightarrow> nat \<Rightarrow> bool" and effect :: "'s \<Rightarrow> 's \<Rightarrow> bool"
  assumes method_ok: "valid s h \<Longrightarrow> method_of m (iface h) ce message fs s = (ok, s') \<Longrightarrow>
      effect s s' \<and> (\<forall>k. valid s k \<longrightarrow> valid s' k)"
    and with_ok: "valid s h \<Longrightarrow> if_With (iface h) fs s = (h', s') \<Longrightarrow>
      effect s s' \<and> valid s' h' \<and> (\<forall>k. valid s k \<longrightarrow> valid s' k)"
    and effect_refl: "effect s s"
    and effect_trans: "effect s t \<Longrightarrow> effect t u \<Longrightarrow> effect s u"
begin

lemma client_stays:
  assumes "\<forall>h \<in> set hs. valid s h" and "client_ok (length hs) calls"
    and "client_run iface calls hs s = (oks, hs', s')"
  shows "effect s s' \<and> (\<forall>h \<in> set hs'. valid s' h)"
  using assms
proof (induction calls arbitrary: hs s oks)
  case Nil
  then show ?case using effect_refl by simp
next
  case (Cons c calls)
  show ?case
  proof (cases c)
    case (CallMethod k m ce message fs)
    then have "valid s (hs ! k)" and ok: "client_ok (length hs) calls" using Cons.prems by auto
    obtain b t where t: "method_of m (iface (hs ! k)) ce message fs s = (b, t)" by force
    then have e: "effect s t" "\<forall>h \<in> set hs. valid t h"
      using method_ok [OF \<open>valid s (hs ! k)\<close> t] Cons.prems(1) by blast+
    obtain oks' where "client_run iface calls hs t = (oks', hs', s')"
      using Cons.prems(3) CallMethod t by (auto simp: Let_def split: prod.splits)
    then show ?thesis using Cons.IH [OF e(2) ok] effect_trans [OF e(1)] by blast
  next
    case (CallWith k fs)
    then have "valid s (hs ! k)" and ok: "client_ok (length (hs @ [h])) calls" for h using Cons.prems by auto
    obtain h t where t: "if_With (iface (hs ! k)) fs s = (h, t)" by force
    then have e: "effect s t" "\<forall>j \<in> set (hs @ [h]). valid t j"
      using with_ok [OF \<open>valid s (hs ! k)\<close>] Cons.prems(1) by fastforce+
    have "client_run iface calls (hs @ [h]) t = (oks, hs', s')" using Cons.prems(3) CallWith t by simp
    then show ?thesis using Cons.IH [OF e(2) ok] effect_trans [OF e(1)] by blast
  qed
qed

end

locale implements_calmly = implements +
  assumes method_returns: "valid s h \<Longrightarrow> fst (method_of m (iface h) ce message fs s)"
begin

lemma client_returns:
  assumes "\<forall>h \<in> set hs. valid s h" and "client_ok (length hs) calls"
  shows "\<forall>ok \<in> set (fst (client_run iface calls hs s)). ok"
  using assms
proof (induction calls arbitrary: hs s)
  case (Cons c calls)
  show ?case
  proof (cases c)
    case (CallMethod k m ce message fs)
    then have v: "valid s (hs ! k)" and ok: "client_ok (length hs) calls" using Cons.prems by auto
    obtain b t where t: "method_of m (iface (hs ! k)) ce message fs s = (b, t)" by force
    then have "b" "\<forall>h \<in> set hs. valid t h"
      using method_returns [OF v, of m ce message fs] method_ok [OF v t] Cons.prems(1) by auto
    then show ?thesis using Cons.IH [OF _ ok, of t] CallMethod t by (simp add: split_def Let_def)
  next
    case (CallWith k fs)
    then have v: "valid s (hs ! k)" and ok: "client_ok (length (hs @ [h])) calls" for h using Cons.prems by auto
    obtain h t where t: "if_With (iface (hs ! k)) fs s = (h, t)" by force
    then have "\<forall>j \<in> set (hs @ [h]). valid t j" using with_ok [OF v] Cons.prems(1) by fastforce
    from Cons.IH [OF this ok] show ?thesis using CallWith t by simp
  qed
qed simp

end

section \<open>The logger as an implementation\<close>

text \<open>What a client can do to the family of root \<open>ra\<close>: the history grows by writes and hooks, the root keeps everything but
  the state of its sampler and its error count, and other loggers stay as they are.\<close>

fun output_event :: "io_event \<Rightarrow> bool" where
  "output_event (EvWrite i p) \<longleftrightarrow> True"
| "output_event (EvHook h l m fs) \<longleftrightarrow> True"
| "output_event _ \<longleftrightarrow> False"

definition frozen :: "logger \<Rightarrow> logger" where
  "frozen r = r\<lparr>lg_sampler := None, lg_writeErrors := 0\<rparr>"

definition confined :: "nat \<Rightarrow> system \<Rightarrow> system \<Rightarrow> bool" where
  "confined ra s s' \<longleftrightarrow>
     length (loggers s) \<le> length (loggers s') \<and>
     (\<forall>b < length (loggers s). b \<noteq> ra \<longrightarrow> logger_at s' b = logger_at s b) \<and>
     (ra < length (loggers s) \<longrightarrow> frozen (logger_at s' ra) = frozen (logger_at s ra)) \<and>
     adds_only output_event (the_world s) (the_world s')"

lemma confined_refl: "confined ra s s"
  by (simp add: confined_def)

lemma confined_trans: "confined ra s t \<Longrightarrow> confined ra t u \<Longrightarrow> confined ra s u"
  unfolding confined_def by (auto intro: adds_only_trans)

text \<open>The samplers of the package keep one slot per level and never panic on the six levels; a sampler of the user must not panic.\<close>

fun sampler_ok :: "log_sampler option \<Rightarrow> bool" where
  "sampler_ok (Some (SEveryN e)) \<longleftrightarrow> length (en_counts e) = 6"
| "sampler_ok (Some (SRate r)) \<longleftrightarrow> length (buckets r) = 6"
| "sampler_ok (Some (SCustom f h)) \<longleftrightarrow> (\<forall>h. f h \<noteq> None)"
| "sampler_ok None \<longleftrightarrow> True"

lemma sampler_returns:
  assumes "sampler_ok (Some sm)" and "level \<in> set named_levels"
  shows "\<exists>ok sm'. sampler_Sample now sm level message = Some (ok, sm') \<and> sampler_ok (Some sm')"
proof -
  have "0 \<le> level_int level" "level_int level < 6" using named_slot [OF assms(2)] by simp_all
  then show ?thesis
    using assms(1) by (cases sm) (auto simp: everyN_Sample_def rate_Sample_def Let_def split: prod.split)
qed

lemma sampler_ok_new: "sampler_ok (Some (SEveryN (NewEveryNSampler n)))" "sampler_ok (Some (SRate (NewRateSampler n)))"
  by (simp_all add: NewEveryNSampler_def NewRateSampler_def)

lemma admit_returns:
  assumes "sampler_ok (lg_sampler r)" and "level \<in> set named_levels"
  shows "\<exists>ok r'. admit ce r level message = Some (ok, r') \<and> frozen r' = frozen r \<and> sampler_ok (lg_sampler r')"
proof (cases "lg_sampler r")
  case None
  then show ?thesis by (auto simp: admit_def)
next
  case (Some sm)
  obtain ok sm' where "sampler_Sample (ce_clock ce) sm level message = Some (ok, sm')" "sampler_ok (Some sm')"
    using sampler_returns assms Some by metis
  then show ?thesis using Some assms(1) by (auto simp: admit_def frozen_def)
qed

lemma try_line_root:
  assumes "try_write_line env f r line w = (ok, r', w')"
  shows "frozen r' = frozen r" and "lg_sampler r' = lg_sampler r" and "lg_hooks r' = lg_hooks r"
  using assms by (auto simp: try_write_line_def frozen_def Let_def split: prod.splits option.splits)

text \<open>The members of the family of the root \<open>ra\<close>, and those whose sampler does not panic.\<close>

definition family_member :: "nat \<Rightarrow> system \<Rightarrow> nat \<Rightarrow> bool" where
  "family_member ra s h \<longleftrightarrow> ra < length (loggers s) \<and> h < length (loggers s) \<and> root s h = ra"

definition calm_member :: "nat \<Rightarrow> system \<Rightarrow> nat \<Rightarrow> bool" where
  "calm_member ra s h \<longleftrightarrow> family_member ra s h \<and> sampler_ok (lg_sampler (logger_at s ra))"

lemma family_kept:
  assumes "family_member ra s h" and "confined ra s s'"
  shows "family_member ra s' h"
proof -
  have "lg_parent (logger_at s' h) = lg_parent (logger_at s h)"
  proof (cases "h = ra")
    case True
    then have "frozen (logger_at s' h) = frozen (logger_at s h)" using assms by (simp add: family_member_def confined_def)
    then have "lg_parent (frozen (logger_at s' h)) = lg_parent (frozen (logger_at s h))" by simp
    then show ?thesis by (simp add: frozen_def)
  qed (use assms in \<open>simp add: family_member_def confined_def\<close>)
  then show ?thesis using assms by (auto simp: family_member_def confined_def root_def)
qed

lemma try_entry_confined:
  assumes "ra < length (loggers s)" and "try_entry env f c ra s = (ok, s')"
  shows "confined ra s s'" and "lg_sampler (logger_at s' ra) = lg_sampler (logger_at s ra)"
proof -
  obtain entry seen n where a: "assemble (lc_env c) (logger_at s ra) (lc_level c) (lc_message c)
      (mergeFields (lc_own c) (lc_fields c)) (eventCounter s) = (entry, seen, n)"
    by (rule prod_cases3)
  have "confined ra s s' \<and> lg_sampler (logger_at s' ra) = lg_sampler (logger_at s ra)"
  proof (cases "entry_panics f c \<or> run_middleware (lg_middleware (logger_at s ra)) entry = None")
    case True
    then show ?thesis using assms(2) a by (auto simp: try_entry_def confined_def Let_def split: option.splits if_splits)
  next
    case False
    then obtain e where e: "run_middleware (lg_middleware (logger_at s ra)) entry = Some e" "\<not> entry_panics f c" by auto
    obtain b r w where w: "try_write_line env f (logger_at s ra) (render (lc_env c) (logger_at s ra) e) (the_world s) = (b, r, w)"
      by (rule prod_cases3)
    have "adds_only output_event (the_world s) w"
      using adds_only_try_line [of output_event "the_world s" env f "logger_at s ra" "render (lc_env c) (logger_at s ra) e"] w
      by simp
    moreover have "adds_only output_event w (run_hooks (lg_hooks r) (lc_level c) (lc_message c) seen w)"
      by (rule adds_only_hooks) simp
    ultimately have "adds_only output_event (the_world s) (run_hooks (lg_hooks r) (lc_level c) (lc_message c) seen w)"
        "adds_only output_event (the_world s) w"
      using adds_only_trans by blast+
    then show ?thesis using a w e assms try_line_root [OF w] by (auto simp: try_entry_def confined_def)
  qed
  then show "confined ra s s'" and "lg_sampler (logger_at s' ra) = lg_sampler (logger_at s ra)" by simp_all
qed

lemma admit_frozen: "admit ce r level message = Some (ok, r') \<Longrightarrow> frozen r' = frozen r"
  by (auto simp: admit_def frozen_def split: if_splits option.splits)

lemma admitted_root:
  assumes "family_member ra s h" and "admit ce (root_logger s h) level message = Some (ok, r)"
  shows "confined ra s (update_root h (\<lambda>_. r) s)" and "logger_at (update_root h (\<lambda>_. r) s) ra = r"
    and "ra < length (loggers (update_root h (\<lambda>_. r) s))"
  using assms admit_frozen [OF assms(2)]
  by (simp_all add: confined_def family_member_def update_root_def nth_list_update)

lemma try_log_confined:
  assumes "family_member ra s h" and "try_log env f h level ce message fs s = (ok, s')"
  shows "confined ra s s'"
proof (cases "admit ce (root_logger s h) level message")
  case None
  then show ?thesis using assms(2) confined_refl by (simp add: try_log_def)
next
  case (Some x)
  obtain b r where x: "x = (b, r)" by force
  note up = admitted_root [OF assms(1) Some [unfolded x]]
  have "root (update_root h (\<lambda>_. r) s) h = ra"
    using family_kept [OF assms(1) up(1)] by (simp add: family_member_def)
  then show ?thesis
    using assms(2) Some x up(1) confined_trans [OF up(1) try_entry_confined(1) [OF up(3)]]
    by (cases b) (auto simp: try_log_def Let_def)
qed

lemma try_log_calm:
  assumes "calm_member ra s h" and "level \<in> set named_levels" and "level \<noteq> FATAL"
  shows "fst (try_log env no_faults h level ce message fs s) \<and>
    sampler_ok (lg_sampler (logger_at (snd (try_log env no_faults h level ce message fs s)) ra))"
proof -
  have mem: "family_member ra s h" using assms(1) by (simp add: calm_member_def)
  obtain b r where adm: "admit ce (root_logger s h) level message = Some (b, r)" "sampler_ok (lg_sampler r)"
    using admit_returns [of "root_logger s h" level ce message] assms(1,2)
    by (auto simp: calm_member_def family_member_def)
  note up = admitted_root [OF mem adm(1)]
  have root: "root (update_root h (\<lambda>_. r) s) h = ra"
    using family_kept [OF mem up(1)] by (simp add: family_member_def)
  let ?c = "\<lparr>lc_env = ce, lc_level = level, lc_message = message, lc_own = lg_fields (logger_at (update_root h (\<lambda>_. r) s) h),
      lc_fields = fs\<rparr>"
  have "fst (try_entry env no_faults ?c ra (update_root h (\<lambda>_. r) s))"
    using try_entry_ordinary [of ?c] assms(3) by simp
  moreover have "lg_sampler (logger_at (snd (try_entry env no_faults ?c ra (update_root h (\<lambda>_. r) s))) ra) = lg_sampler r"
    using try_entry_confined(2) [OF up(3)] up(2) by (metis prod.collapse)
  ultimately show ?thesis using adm up(2) root by (cases b) (simp_all add: try_log_def Let_def)
qed

fun method_level :: "log_method_name \<Rightarrow> level" where
  "method_level MTrace = TRACE"
| "method_level MDebug = DEBUG"
| "method_level MInfo = INFO"
| "method_level MWarning = WARNING"
| "method_level MError = ERROR"

lemma method_try_log:
  "method_of m (Logger_Interface env f h) = try_log env f h (method_level m)"
  "method_level m \<in> set named_levels" "method_level m \<noteq> FATAL"
  by (cases m; simp add: Logger_Interface_def level_consts named_levels_def)+

text \<open>Without panics the methods are those of the logger.\<close>

lemma methods_are_the_loggers:
  "if_Error (Logger_Interface env no_faults h) ce message fs s =
     (case Logger_Error env ce h message fs s of None \<Rightarrow> (False, s) | Some s' \<Rightarrow> (True, s'))"
  "if_Warning (Logger_Interface env no_faults h) ce message fs s =
     (case Logger_Warning env ce h message fs s of None \<Rightarrow> (False, s) | Some s' \<Rightarrow> (True, s'))"
  "if_Info (Logger_Interface env no_faults h) ce message fs s =
     (case Logger_Info env ce h message fs s of None \<Rightarrow> (False, s) | Some s' \<Rightarrow> (True, s'))"
  "if_Debug (Logger_Interface env no_faults h) ce message fs s =
     (case Logger_Debug env ce h message fs s of None \<Rightarrow> (False, s) | Some s' \<Rightarrow> (True, s'))"
  "if_Trace (Logger_Interface env no_faults h) ce message fs s =
     (case Logger_Trace env ce h message fs s of None \<Rightarrow> (False, s) | Some s' \<Rightarrow> (True, s'))"
  by (simp_all add: Logger_Interface_def try_log_ordinary level_consts Logger_Trace_def Logger_Debug_def
      Logger_Info_def Logger_Warning_def Logger_Error_def)

lemma With_confined:
  assumes "family_member ra s h" and "With h fs s = (h', s')"
  shows "confined ra s s' \<and> family_member ra s' h' \<and> logger_at s' ra = logger_at s ra"
  using assms by (auto simp: With_def add_logger_def family_member_def confined_def nth_append root_def)

interpretation logger: implements "Logger_Interface env f" "family_member ra" "confined ra" for env f ra
proof
  fix s h m ce message fs ok s'
  assume "family_member ra s h" and "method_of m (Logger_Interface env f h) ce message fs s = (ok, s')"
  then have "confined ra s s'" using try_log_confined by (simp add: method_try_log)
  then show "confined ra s s' \<and> (\<forall>k. family_member ra s k \<longrightarrow> family_member ra s' k)" using family_kept by blast
next
  fix s h fs h' s'
  assume "family_member ra s h" and "if_With (Logger_Interface env f h) fs s = (h', s')"
  then show "confined ra s s' \<and> family_member ra s' h' \<and> (\<forall>k. family_member ra s k \<longrightarrow> family_member ra s' k)"
    using With_confined [of ra s h fs h' s'] family_kept by (simp add: Logger_Interface_def)
qed (rule confined_refl, rule confined_trans)

interpretation calm_logger: implements_calmly "Logger_Interface env no_faults" "calm_member ra" "confined ra" for env ra
proof
  fix s h m ce message fs ok s'
  assume h: "calm_member ra s h" and m: "method_of m (Logger_Interface env no_faults h) ce message fs s = (ok, s')"
  have "confined ra s s'"
    using h m try_log_confined [of ra s h env no_faults "method_level m"] by (simp add: method_try_log calm_member_def)
  moreover have "sampler_ok (lg_sampler (logger_at s' ra))"
    using try_log_calm [OF h method_try_log(2,3)] m by (metis method_try_log(1) snd_conv)
  ultimately show "confined ra s s' \<and> (\<forall>k. calm_member ra s k \<longrightarrow> calm_member ra s' k)"
    using family_kept unfolding calm_member_def by blast
next
  fix s h fs h' s'
  assume "calm_member ra s h" and "if_With (Logger_Interface env no_faults h) fs s = (h', s')"
  then show "confined ra s s' \<and> calm_member ra s' h' \<and> (\<forall>k. calm_member ra s k \<longrightarrow> calm_member ra s' k)"
    using With_confined [of ra s h fs h' s'] family_kept by (simp add: Logger_Interface_def calm_member_def)
next
  fix s h m ce message fs
  assume "calm_member ra s h"
  from try_log_calm [OF this method_try_log(2,3)]
  show "fst (method_of m (Logger_Interface env no_faults h) ce message fs s)" by (simp add: method_try_log)
qed (rule confined_refl, rule confined_trans)

section \<open>What a client cannot do\<close>



end
