(* ===== verification/LogCallSite.thy ===== *)
theory LogCallSite
  imports EntryCorrect
begin

text \<open>
  Call sites. \<open>writeEntry\<close> finds the file and line of a call, and the start of a stack trace, by fixed distances on
  the stack of the goroutine: \<open>runtime.Caller(3)\<close> and \<open>captureStackTrace(4)\<close>. In the other theories caller and
  frames are arguments of a call; here they come from the stack, for each way in which \<open>writeEntry\<close> is reached.
\<close>

section \<open>The stack\<close>

text \<open>A frame is a function with the file and line at which it stands; the innermost frame comes first.\<close>

type_synonym go_frame = "string \<times> string \<times> int"

text \<open>\<open>runtime.Caller\<close>, called by the first frame, and the frames that \<open>runtime.CallersFrames\<close> gives for
  \<open>runtime.Callers\<close>, called by \<open>captureStackTrace\<close>, which the first frame has called; it stores at most 32.\<close>

definition runtime_Caller :: "nat \<Rightarrow> go_frame list \<Rightarrow> (string \<times> int) option" where
  "runtime_Caller skip stack =
     (if skip < length stack then (let (function, file, line) = stack ! skip in Some (file, line)) else None)"

definition stack_frames :: "nat \<Rightarrow> go_frame list \<Rightarrow> go_frame list" where
  "stack_frames skip stack =
     take 32 (drop skip ((''runtime.Callers'', ''extern.go'', 0) # (''captureStackTrace'', ''logger.go'', 0) # stack))"

definition on_stack :: "go_frame list \<Rightarrow> call_env \<Rightarrow> call_env" where
  "on_stack stack ce = ce\<lparr>ce_caller := runtime_Caller 3 stack, ce_frames := stack_frames 4 stack\<rparr>"

text \<open>
  The ways to \<open>writeEntry\<close>: a public method, plain, \<open>printf\<close> and typed or with a context; the functions that the
  timers return; and slog, whose own frames \<open>lib\<close> lie between the handler and the user. The argument \<open>frame\<close> gives
  the frame of a function of the package.
\<close>

datatype call_path =
    DirectCall string
  | ContextCall string
  | TimedCall
  | TimedContextCall
  | SlogCall "go_frame list"

fun stack_of :: "(string \<Rightarrow> go_frame) \<Rightarrow> call_path \<Rightarrow> go_frame list \<Rightarrow> go_frame list" where
  "stack_of frame (DirectCall m) user = map frame [''writeEntry'', ''internalLog'', m] @ user"
| "stack_of frame (ContextCall m) user = map frame [''writeEntry'', ''internalLogCtx'', m] @ user"
| "stack_of frame TimedCall user = map frame [''writeEntry'', ''internalLog'', ''Info'', ''Timed.func1''] @ user"
| "stack_of frame TimedContextCall user =
     map frame [''writeEntry'', ''internalLogCtx'', ''InfoContext'', ''TimedContext.func1''] @ user"
| "stack_of frame (SlogCall lib) user = map frame [''writeEntry'', ''Handle''] @ lib @ user"

fun method_frame :: "(string \<Rightarrow> go_frame) \<Rightarrow> call_path \<Rightarrow> go_frame" where
  "method_frame frame (DirectCall m) = frame m"
| "method_frame frame (ContextCall m) = frame m"
| "method_frame frame TimedCall = frame ''Info''"
| "method_frame frame TimedContextCall = frame ''InfoContext''"
| "method_frame frame (SlogCall lib) = hd lib"

section \<open>The text of a stack trace\<close>

definition frame_text :: "go_frame \<Rightarrow> string" where
  "frame_text f = (case f of (function, file, line) \<Rightarrow>
     function @ [newline, tabulator] @ file @ '':'' @ show_int line)"

lemma stack_loop_join:
  "\<forall>f \<in> set frames. fst f \<noteq> [] \<Longrightarrow> b \<noteq> [] \<Longrightarrow>
     stack_loop frames b = b @ concat (map (\<lambda>f. newline # frame_text f) frames)"
  by (induction frames b rule: stack_loop.induct) (simp_all add: frame_text_def)

lemma captureStackTrace_join:
  assumes "\<forall>f \<in> set frames. fst f \<noteq> []"
  shows "captureStackTrace frames = join [newline] (map frame_text frames)"
proof (cases frames)
  case Nil
  then show ?thesis by (simp add: captureStackTrace_def join_def)
next
  case (Cons f r)
  obtain g p n where f: "f = (g, p, n)" by (cases f)
  have "stack_loop r (frame_text f) = frame_text f @ concat (map (\<lambda>f. newline # frame_text f) r)"
    using assms Cons by (intro stack_loop_join) (simp_all add: frame_text_def f)
  then show ?thesis
    using assms Cons by (simp add: captureStackTrace_def join_def f frame_text_def comp_def)
qed

section \<open>What is reported\<close>

text \<open>C27: On a logger with \<open>WithCaller\<close>, a call of a public method reports the place of the call: the file field has the file and line of the user's
  innermost frame, whatever the fields say, and, with \<open>WithStackTrace\<close>, from \<open>ERROR\<close> on the stack trace has the frame of the method and
  then the user's frames, innermost first, each with its function, file and line, up to 32.\<close>

theorem call_site_is_users:
  assumes "assemble (on_stack (stack_of frame path ((function, file, line) # user)) ce) r level message fs counter =
      (entry, seen, counter')"
    and "path = DirectCall m \<or> path = ContextCall m" and "lg_caller r"
    and "\<forall>f \<in> set (frame m # (function, file, line) # user). fst f \<noteq> []"
  shows "map_of entry ''file'' = Some (VString (caller_text (lg_fullCallerPath r) (Some (file, line)))) \<and>
    map_of entry ''stacktrace'' =
      (if lg_stackTrace r \<and> ERROR \<le> level
       then Some (VString (join [newline]
              (map frame_text (take 32 (frame m # (function, file, line) # user)))))
       else None)"
proof -
  let ?ce = "on_stack (stack_of frame path ((function, file, line) # user)) ce"
  have caller: "ce_caller ?ce = Some (file, line)"
    using assms(2) by (auto simp: on_stack_def runtime_Caller_def)
  have "ce_frames ?ce = take 32 (frame m # (function, file, line) # user)"
    using assms(2) by (auto simp: on_stack_def stack_frames_def)
  then have frames: "captureStackTrace (ce_frames ?ce) =
      join [newline] (map frame_text (take 32 (frame m # (function, file, line) # user)))"
    using captureStackTrace_join [of "take 32 (frame m # (function, file, line) # user)"] assms(4)
    by (metis in_set_takeD)
  have "''file'' \<in> set reservedKeys" "''stacktrace'' \<in> set reservedKeys" by (simp_all add: reservedKeys_def)
  note reserved_lookup [OF assms(1) this(1)] reserved_lookup [OF assms(1) this(2)]
  then show ?thesis using assms(3) by (simp add: core_value_def caller frames)
qed

text \<open>The timers and the slog handler do not: what they report as the place of the call is the timer's own
  closure, for every caller, and for slog the second of slog's own frames.\<close>

theorem timers_report_themselves:
  assumes "assemble (on_stack (stack_of frame path user) ce) r level message fs counter = (entry, seen, counter')"
    and "lg_caller r" and "path = TimedCall \<and> g = frame ''Timed.func1'' \<or>
      path = TimedContextCall \<and> g = frame ''TimedContext.func1'' \<or> path = SlogCall lib \<and> 1 < length lib \<and> g = lib ! 1"
  shows "map_of entry ''file'' =
    Some (VString (caller_text (lg_fullCallerPath r) (Some (fst (snd g), snd (snd g)))))"
proof -
  have "ce_caller (on_stack (stack_of frame path user) ce) = Some (fst (snd g), snd (snd g))"
    using assms(3) by (auto simp: on_stack_def runtime_Caller_def split_def nth_append)
  moreover have "''file'' \<in> set reservedKeys" by (simp add: reservedKeys_def)
  note reserved_lookup [OF assms(1) this]
  ultimately show ?thesis using assms(2) by (simp add: core_value_def)
qed

text \<open>A caller in \<open>main.go\<close>, with the package's own frames in \<open>timing.go\<close> and \<open>logger.go\<close>.\<close>

definition demo_frame :: "string \<Rightarrow> go_frame" where
  "demo_frame f = (f, if f = ''Timed.func1'' then ''/src/log-it/timing.go'' else ''/src/log-it/logger.go'', 18)"

definition tracing_logger :: logger where
  "tracing_logger = zero_logger\<lparr>lg_caller := True, lg_stackTrace := True\<rparr>"

theorem call_site_is_users_witness:
  "\<exists>entry seen c. assemble (on_stack (stack_of demo_frame (DirectCall ''Error'') [(''main.main'', ''/app/main.go'', 7)]) plain_env)
      tracing_logger ERROR ''m'' [] 0 = (entry, seen, c) \<and>
    map_of entry ''file'' = Some (VString ''main.go:7'')"
proof -
  obtain entry seen c where a: "assemble (on_stack (stack_of demo_frame (DirectCall ''Error'') [(''main.main'', ''/app/main.go'', 7)]) plain_env)
      tracing_logger ERROR ''m'' [] 0 = (entry, seen, c)" by (rule prod_cases3)
  have "caller_text False (Some (''/app/main.go'', 7)) = ''main.go:7''" by code_simp
  then have "map_of entry ''file'' = Some (VString ''main.go:7'')"
    using call_site_is_users [OF a, of "''Error''"] by (simp add: demo_frame_def tracing_logger_def zero_logger_def)
  then show ?thesis using a by blast
qed

theorem timers_report_themselves_witness:
  "\<exists>entry seen c. assemble (on_stack (stack_of demo_frame TimedCall [(''main.main'', ''/app/main.go'', 7)]) plain_env)
      tracing_logger INFO ''m'' [] 0 = (entry, seen, c) \<and>
    map_of entry ''file'' = Some (VString ''timing.go:18'')"
proof -
  obtain entry seen c where a: "assemble (on_stack (stack_of demo_frame TimedCall [(''main.main'', ''/app/main.go'', 7)]) plain_env)
      tracing_logger INFO ''m'' [] 0 = (entry, seen, c)" by (rule prod_cases3)
  have "caller_text False (Some (''/src/log-it/timing.go'', 18)) = ''timing.go:18''" by code_simp
  then have "map_of entry ''file'' = Some (VString ''timing.go:18'')"
    using timers_report_themselves [OF a, of "demo_frame ''Timed.func1''"]
    by (simp add: demo_frame_def tracing_logger_def zero_logger_def)
  then show ?thesis using a by blast
qed

end
