(* ===== verification/LogTimeout.thy ===== *)
theory LogTimeout
  imports LogConcurrent
begin

text \<open>
  \<open>SyncWithTimeout\<close>: a goroutine that syncs and sends the error into a channel with room for one, a timer, and the
  caller, which returns what comes first. The goroutine is thread \<open>g\<close> of the family of loggers, next to the threads
  of \<open>LogConcurrent\<close>; the timer may fire at any time after the start.
\<close>

section \<open>The call\<close>

datatype sync_caller = NotCalled | Selecting | Returned "goerr option"

text \<open>The family, the error that \<open>Sync\<close> is about to return, the channel \<open>done\<close>, and the caller.\<close>

record sync_call =
  family :: shared
  sync_result :: "goerr option option"
  done_ch :: "goerr option option"
  caller :: sync_caller

definition sync_error :: "sinks \<Rightarrow> shared \<Rightarrow> goerr option" where
  "sync_error env s =
     (let r = root_lg s
      in if is_Syncer (lg_out r) then
           (let err = fst (writer_Sync env (lg_out r) (sinks_world s)) in if isBenignSyncError err then None else err)
         else None)"

text \<open>The goroutine's next action: a step of its \<open>Sync\<close>, which has its error once it has flushed, or the send.\<close>

definition sync_goroutine :: "sinks \<Rightarrow> nat \<Rightarrow> sync_call \<Rightarrow> sync_call option" where
  "sync_goroutine env g a =
     (if pcs (family a) g = Idle then
        (case sync_result a of
           None \<Rightarrow> None
         | Some err \<Rightarrow> Some (a\<lparr>sync_result := None, done_ch := Some err\<rparr>))
      else map_option (\<lambda>s. a\<lparr>family := s,
             sync_result := (if pcs (family a) g = Flushing then Some (sync_error env (family a)) else sync_result a)\<rparr>)
           (advance env g (family a)))"

datatype sync_label = TStart | TSync pc "goerr option option" | TOther label | TReceive "goerr option" | TTimeout

fun thread_of :: "label \<Rightarrow> nat option" where
  "thread_of (Begin t c) = Some t"
| "thread_of (BeginSync t) = Some t"
| "thread_of (Run t p) = Some t"
| "thread_of (SetLvl l) = None"

inductive tstep :: "sinks \<Rightarrow> nat \<Rightarrow> sync_call \<Rightarrow> sync_label \<Rightarrow> sync_call \<Rightarrow> bool" for env g where
  starts: "caller a = NotCalled \<Longrightarrow> begin_with g Closing (family a) = Some s \<Longrightarrow>
    tstep env g a TStart (a\<lparr>family := s, caller := Selecting\<rparr>)"
| syncs: "caller a \<noteq> NotCalled \<Longrightarrow> sync_goroutine env g a = Some b \<Longrightarrow>
    tstep env g a (TSync (pcs (family a) g) (sync_result b)) b"
| others: "cstep env (family a) l s \<Longrightarrow> thread_of l \<noteq> Some g \<Longrightarrow> tstep env g a (TOther l) (a\<lparr>family := s\<rparr>)"
| receives: "caller a = Selecting \<Longrightarrow> done_ch a = Some err \<Longrightarrow>
    tstep env g a (TReceive err) (a\<lparr>done_ch := None, caller := Returned err\<rparr>)"
| times_out: "caller a = Selecting \<Longrightarrow> tstep env g a TTimeout (a\<lparr>caller := Returned (Some sync_timed_out)\<rparr>)"

section \<open>How far the goroutine is\<close>

text \<open>Whether the goroutine's flush is still to come or has given the error \<open>err\<close>, and what is closed by then.\<close>

definition goroutine_at :: "nat \<Rightarrow> goerr option option \<Rightarrow> sync_call \<Rightarrow> bool" where
  "goroutine_at g flushed a \<longleftrightarrow>
     (case pcs (family a) g of
        Closing \<Rightarrow> flushed = None \<and> sync_result a = None \<and> done_ch a = None
      | Waiting \<Rightarrow> flushed = None \<and> sync_result a = None \<and> done_ch a = None \<and> lg_closed (root_lg (family a))
      | Flushing \<Rightarrow> flushed = None \<and> sync_result a = None \<and> done_ch a = None \<and> lg_closed (root_lg (family a))
      | Leaving \<Rightarrow> flushed \<noteq> None \<and> sync_result a = flushed \<and> done_ch a = None \<and> lg_closed (root_lg (family a))
      | Idle \<Rightarrow> flushed \<noteq> None \<and> lg_closed (root_lg (family a)) \<and>
          (sync_result a = flushed \<and> done_ch a = None \<or> sync_result a = None \<and> done_ch a \<in> {None, flushed})
      | _ \<Rightarrow> False)"

definition sync_inv :: "nat \<Rightarrow> sync_label list \<Rightarrow> sync_call \<Rightarrow> bool" where
  "sync_inv g es a \<longleftrightarrow>
     (caller a = NotCalled \<longrightarrow> pcs (family a) g = Idle \<and> sync_result a = None \<and> done_ch a = None) \<and>
     (caller a \<noteq> NotCalled \<longrightarrow>
        (\<exists>flushed. goroutine_at g flushed a \<and> (flushed \<noteq> None \<longrightarrow> TSync Flushing flushed \<in> set es))) \<and>
     (\<forall>e. caller a = Returned e \<longrightarrow>
        e = Some sync_timed_out \<or> TSync Flushing (Some e) \<in> set es \<and> lg_closed (root_lg (family a))) \<and>
     lock_inv (family a)"

lemma goroutine_step:
  assumes "sync_goroutine env g a = Some b" and "goroutine_at g flushed a"
  shows "caller b = caller a \<and> (lg_closed (root_lg (family a)) \<longrightarrow> lg_closed (root_lg (family b))) \<and>
    (if pcs (family a) g = Flushing then goroutine_at g (sync_result b) b \<and> sync_result b \<noteq> None
     else goroutine_at g flushed b)"
  using assms by (cases "pcs (family a) g")
    (auto simp: sync_goroutine_def goroutine_at_def advance_def Let_def split: if_splits option.splits)

lemma goroutine_lock:
  assumes "sync_goroutine env g a = Some b" and "lock_inv (family a)"
  shows "lock_inv (family b)"
proof (cases "pcs (family a) g = Idle")
  case True
  then show ?thesis using assms by (auto simp: sync_goroutine_def split: option.splits)
next
  case False
  then obtain s where s: "advance env g (family a) = Some s" "family b = s"
    using assms(1) by (auto simp: sync_goroutine_def)
  then show ?thesis using lock_inv_moves [OF assms(2) advance_moves [OF assms(2) s(1)]] by simp
qed

lemma other_step:
  assumes "cstep env s l s'" and "thread_of l \<noteq> Some g"
  shows "pcs s' g = pcs s g \<and> (lg_closed (root_lg s) \<longrightarrow> lg_closed (root_lg s'))"
proof -
  have "pcs s' g = pcs s g"
    using assms by (cases rule: cstep.cases) (auto simp: begin_with_def advance_others split: if_splits)
  then show ?thesis using cstep_closed [OF assms(1)] by blast
qed

lemma goroutine_at_caller [simp]: "goroutine_at g flushed (a\<lparr>caller := c\<rparr>) \<longleftrightarrow> goroutine_at g flushed a"
  by (cases "pcs (family a) g") (simp_all add: goroutine_at_def)

lemma goroutine_at_other:
  "goroutine_at g flushed a \<Longrightarrow> pcs s g = pcs (family a) g \<Longrightarrow>
     (lg_closed (root_lg (family a)) \<longrightarrow> lg_closed (root_lg s)) \<Longrightarrow> goroutine_at g flushed (a\<lparr>family := s\<rparr>)"
  by (cases "pcs (family a) g") (auto simp: goroutine_at_def)

lemma sync_inv_step:
  assumes "tstep env g a l b" and "sync_inv g es a"
  shows "sync_inv g (es @ [l]) b"
  using assms
proof (induction rule: tstep.induct)
  case (starts a s)
  then have "lock_inv (family a)" by (simp add: sync_inv_def)
  from lock_inv_moves [OF this begin_moves [OF this starts.hyps(2)]] have "lock_inv s" by simp
  then show ?case using starts by (auto simp: sync_inv_def begin_with_def goroutine_at_def split: if_splits)
next
  case (syncs a b)
  then obtain flushed where f: "goroutine_at g flushed a" "flushed \<noteq> None \<longrightarrow> TSync Flushing flushed \<in> set es"
    by (auto simp: sync_inv_def)
  note step = goroutine_step [OF syncs.hyps(2) f(1)]
  have "\<exists>flushed. goroutine_at g flushed b \<and>
      (flushed \<noteq> None \<longrightarrow> TSync Flushing flushed \<in> set (es @ [TSync (pcs (family a) g) (sync_result b)]))"
    using step f(2) by (cases "pcs (family a) g = Flushing") auto
  moreover have "lock_inv (family b)" using goroutine_lock [OF syncs.hyps(2)] syncs.prems by (simp add: sync_inv_def)
  ultimately show ?case using syncs step by (fastforce simp: sync_inv_def)
next
  case (others a l s)
  note same = other_step [OF others.hyps]
  have "lock_inv s" using lock_inv_step [OF others.hyps(1)] others.prems by (simp add: sync_inv_def)
  then show ?case using others.prems same goroutine_at_other [of g _ a s] by (fastforce simp: sync_inv_def)
next
  case (receives a err)
  then obtain flushed where f: "goroutine_at g flushed a" "flushed \<noteq> None \<longrightarrow> TSync Flushing flushed \<in> set es"
    by (auto simp: sync_inv_def)
  then have "flushed = Some err" "lg_closed (root_lg (family a))" "goroutine_at g flushed (a\<lparr>done_ch := None, caller := Returned err\<rparr>)"
    using receives.hyps(2) by (auto simp: goroutine_at_def split: pc.splits)
  then show ?case using receives f(2) by (auto simp: sync_inv_def)
next
  case (times_out a)
  then show ?case by (auto simp: sync_inv_def)
qed

lemma sync_inv_trace:
  "trace (tstep env g) a es b \<Longrightarrow> sync_inv g [] a \<Longrightarrow> sync_inv g es b"
  by (induction rule: trace.induct) (auto intro: sync_inv_step)

definition sync_ready :: "nat \<Rightarrow> sync_call \<Rightarrow> bool" where
  "sync_ready g a \<longleftrightarrow> caller a = NotCalled \<and> pcs (family a) g = Idle \<and> sync_result a = None \<and> done_ch a = None \<and>
     lock_inv (family a)"

text \<open>C25: What \<open>SyncWithTimeout\<close> guarantees, whatever the other threads do: it never blocks for good, since the timer can
  always end the wait; an error other than the timeout, or nil, is the one that the flush gave, and the family is
  closed by then; and after a timeout the \<open>Sync\<close> goes on, so when no thread can move any more, the flush has
  happened even so and the family is closed.\<close>

theorem SyncWithTimeout_sound:
  assumes "trace (tstep env g) a es b" and "sync_ready g a"
  shows "(caller b = Selecting \<longrightarrow> (\<exists>c. tstep env g b TTimeout c)) \<and>
    (\<forall>e. caller b = Returned e \<longrightarrow>
       e = Some sync_timed_out \<or> TSync Flushing (Some e) \<in> set es \<and> lg_closed (root_lg (family b))) \<and>
    (caller b \<noteq> NotCalled \<and> (\<forall>t. advance env t (family b) = None) \<longrightarrow>
       lg_closed (root_lg (family b)) \<and> (\<exists>err. TSync Flushing (Some err) \<in> set es))"
proof -
  have inv: "sync_inv g es b"
    using sync_inv_trace [OF assms(1)] assms(2) by (simp add: sync_inv_def sync_ready_def)
  have "lg_closed (root_lg (family b)) \<and> (\<exists>err. TSync Flushing (Some err) \<in> set es)"
    if called: "caller b \<noteq> NotCalled" and stuck: "\<forall>t. advance env t (family b) = None"
  proof -
    obtain flushed where f: "goroutine_at g flushed b" "flushed \<noteq> None \<longrightarrow> TSync Flushing flushed \<in> set es"
      using inv called unfolding sync_inv_def by blast
    have "pcs (family b) g \<in> {Idle, Panicked}"
      using stuck_idle [of "family b" env g] inv stuck by (simp add: sync_inv_def)
    then show ?thesis using f by (auto simp: goroutine_at_def)
  qed
  then show ?thesis using inv by (auto simp: sync_inv_def intro: tstep.times_out)
qed

section \<open>Without other threads\<close>

lemma goroutine_goes:
  "sync_goroutine env g a = Some b \<Longrightarrow> caller a \<noteq> NotCalled \<Longrightarrow> \<exists>es. trace (tstep env g) b es c \<Longrightarrow>
     \<exists>es. trace (tstep env g) a es c"
  using trace_step_first [where step = "tstep env g", OF tstep.syncs] by blast

text \<open>When nothing else happens and the timer does not fire first, \<open>SyncWithTimeout\<close> is \<open>Sync\<close>: the same error is returned, and the
  same state is reached.\<close>

theorem SyncWithTimeout_undisturbed:
  assumes "heap_ok s" and "a < length (loggers s)" and "p g = Idle" and "Sync env a s = (err, s')"
    and "c = \<lparr>family = share (root s a) s p, sync_result = None, done_ch = None, caller = NotCalled\<rparr>"
  shows "\<exists>es. trace (tstep env g) c es
    \<lparr>family = share (root s a) s' p, sync_result = None, done_ch = None, caller = Returned err\<rparr>"
proof -
  let ?r = "(root_logger s a)\<lparr>lg_closed := True\<rparr>" and ?f = "share (root s a) s p"
  let ?closed = "?f\<lparr>root_lg := ?r\<rparr>"
  let ?flushed = "?closed\<lparr>sinks_world := flush_out env ?r (the_world s)\<rparr>"
  let ?at = "\<lambda>f q r d. \<lparr>family = goto g q f, sync_result = r, done_ch = d, caller = Selecting\<rparr>"
  let ?last = "\<lparr>family = share (root s a) s' p, sync_result = None, done_ch = None, caller = Returned err\<rparr>"
  have root: "root s a < length (loggers s)" "lg_parent (root_logger s a) = None"
    using root_valid [OF assms(1,2)] by simp_all
  then have closed: "root_logger (close_root a s) a = ?r" "the_world (close_root a s) = the_world s"
    using update_root_at [OF assms(1,2,2)] by (simp_all add: close_root_def update_root_def)
  have err: "sync_error env (goto g Flushing (?closed\<lparr>mutex := Some g\<rparr>)) = err"
    using assms(4) by (auto simp: Sync_def sync_error_def closed Let_def share_def split: prod.splits if_splits)
  have "s' = (close_root a s)\<lparr>the_world := flush_out env ?r (the_world s)\<rparr>"
    using assms(4) by (auto simp: Sync_def closed Let_def flush_out_def split: prod.splits if_splits)
  then have family: "goto g Idle ?flushed = share (root s a) s' p"
    using root assms(3) by (simp add: share_def close_root_def update_root_def fun_upd_idem)
  have "tstep env g (?at ?flushed Idle None (Some err)) (TReceive err)
      (?at ?flushed Idle None (Some err)\<lparr>done_ch := None, caller := Returned err\<rparr>)"
    by (rule tstep.receives) simp_all
  then have "\<exists>es. trace (tstep env g) (?at ?flushed Idle None (Some err)) es ?last"
    using trace_single [where step = "tstep env g"] family by force
  then have "\<exists>es. trace (tstep env g) (?at ?flushed Idle (Some err) None) es ?last"
    by (rule goroutine_goes [rotated 2]) (simp_all add: sync_goroutine_def)
  then have "\<exists>es. trace (tstep env g) (?at (?flushed\<lparr>mutex := Some g\<rparr>) Leaving (Some err) None) es ?last"
    by (rule goroutine_goes [rotated 2]) (simp_all add: sync_goroutine_def advance_def share_def)
  then have "\<exists>es. trace (tstep env g) (?at (?closed\<lparr>mutex := Some g\<rparr>) Flushing None None) es ?last"
    by (rule goroutine_goes [rotated 2])
      (simp_all add: sync_goroutine_def advance_def err, simp add: share_def flush_out_def)
  then have "\<exists>es. trace (tstep env g) (?at ?closed Waiting None None) es ?last"
    by (rule goroutine_goes [rotated 2]) (simp_all add: sync_goroutine_def advance_def share_def)
  then have go: "\<exists>es. trace (tstep env g) (?at ?f Closing None None) es ?last"
    by (rule goroutine_goes [rotated 2]) (simp_all add: sync_goroutine_def advance_def share_def)
  have "tstep env g c TStart (c\<lparr>family := goto g Closing ?f, caller := Selecting\<rparr>)"
    by (rule tstep.starts) (simp_all add: assms(3,5) begin_with_def share_def)
  then show ?thesis using go trace_step_first [where step = "tstep env g"] assms(5) by fastforce
qed

text \<open>A family on a sink that fails to sync; nobody else is there.\<close>

definition failing_sync :: sinks where
  "failing_sync = quiet_sinks\<lparr>on_Sync := \<lambda>i h. Some (GoErr ''*errors.errorString'' ''disk full'' None)\<rparr>"

definition sync_start :: sync_call where
  "sync_start =
     \<lparr>family = \<lparr>root_lg = zero_logger\<lparr>lg_out := Sink 0 True None\<rparr>, sinks_world = empty_world, counter = 0, mutex = None,
        pcs = \<lambda>_. Idle\<rparr>, sync_result = None, done_ch = None, caller = NotCalled\<rparr>"

theorem SyncWithTimeout_sound_witness:
  "\<exists>b c. tstep failing_sync 5 sync_start TStart b \<and> tstep failing_sync 5 b TTimeout c \<and> caller c = Returned (Some sync_timed_out)"
proof -
  let ?b = "sync_start\<lparr>family := goto 5 Closing (family sync_start), caller := Selecting\<rparr>"
  have step: "tstep failing_sync 5 sync_start TStart ?b"
    by (rule tstep.starts) (simp_all add: sync_start_def begin_with_def)
  have "sync_ready 5 sync_start" by (simp add: sync_ready_def sync_start_def lock_inv_def)
  from SyncWithTimeout_sound [OF trace_single [where step = "tstep failing_sync 5", OF step] this]
  obtain c where c: "tstep failing_sync 5 ?b TTimeout c" by auto
  then have "caller c = Returned (Some sync_timed_out)" by (cases rule: tstep.cases) simp
  then show ?thesis using step c by blast
qed

end
