(* ===== verification/Spec2Isabelle.thy ===== *)
theory Spec2Isabelle
  imports LogConcurrent LogDeliver LogAlias FormatterCorrect FormatterSafety LogfmtCorrect LogSlog LogGlobal LogTest
    LogExit LogPipeline LogPool LogReentrant LogInterface LogCallSite LogTimeout LogPanic
begin

text \<open>
  A verification library for the Go logger \<open>log-it\<close> (package \<open>logger\<close> and its test helper
  \<open>logtest\<close>).

  The program. A logging call on a \<open>Logger\<close> (\<open>logger.go\<close>) is admitted or refused by the closed
  flag, the level and the sampler (\<open>sampler.go\<close>); the fields of the logger, of the context
  extractors and of the call are merged, lazy values are resolved and errors are enriched
  (\<open>errors.go\<close>); an entry is assembled from these and the core fields; middleware
  (\<open>pipeline.go\<close>, \<open>redact.go\<close>) changes or drops it; a formatter (\<open>formatter.go\<close>, \<open>encode.go\<close>)
  makes a line of it; the line goes to a tree of writers (\<open>writer_fanout.go\<close>,
  \<open>writer_filtered.go\<close>, \<open>writer_async.go\<close>) under the logger's mutex; hooks run, and \<open>FATAL\<close>
  ends the process. Around this are typed fields (\<open>field.go\<close>), levels (\<open>level.go\<close>), options
  (\<open>options.go\<close>), the slog bridge (\<open>slog_handler.go\<close>), the global and context loggers, environment
  configuration and timers (\<open>global.go\<close>, \<open>context.go\<close>, \<open>env.go\<close>, \<open>timing.go\<close>).

  Theories, in the order in which they build on each other:

    \<^item> \<open>LogPrelude\<close>: Go maps as association lists with one pair per key, in the order in which the
      loop meets them (\<open>gomap_ok\<close>, \<open>same_map\<close>); traces of a step relation and the locale
      \<open>simulation\<close>.
    \<^item> \<open>GoStrings\<close>, \<open>GoNumbers\<close>, \<open>GoValues\<close>: bytes and UTF-8, decimal and hexadecimal text, IEEE
      bit patterns, and the values that a field can hold.
    \<^item> \<open>LogLevel\<close>, \<open>LogField\<close>, \<open>LogEnrich\<close>: \<open>level.go\<close>, \<open>field.go\<close>, and \<open>errors.go\<close> with
      \<open>mergeFields\<close> and \<open>resolveLogValuers\<close> of \<open>logger.go\<close>.
    \<^item> \<open>LogEncode\<close>, \<open>JsonText\<close>, \<open>EncodeCorrect\<close>: \<open>encode.go\<close>, a reader of JSON text as the
      specification, and the round trip.
    \<^item> \<open>LogFormatter\<close>, \<open>FormatterCorrect\<close>, \<open>FormatterSafety\<close>, \<open>LogfmtCorrect\<close>: \<open>formatter.go\<close>; key
      maps and independence of the map order (locale \<open>entry_formatter\<close>, interpreted for the three
      formatters); what sanitised text can contain; a reader of logfmt lines and the round trip.
    \<^item> \<open>LogRedact\<close>, \<open>LogSampler\<close>: \<open>redact.go\<close>, \<open>sampler.go\<close> (locale \<open>level_sampler\<close>, interpreted for
      both samplers).
    \<^item> \<open>LogAsync\<close>: \<open>writer_async.go\<close> as a transition system whose steps are the atomic actions of
      callers and goroutine, refining a lossy queue.
    \<^item> \<open>LogWriters\<close>, \<open>WritersCorrect\<close>: the tree of writers, level extraction from encoded lines,
      errors of fan-outs, terminal detection (\<open>terminal_*.go\<close>).
    \<^item> \<open>LogCore\<close>, \<open>CoreCorrect\<close>, \<open>EntryCorrect\<close>, \<open>CallCorrect\<close>: \<open>logger.go\<close> and \<open>options.go\<close>; the heap
      of loggers and levels, the entry, and the whole call down to the sink.
    \<^item> \<open>LogDeliver\<close>: what the logger needs of its writer as the locale \<open>delivery\<close>, interpreted for a sink,
      the discarding writer and a fan-out of filtered sinks; a whole call routed by severity.
    \<^item> \<open>LogConcurrent\<close>: the same calls as atomic steps of many threads, with the mutex: the steps of
      one thread alone are \<open>internalLog\<close>, and any interleaving is serial (locale \<open>simulation\<close>); progress,
      closing under concurrency, and the entry that \<open>Sync\<close> can lose.
    \<^item> \<open>LogExit\<close>: the same threads in a process that \<open>os.Exit\<close> ends.
    \<^item> \<open>LogPipeline\<close>: these threads and the goroutine of an asynchronous writer in one transition system; what
      the sink receives, from the calls on, with its order, its drops and its close.
    \<^item> \<open>LogPanic\<close>: the threads of \<open>LogConcurrent\<close> when the code that they call panics: what a panic unwinds, that the
      deferred unlock keeps the logger usable, and the death of the process when the panic is in the goroutine of an
      asynchronous writer.
    \<^item> \<open>LogReentrant\<close>: threads with a stack of calls, for hooks that log.
    \<^item> \<open>LogTimeout\<close>: \<open>SyncWithTimeout\<close>, its goroutine among the other threads, its timer and its channel;
      undisturbed, it is \<open>Sync\<close>.
    \<^item> \<open>LogPool\<close>: the pooled buffers as memory that the threads share, with a channel of any capacity
      that drops lines when it is full and can be closed; that lines may be treated as values.
    \<^item> \<open>LogInterface\<close>: \<open>iface.go\<close>, as a record of methods, and its clients (locale \<open>implements\<close>,
      interpreted for the logger); its methods may panic where the code that they call does.
    \<^item> \<open>LogCallSite\<close>: the stack below \<open>writeEntry\<close> and the fixed distances at which it looks for its caller.
    \<^item> \<open>LogAlias\<close>: maps by address, for what \<open>redactMap\<close> and \<open>With\<close> do to maps that others hold.
    \<^item> \<open>LogSlog\<close>, \<open>LogGlobal\<close>, \<open>LogTest\<close>: the slog bridge, the global helpers, \<open>logtest\<close>.

  State. \<open>system\<close> has the loggers by address (a child points to its root), the \<open>world\<close> and the
  event counter. \<open>world\<close> has the history of calls on sinks, hooks and the exit function (\<open>os.Exit\<close> or one that \<open>withExitFunc\<close> set), and the
  state of every asynchronous writer. A Go panic that the code does not recover, and a call that never
  returns, is \<open>None\<close>; machine integers are words; a struct is a record, an interface value a datatype
  of the implementations in the repository plus what a user can supply.

  Bounds. Every recursion is structural or has a termination proof, apart from \<open>itoa\<close>, which does
  not return on the least integer. The readers of JSON text that serve as specification take fuel; the
  length of the text is enough, which the round trip shows. \<open>resolveLogValuers\<close> has the code's own
  limit of depth, and redaction on shared maps has the depth of
  the stack as its fuel: more than the nesting of the maps is enough, and for a cyclic map none is. The
  theories of threads have no bound on the number of threads, calls or steps.

  Parameters, that is code outside the repository: what sinks answer, a function of everything
  that happened before; clock, caller, stack frames, host name, environment variables; the
  kernel's answer to \<open>ioctl\<close>; the buffer that \<open>sync.Pool\<close> picks, the moment at which a timer fires, which calls of user code panic
  (\<open>faults\<close>); the
  shortest decimal of a floating-point number; \<open>json.Marshal\<close> and \<open>fmt\<close> of types the encoder does not
  know; context extractors and middleware as functions, custom samplers as functions of all their calls so far; formatted messages of the
  \<open>Infof\<close> family as the text that \<open>fmt.Sprintf\<close> gave.

  Not modelled. The theories from \<open>LogCore\<close> to \<open>CallCorrect\<close> run one call at a time, treat maps
  and lines as values, and take a hook to be a function that does not log; \<open>LogConcurrent\<close>, \<open>LogExit\<close>,
  \<open>LogPipeline\<close>, \<open>LogAlias\<close>, \<open>LogPool\<close> and \<open>LogReentrant\<close> each add one of these and say what
  the others may then rely on. They are not all in one system: \<open>LogPipeline\<close> has one asynchronous writer on one
  sink, and \<open>LogReentrant\<close> has the hooks of one family. A data race on a map itself has no meaning, and
  middleware does not log. A panic that unwinds a call is the call's \<open>None\<close> in the
  theories of single calls and a step of \<open>LogPanic\<close> between threads, where the goroutine of an asynchronous writer runs
  when the writer is closed. The dispatch inside \<open>log/slog\<close> is library code;
  \<open>doc.go\<close> has no code.
\<close>

end
